(* ===== verification/Prelude.thy ===== *)
theory Prelude
  imports Main "HOL-Library.Word"
begin

text \<open>
  What every component of the model shares: the machine integer types of the Rust sources,
  the outcome of a computation that may panic or have undefined behaviour, memory cells that
  may be uninitialised, and lemmas on lists.

  Sizes and indices (\<open>usize\<close>) of containers are \<open>nat\<close>: they are bounded by the
  memory a container occupies, so their arithmetic does not wrap.  Counters that the kernel
  shares with the program (\<open>u32\<close> ring positions), opcodes, flags and metric values are
  words of their width.
\<close>

section \<open>Machine integers\<close>

type_synonym u8 = "8 word"
type_synonym u16 = "16 word"
type_synonym u32 = "32 word"
type_synonym u64 = "64 word"

definition USIZE_MAX :: nat where
  "USIZE_MAX = 2 ^ 64 - 1"

text \<open>The addition of \<open>usize\<close> values that come from a caller, as it wraps in a release
  build.\<close>

definition usize_add :: "nat \<Rightarrow> nat \<Rightarrow> nat" where
  "usize_add a b = (a + b) mod 2 ^ 64"

lemma usize_add_small [simp]: "a + b \<le> USIZE_MAX \<Longrightarrow> usize_add a b = a + b"
  by (simp add: usize_add_def USIZE_MAX_def)

section \<open>Outcomes\<close>

text \<open>
  A call returns (\<open>Done\<close>), panics, or has undefined behaviour: \<open>Undef\<close> is an access
  through a raw pointer outside the allocation, or the use of an uninitialised value.
\<close>

datatype 'a outcome = Done 'a | Panic | Undef

fun and_then :: "'a outcome \<Rightarrow> ('a \<Rightarrow> 'b outcome) \<Rightarrow> 'b outcome" where
  "and_then (Done x) f = f x"
| "and_then Panic f = Panic"
| "and_then Undef f = Undef"

lemma and_then_cong [fundef_cong]:
  "x = y \<Longrightarrow> (\<And>a. y = Done a \<Longrightarrow> f a = g a) \<Longrightarrow> and_then x f = and_then y g"
  by (cases y) auto

text \<open>Rust's \<open>assert!\<close> in front of a computation.\<close>

definition assert_then :: "bool \<Rightarrow> 'a outcome \<Rightarrow> 'a outcome" where
  "assert_then b x = (if b then x else Panic)"

lemma assert_then_True [simp]: "assert_then True x = x"
  by (simp add: assert_then_def)

lemma assert_then_False [simp]: "assert_then False x = Panic"
  by (simp add: assert_then_def)

lemma and_then_Done_iff:
  "and_then x f = Done y \<longleftrightarrow> (\<exists>a. x = Done a \<and> f a = Done y)"
  by (cases x) auto

text \<open>\<open>std::task::Poll\<close>.\<close>

datatype 'a poll = Ready 'a | Pending

section \<open>Memory cells\<close>

text \<open>A block of \<open>MaybeUninit\<close> cells: \<open>None\<close> is a cell that was never written.\<close>

type_synonym 'a cells = "'a option list"

definition ptr_read :: "'a cells \<Rightarrow> nat \<Rightarrow> 'a outcome" where
  "ptr_read m i = (if i < length m then (case m ! i of None \<Rightarrow> Undef | Some v \<Rightarrow> Done v) else Undef)"

definition ptr_write :: "'a cells \<Rightarrow> nat \<Rightarrow> 'a \<Rightarrow> 'a cells outcome" where
  "ptr_write m i v = (if i < length m then Done (m[i := Some v]) else Undef)"

text \<open>\<open>ptr::copy\<close> inside one block: \<open>n\<close> cells from \<open>src\<close> to \<open>dst\<close>, where the two
  ranges may overlap.  The copy is untyped, so uninitialised cells are copied as they are.\<close>

definition ptr_copy :: "'a cells \<Rightarrow> nat \<Rightarrow> nat \<Rightarrow> nat \<Rightarrow> 'a cells outcome" where
  "ptr_copy m src dst n =
     (if src + n \<le> length m \<and> dst + n \<le> length m
      then Done (take dst m @ take n (drop src m) @ drop (dst + n) m) else Undef)"

text \<open>\<open>ptr::copy_nonoverlapping\<close> from another block.\<close>

definition ptr_copy_from :: "'a cells \<Rightarrow> nat \<Rightarrow> 'a cells \<Rightarrow> nat \<Rightarrow> nat \<Rightarrow> 'a cells outcome" where
  "ptr_copy_from s src m dst n =
     (if src + n \<le> length s \<and> dst + n \<le> length m
      then Done (take dst m @ take n (drop src s) @ drop (dst + n) m) else Undef)"

text \<open>\<open>ptr::swap\<close> of two cells of one block.\<close>

definition ptr_swap :: "'a cells \<Rightarrow> nat \<Rightarrow> nat \<Rightarrow> 'a cells outcome" where
  "ptr_swap m i j = (if i < length m \<and> j < length m then Done (m[i := m ! j, j := m ! i]) else Undef)"

text \<open>The typed read of several cells: a slice made from raw parts, or \<open>drop_in_place\<close> on
  each of them.\<close>

fun read_cells :: "'a cells \<Rightarrow> nat list \<Rightarrow> 'a list outcome" where
  "read_cells m [] = Done []"
| "read_cells m (i # is) =
     and_then (ptr_read m i) (\<lambda>v. and_then (read_cells m is) (\<lambda>vs. Done (v # vs)))"

lemmas ptr_ops = ptr_read_def ptr_write_def ptr_copy_def ptr_copy_from_def ptr_swap_def

text \<open>Initialised cells followed by anything.\<close>

lemma ptr_read_Some [simp]: "i < length xs \<Longrightarrow> ptr_read (map Some xs @ ys) i = Done (xs ! i)"
  by (simp add: ptr_read_def nth_append)

lemma read_cells_range:
  "a \<le> b \<Longrightarrow> b \<le> length xs \<Longrightarrow>
   read_cells (map Some xs @ ys) [a..<b] = Done (take (b - a) (drop a xs))"
proof (induction "b - a" arbitrary: a)
  case 0
  then show ?case by simp
next
  case (Suc k)
  then have "[a..<b] = a # [Suc a..<b]" and "read_cells (map Some xs @ ys) [Suc a..<b]
      = Done (take (b - Suc a) (drop (Suc a) xs))" and "a < length xs"
    by (simp_all add: upt_conv_Cons)
  moreover have "take (b - a) (drop a xs) = xs ! a # take (b - Suc a) (drop (Suc a) xs)"
    using Suc.hyps(2) \<open>a < length xs\<close>
    by (metis Cons_nth_drop_Suc diff_Suc_Suc Suc_diff_Suc take_Suc_Cons zero_less_Suc
        zero_less_diff)
  ultimately show ?case by simp
qed

section \<open>Errors\<close>

text \<open>\<open>std::io::Error\<close>: an error number of the operating system, or an error that the program
  makes from a kind and a message.\<close>

datatype error_kind = WriteZero | Other

datatype io_error = OsError int | Custom error_kind string

section \<open>Lists\<close>

named_theorems seq_simps \<open>index arithmetic on sequences of cells\<close>

lemma length_concat_uniform [seq_simps]:
  "(\<forall>xs\<in>set xss. length xs = n) \<Longrightarrow> length (concat xss) = n * length xss"
  by (induction xss) auto

lemma nth_concat_uniform [seq_simps]:
  assumes "\<forall>xs\<in>set xss. length xs = n" and "0 < n" and "i < n * length xss"
  shows "concat xss ! i = xss ! (i div n) ! (i mod n)"
  using assms
proof (induction xss arbitrary: i)
  case Nil
  then show ?case by simp
next
  case (Cons xs xss)
  show ?case
  proof (cases "i < n")
    case True
    with Cons.prems show ?thesis by (simp add: nth_append)
  next
    case False
    with Cons.prems have "i - n < n * length xss" by simp
    with Cons have IH: "concat xss ! (i - n) = xss ! ((i - n) div n) ! ((i - n) mod n)"
      by simp
    from False Cons.prems have "i div n = Suc ((i - n) div n)" and "i mod n = (i - n) mod n"
      by (simp_all add: le_div_geq le_mod_geq)
    with False Cons.prems IH show ?thesis by (simp add: nth_append)
  qed
qed

lemma concat_update_uniform [seq_simps]:
  assumes "\<forall>xs\<in>set xss. length xs = n" and "0 < n" and "i < n * length xss"
  shows "concat (xss[i div n := (xss ! (i div n))[i mod n := x]]) = (concat xss)[i := x]"
  using assms
proof (induction xss arbitrary: i)
  case Nil
  then show ?case by simp
next
  case (Cons xs xss)
  show ?case
  proof (cases "i < n")
    case True
    with Cons.prems show ?thesis by (simp add: list_update_append)
  next
    case False
    with Cons.prems have "i - n < n * length xss" by simp
    with Cons have IH: "concat (xss[(i - n) div n := (xss ! ((i - n) div n))[(i - n) mod n := x]])
        = (concat xss)[i - n := x]"
      by simp
    from False Cons.prems have "i div n = Suc ((i - n) div n)" and "i mod n = (i - n) mod n"
      by (simp_all add: le_div_geq le_mod_geq)
    with False Cons.prems IH show ?thesis by (simp add: list_update_append)
  qed
qed

end
