(* ===== verification/Slot_Store.thy ===== *)
theory Slot_Store
  imports Prelude
begin

text \<open>
  The contract of the slot map that the executor is written against: a partial map from
  indices to values in which \<open>ins\<close> picks an unused index.  The executor keeps its futures,
  its completion events and its buffer pool in such stores and holds on to their indices while
  other entries come and go.
\<close>

locale slot_store =
  fixes get :: "'s \<Rightarrow> nat \<Rightarrow> 'v option"
    and ins :: "'s \<Rightarrow> 'v \<Rightarrow> (nat \<times> 's) outcome"
    and del :: "'s \<Rightarrow> nat \<Rightarrow> 'v option \<times> 's"
    and put :: "'s \<Rightarrow> nat \<Rightarrow> 'v \<Rightarrow> 's"
    and count :: "'s \<Rightarrow> nat"
    and inv :: "'s \<Rightarrow> bool"
    and cap :: nat
  assumes ins_law: "inv s \<Longrightarrow> count s < cap \<Longrightarrow>
      \<exists>i s'. ins s v = Done (i, s') \<and> inv s' \<and> get s i = None \<and> get s' = (get s)(i \<mapsto> v)"
    and del_value: "inv s \<Longrightarrow> fst (del s i) = get s i"
    and del_get: "inv s \<Longrightarrow> get (snd (del s i)) = (get s)(i := None)"
    and del_inv: "inv s \<Longrightarrow> inv (snd (del s i))"
    and put_get: "inv s \<Longrightarrow> get (put s i v) = (if get s i = None then get s else (get s)(i \<mapsto> v))"
    and put_inv: "inv s \<Longrightarrow> inv (put s i v)"
    and get_finite: "inv s \<Longrightarrow> finite (dom (get s))"
    and count_card: "inv s \<Longrightarrow> count s = card (dom (get s))"
begin

lemma ins_result:
  assumes "inv s" and "count s < cap" and "ins s v = Done (i, s')"
  shows "inv s'" and "get s i = None" and "get s' = (get s)(i \<mapsto> v)"
  using ins_law [OF assms(1,2), of v] assms(3) by auto

lemma upd_count:
  assumes "inv s" and "inv s'" and "get s i = None" and "get s' = (get s)(i \<mapsto> v)"
  shows "count s' = count s + 1"
proof -
  have "dom (get s') = insert i (dom (get s))" using assms(4) by auto
  moreover have "i \<notin> dom (get s)" using assms(3) by auto
  ultimately show ?thesis using assms(1,2) by (simp add: count_card get_finite)
qed

lemma ins_count:
  assumes "inv s" and "count s < cap" and "ins s v = Done (i, s')"
  shows "count s' = count s + 1"
  using ins_result [OF assms] by (intro upd_count [OF assms(1)])

lemma ins_keeps:
  assumes "inv s" and "count s < cap" and "ins s v = Done (i, s')" and "get s j = Some w"
  shows "i \<noteq> j" and "get s' j = Some w"
  using ins_result [OF assms(1-3)] assms(4) by auto

lemma ins_del:
  assumes "inv s" and "count s < cap" and "ins s v = Done (i, s')"
  shows "fst (del s' i) = Some v" and "get (snd (del s' i)) = get s"
  using ins_result [OF assms] by (auto simp: del_value del_get)

lemma del_count:
  assumes "inv s"
  shows "count (snd (del s i)) = count s - (if get s i = None then 0 else 1)"
proof -
  have "dom (get (snd (del s i))) = dom (get s) - {i}" using assms by (simp add: del_get)
  then show ?thesis
    using assms by (auto simp: count_card del_inv card_Diff_singleton_if get_finite domIff)
qed

lemma del_again: "inv s \<Longrightarrow> fst (del (snd (del s i)) i) = None"
  by (simp add: del_value del_get del_inv)

lemma put_count: "inv s \<Longrightarrow> count (put s i v) = count s"
  by (auto simp: count_card put_inv put_get insert_absorb domI)

lemma count_zero: "inv s \<Longrightarrow> count s = 0 \<longleftrightarrow> get s = Map.empty"
  by (simp add: count_card get_finite)

end

end
