(* ===== verification/Slotmap.thy ===== *)
theory Slotmap
  imports Slot_Store
begin

text \<open>
  \<open>hamerkop/src/stable_slotmap.rs\<close>: a slot map whose elements never move.  Storage is a
  vector of boxed slabs of \<open>SLABSIZE\<close> entries; an entry is an element or a link of the free
  list, whose first entry is \<open>head\<close>.
\<close>

section \<open>State and operations\<close>

definition SENTINEL :: nat where
  "SENTINEL = USIZE_MAX"

definition SLABSIZE :: nat where
  "SLABSIZE = 1024"

datatype 'a entry = Element 'a | Link nat

record 'a slotmap =
  slabs :: "'a entry list list"
  head :: nat
  sm_size :: nat

definition sm_new :: "'a slotmap" where
  "sm_new = \<lparr>slabs = [], head = SENTINEL, sm_size = 0\<rparr>"

definition sm_len :: "'a slotmap \<Rightarrow> nat" where
  "sm_len s = sm_size s"

definition sm_is_empty :: "'a slotmap \<Rightarrow> bool" where
  "sm_is_empty s = (sm_len s = 0)"

definition slot_at :: "'a slotmap \<Rightarrow> nat \<Rightarrow> 'a entry option" where
  "slot_at s index =
     (if index div SLABSIZE < length (slabs s)
      then (let slab = slabs s ! (index div SLABSIZE)
            in if index mod SLABSIZE < length slab then Some (slab ! (index mod SLABSIZE)) else None)
      else None)"

text \<open>A write through the reference that \<open>slot_at_mut\<close> returned.\<close>

definition set_slot :: "'a slotmap \<Rightarrow> nat \<Rightarrow> 'a entry \<Rightarrow> 'a slotmap" where
  "set_slot s index e =
     s\<lparr>slabs := (slabs s)[index div SLABSIZE :=
                  (slabs s ! (index div SLABSIZE))[index mod SLABSIZE := e]]\<rparr>"

definition create_slab :: "nat \<Rightarrow> nat \<Rightarrow> 'a entry list" where
  "create_slab hd0 base = map (\<lambda>i. Link (base + i + 1)) [0..<SLABSIZE - 1] @ [Link hd0]"

definition expand :: "'a slotmap \<Rightarrow> 'a slotmap" where
  "expand s =
     (let base = length (slabs s) * SLABSIZE
      in s\<lparr>slabs := slabs s @ [create_slab (head s) base], head := base\<rparr>)"

definition next_slot :: "'a slotmap \<Rightarrow> nat \<times> 'a slotmap" where
  "next_slot s = (let s' = (if head s = SENTINEL then expand s else s) in (head s', s'))"

definition sm_insert :: "'a slotmap \<Rightarrow> 'a \<Rightarrow> (nat \<times> 'a slotmap) outcome" where
  "sm_insert s v =
     (let (index, s1) = next_slot s
      in case slot_at s1 index of
           None \<Rightarrow> Panic
         | Some (Element _) \<Rightarrow> Panic
         | Some (Link nxt) \<Rightarrow>
             Done (index, (set_slot s1 index (Element v))\<lparr>head := nxt, sm_size := sm_size s1 + 1\<rparr>))"

definition sm_remove :: "'a slotmap \<Rightarrow> nat \<Rightarrow> 'a option \<times> 'a slotmap" where
  "sm_remove s index =
     (case slot_at s index of
        None \<Rightarrow> (None, s)
      | Some (Link _) \<Rightarrow> (None, s)
      | Some (Element v) \<Rightarrow>
          (Some v, (set_slot s index (Link (head s)))\<lparr>head := index, sm_size := sm_size s - 1\<rparr>))"

definition sm_get :: "'a slotmap \<Rightarrow> nat \<Rightarrow> 'a option" where
  "sm_get s index =
     (case slot_at s index of Some (Element v) \<Rightarrow> Some v | _ \<Rightarrow> None)"

text \<open>A write through the reference that \<open>get_mut\<close> returned, if it returned one.\<close>

definition sm_set :: "'a slotmap \<Rightarrow> nat \<Rightarrow> 'a \<Rightarrow> 'a slotmap" where
  "sm_set s index v =
     (case slot_at s index of Some (Element _) \<Rightarrow> set_slot s index (Element v) | _ \<Rightarrow> s)"

definition sm_index :: "'a slotmap \<Rightarrow> nat \<Rightarrow> 'a outcome" where
  "sm_index s index = (case sm_get s index of Some v \<Rightarrow> Done v | None \<Rightarrow> Panic)"

definition sm_iter :: "'a slotmap \<Rightarrow> 'a list" where
  "sm_iter s = List.map_filter (\<lambda>e. case e of Element v \<Rightarrow> Some v | Link _ \<Rightarrow> None) (concat (slabs s))"

lemmas sm_ops = sm_len_def sm_is_empty_def sm_get_def sm_set_def sm_index_def

section \<open>The flat view of the slabs\<close>

definition flat :: "'a slotmap \<Rightarrow> 'a entry list" where
  "flat s = concat (slabs s)"

definition shaped :: "'a slotmap \<Rightarrow> bool" where
  "shaped s \<longleftrightarrow> (\<forall>slab\<in>set (slabs s). length slab = SLABSIZE)"

lemma flat_frame [simp]:
  "flat (s\<lparr>head := h\<rparr>) = flat s"
  "flat (s\<lparr>sm_size := n\<rparr>) = flat s"
  "shaped (s\<lparr>head := h\<rparr>) = shaped s"
  "shaped (s\<lparr>sm_size := n\<rparr>) = shaped s"
  by (simp_all add: flat_def shaped_def)

lemma SLABSIZE_pos [simp]: "0 < SLABSIZE"
  by (simp add: SLABSIZE_def)

lemma length_flat: "shaped s \<Longrightarrow> length (flat s) = SLABSIZE * length (slabs s)"
  by (simp add: flat_def shaped_def length_concat_uniform)

lemma slot_at_flat:
  assumes "shaped s"
  shows "slot_at s i = (if i < length (flat s) then Some (flat s ! i) else None)"
proof -
  have "i div SLABSIZE < length (slabs s) \<longleftrightarrow> i < length (flat s)"
    using assms by (simp add: length_flat less_mult_imp_div_less div_less_iff_less_mult mult.commute)
  moreover have "length (slabs s ! (i div SLABSIZE)) = SLABSIZE" if "i div SLABSIZE < length (slabs s)"
    using assms that by (simp add: shaped_def)
  moreover have "flat s ! i = slabs s ! (i div SLABSIZE) ! (i mod SLABSIZE)" if "i < length (flat s)"
    using assms that nth_concat_uniform [of "slabs s" SLABSIZE i]
    by (simp add: length_flat) (simp add: flat_def shaped_def)
  ultimately show ?thesis by (auto simp: slot_at_def Let_def)
qed

lemma flat_set_slot:
  assumes "shaped s" and "i < length (flat s)"
  shows "flat (set_slot s i e) = (flat s)[i := e]"
  using assms concat_update_uniform [of "slabs s" SLABSIZE i e]
  by (simp add: length_flat) (simp add: flat_def set_slot_def shaped_def)

lemma shaped_set_slot: "shaped s \<Longrightarrow> shaped (set_slot s i e)"
  unfolding shaped_def set_slot_def
  by (cases "i div SLABSIZE < length (slabs s)") (auto dest!: in_set_conv_nth [THEN iffD1] simp: nth_list_update)

lemma length_create_slab [simp]: "length (create_slab h b) = SLABSIZE"
  by (simp add: create_slab_def SLABSIZE_def)

lemma nth_create_slab:
  "k < SLABSIZE \<Longrightarrow> create_slab h b ! k = Link (if k = SLABSIZE - 1 then h else b + k + 1)"
  by (auto simp: create_slab_def nth_append)

lemma flat_expand: "shaped s \<Longrightarrow> flat (expand s) = flat s @ create_slab (head s) (length (flat s))"
  by (subst length_flat) (simp_all add: expand_def flat_def Let_def mult.commute)

lemma shaped_expand: "shaped s \<Longrightarrow> shaped (expand s)"
  by (auto simp: shaped_def expand_def Let_def)

lemma head_expand: "shaped s \<Longrightarrow> head (expand s) = length (flat s)"
  by (subst length_flat) (simp_all add: expand_def Let_def mult.commute)

section \<open>The free list\<close>

fun chain :: "'a entry list \<Rightarrow> nat \<Rightarrow> nat list \<Rightarrow> bool" where
  "chain es h [] \<longleftrightarrow> h = SENTINEL"
| "chain es h (x # xs) \<longleftrightarrow>
     h = x \<and> x < length es \<and> (case es ! x of Link n \<Rightarrow> chain es n xs | Element _ \<Rightarrow> False)"

fun is_link :: "'a entry \<Rightarrow> bool" where
  "is_link (Link _) = True"
| "is_link (Element _) = False"

lemma is_link_iff: "is_link e \<longleftrightarrow> (\<exists>n. e = Link n)"
  by (cases e) auto

lemma chain_update: "x \<notin> set fl \<Longrightarrow> chain (es[x := e]) h fl = chain es h fl"
  by (induction es h fl rule: chain.induct) (auto simp: nth_list_update split: entry.splits)

lemma chain_empty_iff: "chain es h fl \<Longrightarrow> length es \<le> SENTINEL \<Longrightarrow> fl = [] \<longleftrightarrow> h = SENTINEL"
  by (cases fl) auto

lemma chain_slab:
  assumes "k \<le> SLABSIZE"
  shows "chain (es @ create_slab SENTINEL (length es))
           (if k = SLABSIZE then SENTINEL else length es + k) [length es + k..<length es + SLABSIZE]"
  using assms
proof (induction k rule: inc_induct)
  case base
  then show ?case by simp
next
  case (step k)
  let ?es = "es @ create_slab SENTINEL (length es)"
  from step.hyps have "[length es + k..<length es + SLABSIZE]
      = (length es + k) # [length es + Suc k..<length es + SLABSIZE]"
    by (simp add: upt_conv_Cons)
  moreover from step.hyps have "?es ! (length es + k)
      = Link (if Suc k = SLABSIZE then SENTINEL else length es + Suc k)"
    by (auto simp: nth_create_slab)
  ultimately show ?case using step by simp
qed

section \<open>The invariant\<close>

text \<open>
  The free list runs from \<open>head\<close> to \<open>SENTINEL\<close> through every link exactly once, and
  \<open>size\<close> counts the elements.  No index of the map is \<open>SENTINEL\<close>.
\<close>

definition sm_inv :: "'a slotmap \<Rightarrow> bool" where
  "sm_inv s \<longleftrightarrow> shaped s \<and> length (flat s) \<le> SENTINEL \<and>
     (\<exists>fl. chain (flat s) (head s) fl \<and> distinct fl \<and>
           set fl = {i. i < length (flat s) \<and> is_link (flat s ! i)}) \<and>
     sm_size s = card {i. i < length (flat s) \<and> \<not> is_link (flat s ! i)}"

text \<open>The address space leaves room for one more slab, or no slab is needed.\<close>

definition sm_room :: "'a slotmap \<Rightarrow> bool" where
  "sm_room s \<longleftrightarrow> head s \<noteq> SENTINEL \<or> (length (slabs s) + 1) * SLABSIZE \<le> SENTINEL"

lemma sm_inv_new: "sm_inv sm_new"
  by (auto simp: sm_inv_def sm_new_def shaped_def flat_def intro!: exI [of _ "[]"])

lemma sm_inv_shaped: "sm_inv s \<Longrightarrow> shaped s"
  by (simp add: sm_inv_def)

lemma sm_get_flat:
  "shaped s \<Longrightarrow> sm_get s i =
     (if i < length (flat s) then (case flat s ! i of Element v \<Rightarrow> Some v | Link _ \<Rightarrow> None) else None)"
  by (auto simp: sm_get_def slot_at_flat split: entry.splits)

lemma sm_get_new [simp]: "sm_get sm_new i = None"
  by (simp add: sm_get_def slot_at_def sm_new_def)

lemma sm_get_expand: "shaped s \<Longrightarrow> sm_get (expand s) i = sm_get s i"
  by (auto simp: sm_get_flat shaped_expand flat_expand nth_append nth_create_slab split: entry.splits)

lemma sm_inv_expand:
  assumes inv: "sm_inv s" and hd: "head s = SENTINEL" and room: "sm_room s"
  shows "sm_inv (expand s)"
proof -
  let ?f = "flat s" and ?f' = "flat (expand s)"
  have sh: "shaped s" and sz: "sm_size s = card {i. i < length ?f \<and> \<not> is_link (?f ! i)}"
    using inv by (auto simp: sm_inv_def)
  have f': "?f' = ?f @ create_slab SENTINEL (length ?f)"
    using sh hd by (simp add: flat_expand)
  have lenf: "length ?f = SLABSIZE * length (slabs s)" using sh by (rule length_flat)
  obtain fl where fl: "chain ?f (head s) fl" "set fl = {i. i < length ?f \<and> is_link (?f ! i)}"
    using inv by (auto simp: sm_inv_def)
  have "fl = []" using fl(1) hd inv by (simp add: chain_empty_iff sm_inv_def)
  with fl(2) have full: "\<not> is_link (?f ! i)" if "i < length ?f" for i
    using that by auto
  have ch: "chain ?f' (length ?f) [length ?f..<length ?f + SLABSIZE]"
    using chain_slab [of 0 ?f] by (simp add: f' SLABSIZE_def)
  have links: "set [length ?f..<length ?f + SLABSIZE] = {i. i < length ?f' \<and> is_link (?f' ! i)}"
    using full by (auto simp: f' nth_append nth_create_slab is_link_iff)
  have elems: "{i. i < length ?f' \<and> \<not> is_link (?f' ! i)} = {i. i < length ?f \<and> \<not> is_link (?f ! i)}"
  proof -
    have a: "is_link (?f' ! i)" if "length ?f \<le> i" "i < length ?f'" for i
      using that by (auto simp: f' nth_append nth_create_slab less_diff_conv2)
    have "i < length ?f' \<and> \<not> is_link (?f' ! i) \<longleftrightarrow> i < length ?f \<and> \<not> is_link (?f ! i)" for i
      using a [of i] by (cases "i < length ?f") (auto simp: f' nth_append)
    then show ?thesis by (intro Collect_cong) auto
  qed
  have "length ?f' \<le> SENTINEL"
    using room hd by (simp add: sm_room_def f' lenf algebra_simps)
  moreover have "sm_size (expand s) = sm_size s" by (simp add: expand_def Let_def)
  moreover have "chain ?f' (head (expand s)) [length ?f..<length ?f + SLABSIZE]"
    using ch sh by (simp add: head_expand)
  ultimately show ?thesis
    using shaped_expand [OF sh] sz elems links unfolding sm_inv_def
    by (intro conjI exI [of _ "[length ?f..<length ?f + SLABSIZE]"]) (simp_all only: distinct_upt)
qed

text \<open>Popping the head of the free list, and pushing an index on it.\<close>

lemma sm_inv_pop:
  assumes inv: "sm_inv s" and hd: "head s \<noteq> SENTINEL"
  shows "\<exists>nxt. slot_at s (head s) = Some (Link nxt) \<and>
     sm_inv ((set_slot s (head s) (Element v))\<lparr>head := nxt, sm_size := sm_size s + 1\<rparr>)"
proof -
  let ?f = "flat s" and ?i = "head s"
  have sh: "shaped s" and len: "length ?f \<le> SENTINEL"
    and sz: "sm_size s = card {i. i < length ?f \<and> \<not> is_link (?f ! i)}"
    using inv by (auto simp: sm_inv_def)
  obtain fl where fl: "chain ?f ?i fl" "distinct fl"
      "set fl = {i. i < length ?f \<and> is_link (?f ! i)}"
    using inv by (auto simp: sm_inv_def)
  with len hd have "fl \<noteq> []" by (auto simp: chain_empty_iff)
  then obtain fs where fs: "fl = ?i # fs" using fl(1) by (cases fl) auto
  then obtain nxt where nxt: "?f ! ?i = Link nxt" "chain ?f nxt fs" and lt: "?i < length ?f"
    using fl(1) by (auto split: entry.splits)
  let ?s = "(set_slot s ?i (Element v))\<lparr>head := nxt, sm_size := sm_size s + 1\<rparr>"
  have f': "flat ?s = ?f[?i := Element v]"
    using sh lt by (simp add: flat_set_slot)
  have notin: "?i \<notin> set fs" using fl(2) fs by simp
  have "chain (flat ?s) (head ?s) fs" using nxt(2) notin unfolding f' by (simp add: chain_update)
  moreover have "j \<in> set fl \<longleftrightarrow> j < length ?f \<and> is_link (?f ! j)" for j
    by (simp add: fl(3))
  then have "j \<in> set fs \<longleftrightarrow> j < length (?f[?i := Element v]) \<and> is_link (?f[?i := Element v] ! j)" for j
    using fs notin by (cases "j = ?i") auto
  then have "set fs = {i. i < length (flat ?s) \<and> is_link (flat ?s ! i)}"
    unfolding f' by blast
  moreover have "{i. i < length (flat ?s) \<and> \<not> is_link (flat ?s ! i)}
      = insert ?i {i. i < length ?f \<and> \<not> is_link (?f ! i)}"
    using lt unfolding f' by (auto simp: nth_list_update)
  then have "sm_size ?s = card {i. i < length (flat ?s) \<and> \<not> is_link (flat ?s ! i)}"
    using sz nxt(1) by simp
  moreover have "shaped ?s" using sh by (simp add: shaped_set_slot)
  moreover have "length (flat ?s) \<le> SENTINEL" using len unfolding f' by simp
  moreover have "distinct fs" using fl(2) fs by simp
  ultimately have "sm_inv ?s" unfolding sm_inv_def by (intro conjI exI [of _ fs])
  moreover have "slot_at s ?i = Some (Link nxt)" using sh lt nxt(1) by (simp add: slot_at_flat)
  ultimately show ?thesis by blast
qed

lemma sm_inv_push:
  assumes inv: "sm_inv s" and el: "slot_at s i = Some (Element v)"
  shows "sm_inv ((set_slot s i (Link (head s)))\<lparr>head := i, sm_size := sm_size s - 1\<rparr>)"
proof -
  let ?f = "flat s"
  let ?s = "(set_slot s i (Link (head s)))\<lparr>head := i, sm_size := sm_size s - 1\<rparr>"
  have sh: "shaped s" and len: "length ?f \<le> SENTINEL"
    and sz: "sm_size s = card {i. i < length ?f \<and> \<not> is_link (?f ! i)}"
    using inv by (auto simp: sm_inv_def)
  have lt: "i < length ?f" and e: "?f ! i = Element v"
    using el sh by (auto simp: slot_at_flat split: if_splits)
  obtain fl where fl: "chain ?f (head s) fl" "distinct fl"
      "set fl = {i. i < length ?f \<and> is_link (?f ! i)}"
    using inv by (auto simp: sm_inv_def)
  have notin: "i \<notin> set fl" using fl(3) e by simp
  have f': "flat ?s = ?f[i := Link (head s)]"
    using sh lt by (simp add: flat_set_slot)
  have "chain (flat ?s) (head ?s) (i # fl)"
    using fl(1) notin lt unfolding f' by (simp add: chain_update)
  moreover have "set (i # fl) = {j. j < length (flat ?s) \<and> is_link (flat ?s ! j)}"
    using fl(3) lt unfolding f' by (auto simp: nth_list_update)
  moreover have "{j. j < length (flat ?s) \<and> \<not> is_link (flat ?s ! j)}
      = {j. j < length ?f \<and> \<not> is_link (?f ! j)} - {i}"
    using lt unfolding f' by (auto simp: nth_list_update split: if_splits)
  then have "sm_size ?s = card {j. j < length (flat ?s) \<and> \<not> is_link (flat ?s ! j)}"
    using sz lt e by simp
  moreover have "shaped ?s" using sh by (simp add: shaped_set_slot)
  moreover have "distinct (i # fl)" using fl(2) notin by simp
  moreover have "length (flat ?s) \<le> SENTINEL" using len unfolding f' by simp
  ultimately show ?thesis unfolding sm_inv_def by (intro conjI exI [of _ "i # fl"])
qed

section \<open>Functional behaviour of the operations\<close>

lemma sm_get_set_slot:
  assumes "shaped s" and "slot_at s i \<noteq> None"
  shows "sm_get (set_slot s i e) j =
     (if j = i then (case e of Element v \<Rightarrow> Some v | Link _ \<Rightarrow> None) else sm_get s j)"
  using assms
  by (auto simp: sm_get_flat shaped_set_slot flat_set_slot slot_at_flat nth_list_update
      split: if_splits)

lemma sm_get_frame [simp]:
  "sm_get (s\<lparr>head := h\<rparr>) = sm_get s"
  "sm_get (s\<lparr>sm_size := n\<rparr>) = sm_get s"
  by (auto simp: fun_eq_iff sm_get_def slot_at_def)

lemma sm_get_Some_iff: "sm_get s i = Some v \<longleftrightarrow> slot_at s i = Some (Element v)"
  by (auto simp: sm_get_def split: option.splits entry.splits)

lemma next_slot_spec:
  assumes "sm_inv s" and "sm_room s"
  obtains s1 where "next_slot s = (head s1, s1)" and "sm_inv s1" and "head s1 \<noteq> SENTINEL"
    and "sm_get s1 = sm_get s" and "sm_size s1 = sm_size s"
    and "s1 = (if head s = SENTINEL then expand s else s)"
proof (cases "head s = SENTINEL")
  case False
  with assms that [of s] show ?thesis by (simp add: next_slot_def)
next
  case True
  have sh: "shaped s" using assms(1) by (rule sm_inv_shaped)
  have "(length (slabs s) + 1) * SLABSIZE \<le> SENTINEL"
    using assms(2) True by (simp add: sm_room_def)
  then have "length (flat s) + SLABSIZE \<le> SENTINEL"
    using sh by (simp add: length_flat mult.commute)
  then have "head (expand s) \<noteq> SENTINEL"
    using sh SLABSIZE_pos unfolding head_expand [OF sh] by linarith
  moreover have "sm_get (expand s) = sm_get s"
    using sh by (simp add: fun_eq_iff sm_get_expand)
  moreover have "sm_size (expand s) = sm_size s" by (simp add: expand_def Let_def)
  ultimately show ?thesis
    using that [of "expand s"] True sm_inv_expand [OF assms(1) True assms(2)]
    by (simp add: next_slot_def Let_def)
qed

lemma sm_insert_spec:
  assumes "sm_inv s" and "sm_room s"
  shows "\<exists>i s'. sm_insert s v = Done (i, s') \<and> sm_inv s' \<and> sm_get s i = None \<and>
     sm_get s' = (sm_get s)(i \<mapsto> v) \<and> sm_size s' = sm_size s + 1"
proof -
  obtain s1 where ns: "next_slot s = (head s1, s1)" and inv1: "sm_inv s1"
    and hd: "head s1 \<noteq> SENTINEL" and g: "sm_get s1 = sm_get s" and sz: "sm_size s1 = sm_size s"
    using next_slot_spec [OF assms] .
  obtain nxt where nxt: "slot_at s1 (head s1) = Some (Link nxt)"
    and inv': "sm_inv ((set_slot s1 (head s1) (Element v))\<lparr>head := nxt, sm_size := sm_size s1 + 1\<rparr>)"
    using sm_inv_pop [OF inv1 hd] by blast
  let ?s' = "(set_slot s1 (head s1) (Element v))\<lparr>head := nxt, sm_size := sm_size s1 + 1\<rparr>"
  have "sm_insert s v = Done (head s1, ?s')" using nxt by (simp add: sm_insert_def ns)
  moreover have "sm_get s (head s1) = None"
    using nxt by (simp add: g [symmetric] sm_get_def)
  moreover have "sm_get ?s' = (sm_get s)(head s1 \<mapsto> v)"
    using sm_inv_shaped [OF inv1] nxt by (auto simp: fun_eq_iff sm_get_set_slot g)
  ultimately show ?thesis using inv' sz by auto
qed

lemma sm_remove_spec:
  assumes "sm_inv s"
  shows "fst (sm_remove s i) = sm_get s i" and "sm_inv (snd (sm_remove s i))"
    and "sm_get (snd (sm_remove s i)) = (sm_get s)(i := None)"
proof -
  have sh: "shaped s" using assms by (rule sm_inv_shaped)
  show "fst (sm_remove s i) = sm_get s i"
    by (auto simp: sm_remove_def sm_get_def split: option.splits entry.splits)
  show "sm_inv (snd (sm_remove s i))"
    using assms sm_inv_push [OF assms, of i]
    by (auto simp: sm_remove_def split: option.splits entry.splits)
  show "sm_get (snd (sm_remove s i)) = (sm_get s)(i := None)"
  proof (cases "sm_get s i")
    case None
    then have "snd (sm_remove s i) = s"
      by (auto simp: sm_remove_def sm_get_def split: option.splits entry.splits)
    with None show ?thesis by (auto simp: fun_eq_iff)
  next
    case (Some v)
    then show ?thesis using sh
      by (auto simp: fun_eq_iff sm_remove_def sm_get_Some_iff sm_get_set_slot)
  qed
qed

lemma sm_inv_set_slot_element:
  assumes inv: "sm_inv s" and el: "slot_at s i = Some (Element w)"
  shows "sm_inv (set_slot s i (Element v))"
proof -
  have sh: "shaped s" using inv by (rule sm_inv_shaped)
  have lt: "i < length (flat s)" and e: "flat s ! i = Element w"
    using el sh by (auto simp: slot_at_flat split: if_splits)
  have f': "flat (set_slot s i (Element v)) = (flat s)[i := Element v]"
    using sh lt by (simp add: flat_set_slot)
  have link: "is_link ((flat s)[i := Element v] ! j) = is_link (flat s ! j)" for j
    using e lt by (cases "j = i") auto
  obtain fl where fl: "chain (flat s) (head s) fl" "distinct fl"
      "set fl = {i. i < length (flat s) \<and> is_link (flat s ! i)}"
    using inv by (auto simp: sm_inv_def)
  have "i \<notin> set fl" using fl(3) e by simp
  then have "chain ((flat s)[i := Element v]) (head s) fl" using fl(1) by (simp add: chain_update)
  then show ?thesis using inv fl(2,3) shaped_set_slot [OF sh]
    unfolding sm_inv_def f' by (auto simp: link) (auto simp: set_slot_def)
qed

lemma sm_set_spec:
  assumes "sm_inv s"
  shows "sm_inv (sm_set s i v)"
    and "sm_get (sm_set s i v) = (if sm_get s i = None then sm_get s else (sm_get s)(i \<mapsto> v))"
proof -
  have "sm_set s i v = s" if "sm_get s i = None"
    using that by (auto simp: sm_set_def sm_get_def split: option.splits entry.splits)
  moreover have "sm_set s i v = set_slot s i (Element v) \<and> slot_at s i = Some (Element w)"
    if "sm_get s i = Some w" for w
    using that by (simp add: sm_set_def sm_get_Some_iff)
  ultimately show "sm_inv (sm_set s i v)"
    and "sm_get (sm_set s i v) = (if sm_get s i = None then sm_get s else (sm_get s)(i \<mapsto> v))"
    using assms sm_inv_shaped [OF assms]
    by (cases "sm_get s i"; force simp: fun_eq_iff sm_get_set_slot intro: sm_inv_set_slot_element)+
qed

lemma sm_size_card:
  assumes "sm_inv s"
  shows "finite (dom (sm_get s))" and "sm_size s = card (dom (sm_get s))"
proof -
  have "dom (sm_get s) = {i. i < length (flat s) \<and> \<not> is_link (flat s ! i)}"
    using sm_inv_shaped [OF assms]
    by (auto simp: dom_def sm_get_flat is_link_iff split: if_splits entry.splits)
      (metis entry.exhaust)
  then show "finite (dom (sm_get s))" and "sm_size s = card (dom (sm_get s))"
    using assms by (auto simp: sm_inv_def)
qed

section \<open>The free list is empty only when every slot is taken\<close>

lemma sm_full_size:
  assumes inv: "sm_inv s" and hd: "head s = SENTINEL"
  shows "sm_size s = SLABSIZE * length (slabs s)"
proof -
  obtain fl where fl: "chain (flat s) (head s) fl" "set fl = {i. i < length (flat s) \<and> is_link (flat s ! i)}"
    using inv by (auto simp: sm_inv_def)
  have "fl = []" using fl(1) hd inv by (simp add: chain_empty_iff sm_inv_def)
  with fl(2) have "{i. i < length (flat s) \<and> \<not> is_link (flat s ! i)} = {..<length (flat s)}"
    by auto
  with inv show ?thesis by (simp add: sm_inv_def length_flat)
qed

definition sm_cap :: nat where
  "sm_cap = SENTINEL - SLABSIZE"

lemma sm_room_size:
  assumes "sm_inv s" and "sm_size s < sm_cap"
  shows "sm_room s"
proof (cases "head s = SENTINEL")
  case True
  with assms have "SLABSIZE * length (slabs s) < SENTINEL - SLABSIZE"
    by (simp add: sm_full_size sm_cap_def)
  then have "SLABSIZE + SLABSIZE * length (slabs s) \<le> SENTINEL" by linarith
  then show ?thesis by (simp add: sm_room_def algebra_simps)
qed (simp add: sm_room_def)

text \<open>The number of slabs never exceeds what the elements ever needed at once.\<close>

lemma sm_insert_slabs:
  assumes "sm_inv s" and "sm_room s" and "sm_insert s v = Done (i, s')"
  shows "length (slabs s') =
     (if head s = SENTINEL then length (slabs s) + 1 else length (slabs s))"
    and "i < length (slabs s') * SLABSIZE"
proof -
  obtain s1 where ns: "next_slot s = (head s1, s1)" and inv1: "sm_inv s1"
    and hd: "head s1 \<noteq> SENTINEL" and s1: "s1 = (if head s = SENTINEL then expand s else s)"
    using next_slot_spec [OF assms(1,2)] .
  obtain nxt where nxt: "slot_at s1 (head s1) = Some (Link nxt)"
    using sm_inv_pop [OF inv1 hd] by blast
  have i: "i = head s1" and s': "length (slabs s') = length (slabs s1)"
    using assms(3) nxt by (auto simp: sm_insert_def ns set_slot_def)
  show "length (slabs s') = (if head s = SENTINEL then length (slabs s) + 1 else length (slabs s))"
    using s' s1 by (simp add: expand_def Let_def)
  have "head s1 < length (flat s1)"
    using nxt sm_inv_shaped [OF inv1] by (simp add: slot_at_flat split: if_splits)
  then show "i < length (slabs s') * SLABSIZE"
    using i s' sm_inv_shaped [OF inv1] by (simp add: length_flat mult.commute)
qed

section \<open>The slot map is a slot store\<close>

interpretation sm: slot_store sm_get sm_insert sm_remove sm_set sm_len sm_inv sm_cap
proof unfold_locales
  fix s :: "'a slotmap" and v :: 'a and i :: nat
  assume inv: "sm_inv s"
  show "sm_len s < sm_cap \<Longrightarrow> \<exists>i s'. sm_insert s v = Done (i, s') \<and> sm_inv s' \<and>
      sm_get s i = None \<and> sm_get s' = (sm_get s)(i \<mapsto> v)"
    using sm_insert_spec [OF inv sm_room_size [OF inv], of v] by (auto simp: sm_len_def)
  show "fst (sm_remove s i) = sm_get s i"
    and "sm_get (snd (sm_remove s i)) = (sm_get s)(i := None)"
    and "sm_inv (snd (sm_remove s i))"
    by (simp_all add: sm_remove_spec inv)
  show "sm_get (sm_set s i v) = (if sm_get s i = None then sm_get s else (sm_get s)(i \<mapsto> v))"
    and "sm_inv (sm_set s i v)"
    by (simp_all add: sm_set_spec inv)
  show "finite (dom (sm_get s))" and "sm_len s = card (dom (sm_get s))"
    by (simp_all add: sm_size_card inv sm_len_def)
qed

section \<open>Runs of operations\<close>

datatype 'a sm_op = Insert 'a | Remove nat | Assign nat 'a

fun sm_step :: "'a slotmap \<Rightarrow> 'a sm_op \<Rightarrow> 'a slotmap outcome" where
  "sm_step s (Insert v) = and_then (sm_insert s v) (\<lambda>(i, s'). Done s')"
| "sm_step s (Remove i) = Done (snd (sm_remove s i))"
| "sm_step s (Assign i v) = Done (sm_set s i v)"

fun sm_run :: "'a slotmap \<Rightarrow> 'a sm_op list \<Rightarrow> 'a slotmap outcome" where
  "sm_run s [] = Done s"
| "sm_run s (x # xs) = and_then (sm_step s x) (\<lambda>s'. sm_run s' xs)"

lemma sm_step_inv:
  assumes "sm_inv s" and "sm_len s < sm_cap"
  shows "\<exists>s'. sm_step s x = Done s' \<and> sm_inv s' \<and> sm_len s' \<le> sm_len s + 1"
proof (cases x)
  case (Insert v)
  obtain i s' where "sm_insert s v = Done (i, s')" using sm.ins_law [OF assms] by blast
  with Insert show ?thesis
    using sm.ins_result(1) [OF assms] sm.ins_count [OF assms] by fastforce
qed (use assms in \<open>auto simp: sm.del_inv sm.del_count sm.put_inv sm.put_count\<close>)

lemma sm_run_inv:
  "sm_inv s \<Longrightarrow> sm_len s + length xs \<le> sm_cap \<Longrightarrow> \<exists>s'. sm_run s xs = Done s' \<and> sm_inv s'"
proof (induction xs arbitrary: s)
  case Nil
  then show ?case by simp
next
  case (Cons x xs)
  from Cons.prems obtain s' where s': "sm_step s x = Done s'" "sm_inv s'" "sm_len s' \<le> sm_len s + 1"
    using sm_step_inv [of s x] by fastforce
  with Cons.prems have "sm_len s' + length xs \<le> sm_cap" by simp
  with Cons.IH [OF s'(2)] s'(1) show ?case by simp
qed

text \<open>Iteration visits the stored elements in index order.\<close>

lemma map_filter_upt: "List.map_filter f xs = List.map_filter (\<lambda>i. f (xs ! i)) [0..<length xs]"
proof -
  have "map (\<lambda>i. xs ! i) [0..<length xs] = xs" by (rule map_nth)
  then have "List.map_filter f xs = List.map_filter f (map (\<lambda>i. xs ! i) [0..<length xs])" by simp
  then show ?thesis by (simp add: List.map_filter_def filter_map comp_def)
qed

lemma sm_iter_get:
  assumes "shaped s"
  shows "sm_iter s = List.map_filter (sm_get s) [0..<length (flat s)]"
  unfolding sm_iter_def using assms
  by (subst map_filter_upt)
    (auto simp: flat_def [symmetric] List.map_filter_def sm_get_flat intro!: map_cong filter_cong)

section \<open>Properties\<close>

text \<open>C15: No sequence of insertions, removals and assignments starting with an empty slot map
  panics (no capacity overflow, no broken free list); the free-list invariant holds and the
  length is the number of occupied slots.\<close>

theorem slotmap_run_safe:
  assumes "length ops \<le> sm_cap"
  shows "\<exists>s. sm_run sm_new ops = Done s \<and> sm_inv s \<and> sm_len s = card (dom (sm_get s))"
proof -
  have "sm_len sm_new + length ops \<le> sm_cap" using assms by (simp add: sm_len_def sm_new_def)
  with sm_run_inv [OF sm_inv_new, of ops] sm.count_card show ?thesis by blast
qed

theorem slotmap_run_safe_witness:
  "\<exists>s. sm_run sm_new [Insert (7 :: nat), Remove 0, Insert 9, Assign 0 3] = Done s \<and> sm_inv s \<and>
    sm_len s = card (dom (sm_get s))"
  using slotmap_run_safe [of "[Insert (7 :: nat), Remove 0, Insert 9, Assign 0 3]"]
  by (simp add: sm_cap_def SENTINEL_def SLABSIZE_def USIZE_MAX_def)

text \<open>C14: An insertion returns a fresh index, changes the map at this index only, and a removal
  at this index gives the value back and restores the map, whatever slabs had to be allocated.\<close>

theorem slotmap_insert_stable:
  assumes "sm_inv s" and "sm_len s < sm_cap"
  shows "\<exists>i s'. sm_insert s v = Done (i, s') \<and> sm_inv s' \<and> sm_get s i = None \<and>
    sm_get s' = (sm_get s)(i \<mapsto> v) \<and> fst (sm_remove s' i) = Some v \<and>
    sm_get (snd (sm_remove s' i)) = sm_get s \<and> sm_inv (snd (sm_remove s' i))"
proof -
  obtain i s' where 1: "sm_insert s v = Done (i, s')" using sm.ins_law [OF assms] by blast
  from sm.ins_result [OF assms 1] sm.ins_del [OF assms 1] sm.del_inv [of s' i] 1 show ?thesis by blast
qed

theorem slotmap_insert_stable_witness:
  "\<exists>i s'. sm_insert sm_new (5 :: nat) = Done (i, s') \<and> sm_inv s' \<and> sm_get sm_new i = (None :: nat option) \<and>
    sm_get s' = (sm_get sm_new)(i \<mapsto> 5) \<and> fst (sm_remove s' i) = Some 5 \<and>
    sm_get (snd (sm_remove s' i)) = sm_get sm_new \<and> sm_inv (snd (sm_remove s' i))"
proof (rule slotmap_insert_stable [OF sm_inv_new])
  show "sm_len (sm_new :: nat slotmap) < sm_cap"
    by (simp add: sm_len_def sm_new_def sm_cap_def SENTINEL_def SLABSIZE_def USIZE_MAX_def)
qed

theorem slotmap_iter_in_order:
  assumes "sm_inv s"
  shows "sm_iter s = map (\<lambda>i. the (sm_get s i)) (filter (\<lambda>i. sm_get s i \<noteq> None) [0..<SLABSIZE * length (slabs s)]) \<and>
    length (sm_iter s) = sm_len s"
proof -
  have sh: "shaped s" by (rule sm_inv_shaped [OF assms])
  let ?is = "filter (\<lambda>i. sm_get s i \<noteq> None) [0..<SLABSIZE * length (slabs s)]"
  have it: "sm_iter s = map (\<lambda>i. the (sm_get s i)) ?is"
    using sm_iter_get [OF sh] by (simp add: List.map_filter_def comp_def length_flat [OF sh])
  have "set ?is = dom (sm_get s)"
    using sh by (auto simp: sm_get_flat length_flat split: if_splits)
  then have "length ?is = card (dom (sm_get s))"
    by (metis distinct_card distinct_filter distinct_upt)
  then show ?thesis using it sm.count_card [OF assms] by simp
qed

theorem slotmap_iter_in_order_witness:
  "sm_iter (sm_new :: nat slotmap) = [] \<and> length (sm_iter (sm_new :: nat slotmap)) = sm_len (sm_new :: nat slotmap)"
  using slotmap_iter_in_order [OF sm_inv_new, where 'a = nat] by (simp add: sm_new_def sm_len_def)

end
