(* ===== verification/Fixed_Vec.thy ===== *)
theory Fixed_Vec
  imports Prelude "HOL-Library.Multiset"
begin

text \<open>
  \<open>hamerkop/src/fixedvec.rs\<close>: a vector of fixed capacity over a boxed slice of
  \<open>MaybeUninit\<close> cells.  Every raw pointer access of the source is an access of the cell block
  that yields \<open>Undef\<close> outside the block or on a cell that was never initialised.  An operation
  that drops values returns them; \<open>nd\<close> is \<open>needs_drop::<T>()\<close>.
\<close>

section \<open>State and basic operations\<close>

record 'a fixedvec =
  fdata :: "'a cells"
  fsize :: nat

definition make_boxed_slice :: "nat \<Rightarrow> 'a cells" where
  "make_boxed_slice capacity = replicate capacity None"

definition fv_with_capacity :: "nat \<Rightarrow> 'a fixedvec" where
  "fv_with_capacity capacity = \<lparr>fdata = make_boxed_slice capacity, fsize = 0\<rparr>"

definition fv_len :: "'a fixedvec \<Rightarrow> nat" where
  "fv_len v = fsize v"

definition fv_capacity :: "'a fixedvec \<Rightarrow> nat" where
  "fv_capacity v = length (fdata v)"

definition fv_available :: "'a fixedvec \<Rightarrow> nat" where
  "fv_available v = fv_capacity v - fv_len v"

definition fv_set_len :: "'a fixedvec \<Rightarrow> nat \<Rightarrow> 'a fixedvec" where
  "fv_set_len v n = v\<lparr>fsize := n\<rparr>"

text \<open>\<open>as_slice\<close>, \<open>as_mut_slice\<close>, \<open>deref\<close>, \<open>as_ref\<close>, \<open>borrow\<close>: the slice
  of the first \<open>size\<close> cells.\<close>

definition fv_as_slice :: "'a fixedvec \<Rightarrow> 'a list outcome" where
  "fv_as_slice v = read_cells (fdata v) [0..<fsize v]"

definition fv_truncate :: "bool \<Rightarrow> 'a fixedvec \<Rightarrow> nat \<Rightarrow> ('a list \<times> 'a fixedvec) outcome" where
  "fv_truncate nd v len =
     (if len \<ge> fv_len v then Done ([], v)
      else (let oldlen = fv_len v; v' = fv_set_len v len
            in if nd then and_then (read_cells (fdata v') [len..<oldlen]) (\<lambda>ds. Done (ds, v'))
               else Done ([], v')))"

definition fv_clear :: "bool \<Rightarrow> 'a fixedvec \<Rightarrow> ('a list \<times> 'a fixedvec) outcome" where
  "fv_clear nd v =
     (let len = fv_len v; v' = fv_set_len v 0
      in if nd then and_then (read_cells (fdata v') [0..<len]) (\<lambda>ds. Done (ds, v'))
         else Done ([], v'))"

text \<open>\<open>Drop for FixedVec\<close>: the values dropped with the vector.\<close>

definition fv_drop :: "bool \<Rightarrow> 'a fixedvec \<Rightarrow> 'a list outcome" where
  "fv_drop nd v = and_then (fv_clear nd v) (\<lambda>(ds, _). Done ds)"

definition fv_push :: "'a fixedvec \<Rightarrow> 'a \<Rightarrow> (('a + unit) \<times> 'a fixedvec) outcome" where
  "fv_push v x =
     (if fv_available v = 0 then Done (Inl x, v)
      else and_then (ptr_write (fdata v) (fv_len v) x)
             (\<lambda>m. Done (Inr (), v\<lparr>fdata := m, fsize := fsize v + 1\<rparr>)))"

definition fv_pop :: "'a fixedvec \<Rightarrow> ('a option \<times> 'a fixedvec) outcome" where
  "fv_pop v =
     (if fv_len v = 0 then Done (None, v)
      else (let v' = v\<lparr>fsize := fsize v - 1\<rparr>
            in and_then (ptr_read (fdata v') (fv_len v')) (\<lambda>x. Done (Some x, v'))))"

text \<open>The swap goes through the mutable slice, so it reads every element of the vector.\<close>

definition fv_swap_remove :: "'a fixedvec \<Rightarrow> nat \<Rightarrow> ('a \<times> 'a fixedvec) outcome" where
  "fv_swap_remove v index =
     assert_then (index < fv_len v)
       (and_then
          (if index + 1 < fv_len v
           then and_then (fv_as_slice v) (\<lambda>_.
                and_then (ptr_swap (fdata v) (fv_len v - 1) index) (\<lambda>m. Done (v\<lparr>fdata := m\<rparr>)))
           else Done v)
          (\<lambda>v'. and_then (fv_pop v') (\<lambda>(r, v''). case r of Some x \<Rightarrow> Done (x, v'') | None \<Rightarrow> Panic)))"

definition fv_insert :: "'a fixedvec \<Rightarrow> nat \<Rightarrow> 'a \<Rightarrow> 'a fixedvec outcome" where
  "fv_insert v index element =
     assert_then (index \<le> fv_len v) (assert_then (fv_available v > 0)
       (let cnt = fv_len v - index
        in and_then (ptr_copy (fdata v) index (index + 1) cnt) (\<lambda>m.
           and_then (ptr_write m index element) (\<lambda>m'.
             Done (fv_set_len (v\<lparr>fdata := m'\<rparr>) (fv_len v + 1))))))"

definition fv_remove :: "'a fixedvec \<Rightarrow> nat \<Rightarrow> ('a \<times> 'a fixedvec) outcome" where
  "fv_remove v index =
     assert_then (index < fv_len v)
       (let cnt = fv_len v - index - 1
        in and_then (ptr_read (fdata v) index) (\<lambda>value.
           and_then (ptr_copy (fdata v) (index + 1) index cnt) (\<lambda>m.
             Done (value, fv_set_len (v\<lparr>fdata := m\<rparr>) (fv_len v - 1)))))"

section \<open>Loops: resize, extend, retain\<close>

text \<open>The closures are \<open>FnMut\<close>: they read and update a state of their own.\<close>

fun resize_loop :: "('s \<Rightarrow> 'a \<times> 's) \<Rightarrow> nat list \<Rightarrow> 's \<Rightarrow> 'a fixedvec \<Rightarrow> ('s \<times> 'a fixedvec) outcome" where
  "resize_loop f [] s v = Done (s, v)"
| "resize_loop f (i # is) s v =
     (case f s of (x, s') \<Rightarrow>
        and_then (ptr_write (fdata v) i x)
          (\<lambda>m. resize_loop f is s' (v\<lparr>fdata := m, fsize := fsize v + 1\<rparr>)))"

definition fv_resize_with ::
    "bool \<Rightarrow> 'a fixedvec \<Rightarrow> nat \<Rightarrow> ('s \<Rightarrow> 'a \<times> 's) \<Rightarrow> 's \<Rightarrow> ('a list \<times> 's \<times> 'a fixedvec) outcome" where
  "fv_resize_with nd v new_len f s =
     (if new_len \<le> fv_len v
      then and_then (fv_truncate nd v new_len) (\<lambda>(ds, v'). Done (ds, s, v'))
      else assert_then (new_len \<le> fv_capacity v)
             (and_then (resize_loop f [fv_len v..<new_len] s v) (\<lambda>(s', v'). Done ([], s', v'))))"

text \<open>\<open>resize\<close> clones the value for every new slot.\<close>

definition fv_resize :: "bool \<Rightarrow> ('a \<Rightarrow> 'a) \<Rightarrow> 'a fixedvec \<Rightarrow> nat \<Rightarrow> 'a \<Rightarrow> ('a list \<times> 'a fixedvec) outcome" where
  "fv_resize nd cl v new_len value =
     and_then (fv_resize_with nd v new_len (\<lambda>u. (cl value, u)) ()) (\<lambda>(ds, _, v'). Done (ds, v'))"

fun clone_loop :: "('a \<Rightarrow> 'a) \<Rightarrow> 'a list \<Rightarrow> 'a fixedvec \<Rightarrow> 'a fixedvec outcome" where
  "clone_loop cl [] v = Done v"
| "clone_loop cl (x # xs) v =
     and_then (ptr_write (fdata v) (fv_len v) (cl x))
       (\<lambda>m. clone_loop cl xs (v\<lparr>fdata := m, fsize := fsize v + 1\<rparr>))"

text \<open>\<open>extend_from_slice\<close>: \<open>None\<close> is an element type that is \<open>Copy\<close> (\<open>is_copy::<T>()\<close>),
  whose elements are copied as memory; \<open>Some cl\<close> one with the clone function \<open>cl\<close>.\<close>

definition fv_extend_from_slice ::
    "('a \<Rightarrow> 'a) option \<Rightarrow> 'a fixedvec \<Rightarrow> 'a list \<Rightarrow> (nat \<times> 'a fixedvec) outcome" where
  "fv_extend_from_slice cl v other =
     (let other' = take (min (fv_available v) (length other)) other
      in and_then
           (case cl of
              None \<Rightarrow> and_then (ptr_copy_from (map Some other') 0 (fdata v) (fv_len v) (length other'))
                        (\<lambda>m. Done (fv_set_len (v\<lparr>fdata := m\<rparr>) (fv_len v + length other')))
            | Some c \<Rightarrow> clone_loop c other' v)
           (\<lambda>v'. Done (length other', v')))"

definition fv_clone :: "('a \<Rightarrow> 'a) option \<Rightarrow> 'a fixedvec \<Rightarrow> 'a fixedvec outcome" where
  "fv_clone cl v =
     and_then (fv_as_slice v) (\<lambda>xs.
     and_then (fv_extend_from_slice cl (fv_with_capacity (fv_capacity v)) xs) (\<lambda>(_, v'). Done v'))"

text \<open>\<open>clone_from\<close>: reuses the block when the capacities agree; otherwise the old vector is
  dropped.\<close>

definition fv_clone_from ::
    "bool \<Rightarrow> ('a \<Rightarrow> 'a) option \<Rightarrow> 'a fixedvec \<Rightarrow> 'a fixedvec \<Rightarrow> ('a list \<times> 'a fixedvec) outcome" where
  "fv_clone_from nd cl v src =
     (if fv_capacity v = fv_capacity src
      then and_then (fv_clear nd v) (\<lambda>(ds, v1).
           and_then (fv_as_slice src) (\<lambda>xs.
           and_then (fv_extend_from_slice cl v1 xs) (\<lambda>(_, v2). Done (ds, v2))))
      else and_then (fv_clone cl src) (\<lambda>v2. and_then (fv_drop nd v) (\<lambda>ds. Done (ds, v2))))"

text \<open>\<open>Extend\<close>: takes items from the iterator while there is room; returns the items that
  were not extracted.  \<open>f\<close> is what produces an item when the iterator is asked for it.\<close>

fun fv_extend :: "('b \<Rightarrow> 'a) \<Rightarrow> 'a fixedvec \<Rightarrow> 'b list \<Rightarrow> ('b list \<times> 'a fixedvec) outcome" where
  "fv_extend f v [] = Done ([], v)"
| "fv_extend f v (x # xs) =
     (if fv_available v > 0
      then and_then (fv_push v (f x)) (\<lambda>(r, v'). case r of Inr _ \<Rightarrow> fv_extend f v' xs | Inl _ \<Rightarrow> Panic)
      else Done (x # xs, v))"

fun retain_loop ::
    "('s \<Rightarrow> 'a \<Rightarrow> bool \<times> 's) \<Rightarrow> nat list \<Rightarrow> 's \<Rightarrow> nat \<Rightarrow> 'a cells \<Rightarrow> ('s \<times> nat \<times> 'a cells) outcome" where
  "retain_loop f [] s j m = Done (s, j, m)"
| "retain_loop f (i # is) s j m =
     and_then (ptr_read m i) (\<lambda>x.
       case f s x of (b, s') \<Rightarrow>
         if b then and_then (ptr_swap m i j) (\<lambda>m'. retain_loop f is s' (j + 1) m')
         else retain_loop f is s' j m)"

definition fv_retain ::
    "bool \<Rightarrow> 'a fixedvec \<Rightarrow> ('s \<Rightarrow> 'a \<Rightarrow> bool \<times> 's) \<Rightarrow> 's \<Rightarrow> ('a list \<times> 's \<times> 'a fixedvec) outcome" where
  "fv_retain nd v f s =
     and_then (retain_loop f [0..<fv_len v] s 0 (fdata v)) (\<lambda>(s', j, m).
     and_then (fv_truncate nd (v\<lparr>fdata := m\<rparr>) j) (\<lambda>(ds, v'). Done (ds, s', v')))"

section \<open>Draining and appending\<close>

datatype bound = Included nat | Excluded nat | Unbounded

record 'a drain =
  dr_vec :: "'a fixedvec"
  dr_start :: nat
  dr_end :: nat
  dr_current :: nat
  dr_len :: nat

definition fv_drain :: "'a fixedvec \<Rightarrow> bound \<Rightarrow> bound \<Rightarrow> 'a drain outcome" where
  "fv_drain v lo hi =
     (let start = (case lo of Excluded x \<Rightarrow> usize_add x 1 | Included x \<Rightarrow> x | Unbounded \<Rightarrow> 0);
          end' = (case hi of Excluded x \<Rightarrow> x | Included x \<Rightarrow> usize_add x 1 | Unbounded \<Rightarrow> fv_len v)
      in assert_then (start \<le> end' \<and> end' \<le> fv_len v)
           (Done \<lparr>dr_vec = fv_set_len v start, dr_start = start, dr_end = end', dr_current = start,
                  dr_len = fv_len v\<rparr>))"

definition drain_next :: "'a drain \<Rightarrow> ('a option \<times> 'a drain) outcome" where
  "drain_next d =
     (if dr_current d = dr_end d then Done (None, d)
      else and_then (ptr_read (fdata (dr_vec d)) (dr_current d))
             (\<lambda>x. Done (Some x, d\<lparr>dr_current := dr_current d + 1\<rparr>)))"

text \<open>\<open>Drop for Drain\<close>: \<open>drop_in_place\<close> does nothing for a type without drop glue.\<close>

definition drain_drop :: "bool \<Rightarrow> 'a drain \<Rightarrow> ('a list \<times> 'a fixedvec) outcome" where
  "drain_drop nd d =
     and_then (if nd then read_cells (fdata (dr_vec d)) [dr_start d..<dr_end d] else Done []) (\<lambda>ds.
     and_then (ptr_copy (fdata (dr_vec d)) (dr_end d) (dr_start d) (dr_len d - dr_end d)) (\<lambda>m.
       Done (ds, fv_set_len ((dr_vec d)\<lparr>fdata := m\<rparr>) (dr_len d - (dr_end d - dr_start d)))))"

definition excise_front :: "'a fixedvec \<Rightarrow> nat \<Rightarrow> 'a fixedvec outcome" where
  "excise_front v cnt =
     and_then (ptr_copy (fdata v) cnt 0 cnt)
       (\<lambda>m. Done (fv_set_len (v\<lparr>fdata := m\<rparr>) (fv_len v - cnt)))"

definition fv_append :: "'a fixedvec \<Rightarrow> 'a fixedvec \<Rightarrow> ('a fixedvec \<times> 'a fixedvec) outcome" where
  "fv_append v other =
     (let amount = min (fv_available v) (fv_len other)
      in and_then (ptr_copy_from (fdata other) 0 (fdata v) (fv_len v) amount) (\<lambda>m.
         and_then (excise_front other amount) (\<lambda>other'.
           Done (fv_set_len (v\<lparr>fdata := m\<rparr>) (fv_len v + amount), other'))))"

section \<open>Comparison and the byte writer\<close>

definition fv_eq :: "('a \<Rightarrow> 'b \<Rightarrow> bool) \<Rightarrow> 'a fixedvec \<Rightarrow> 'b fixedvec \<Rightarrow> bool outcome" where
  "fv_eq eq v w =
     and_then (fv_as_slice v) (\<lambda>xs. and_then (fv_as_slice w) (\<lambda>ys. Done (list_all2 eq xs ys)))"

definition fv_write :: "u8 fixedvec \<Rightarrow> u8 list \<Rightarrow> ((io_error + nat) \<times> u8 fixedvec) outcome" where
  "fv_write v buf =
     (let remaining = fv_capacity v - fv_len v
      in if remaining = 0 then Done (Inr 0, v)
         else (let slice = take (min (length buf) remaining) buf
               in and_then (fv_extend_from_slice None v slice) (\<lambda>(_, v'). Done (Inr (length slice), v'))))"

fun fv_write_vectored_from ::
    "nat \<Rightarrow> u8 fixedvec \<Rightarrow> u8 list list \<Rightarrow> ((io_error + nat) \<times> u8 fixedvec) outcome" where
  "fv_write_vectored_from tot v [] = Done (Inr tot, v)"
| "fv_write_vectored_from tot v (buf # bufs) =
     and_then (fv_write v buf) (\<lambda>(r, v').
       case r of Inl e \<Rightarrow> Done (Inl e, v')
       | Inr n \<Rightarrow> if n \<noteq> length buf then Done (Inr (tot + n), v')
                 else fv_write_vectored_from (tot + n) v' bufs)"

definition fv_write_vectored :: "u8 fixedvec \<Rightarrow> u8 list list \<Rightarrow> ((io_error + nat) \<times> u8 fixedvec) outcome" where
  "fv_write_vectored v bufs = fv_write_vectored_from 0 v bufs"

definition fv_write_all :: "u8 fixedvec \<Rightarrow> u8 list \<Rightarrow> ((io_error + unit) \<times> u8 fixedvec) outcome" where
  "fv_write_all v buf =
     and_then (fv_write v buf) (\<lambda>(r, v').
       case r of Inr n \<Rightarrow> if n = length buf then Done (Inr (), v')
                         else Done (Inl (Custom WriteZero ''failed to write whole buffer''), v')
       | Inl e \<Rightarrow> Done (Inl e, v'))"

definition fv_flush :: "u8 fixedvec \<Rightarrow> ((io_error + unit) \<times> u8 fixedvec) outcome" where
  "fv_flush v = Done (Inr (), v)"

section \<open>Representation\<close>

text \<open>\<open>fv_rep v c xs\<close>: the vector has capacity \<open>c\<close> and its elements, all initialised, are
  \<open>xs\<close>.\<close>

definition fv_rep :: "'a fixedvec \<Rightarrow> nat \<Rightarrow> 'a list \<Rightarrow> bool" where
  "fv_rep v c xs \<longleftrightarrow>
     length (fdata v) = c \<and> fsize v = length xs \<and> length xs \<le> c \<and> take (length xs) (fdata v) = map Some xs"

lemma fv_repE:
  assumes "fv_rep v c xs"
  obtains r where "v = \<lparr>fdata = map Some xs @ r, fsize = length xs\<rparr>" and "c = length xs + length r"
proof -
  have "fdata v = map Some xs @ drop (length xs) (fdata v)"
    using assms by (metis append_take_drop_id fv_rep_def)
  moreover have "c = length xs + length (drop (length xs) (fdata v))"
    using assms by (simp add: fv_rep_def)
  moreover have "fsize v = length xs" using assms by (simp add: fv_rep_def)
  ultimately show ?thesis
    using that [of "drop (length xs) (fdata v)"] by (cases v) auto
qed

lemma fv_repI [intro!, simp]:
  "c = length xs + length r \<Longrightarrow> n = length xs \<Longrightarrow> fv_rep \<lparr>fdata = map Some xs @ r, fsize = n\<rparr> c xs"
  by (simp add: fv_rep_def)

lemmas fv_basic = fv_len_def fv_capacity_def fv_available_def fv_set_len_def Let_def

lemma fv_rep_len: "fv_rep v c xs \<Longrightarrow> fv_len v = length xs"
  by (simp add: fv_rep_def fv_len_def)

lemma fv_rep_capacity: "fv_rep v c xs \<Longrightarrow> fv_capacity v = c"
  by (simp add: fv_rep_def fv_capacity_def)

lemma fv_rep_available: "fv_rep v c xs \<Longrightarrow> fv_available v = c - length xs"
  by (simp add: fv_available_def fv_rep_len fv_rep_capacity)

lemma fv_rep_le: "fv_rep v c xs \<Longrightarrow> length xs \<le> c"
  by (simp add: fv_rep_def)

lemma fv_rep_unique: "fv_rep v c xs \<Longrightarrow> fv_rep v c' ys \<Longrightarrow> c = c' \<and> xs = ys"
  by (auto simp: fv_rep_def dest: map_injective)

lemma fv_with_capacity_rep: "fv_rep (fv_with_capacity c) c []"
  by (simp add: fv_rep_def fv_with_capacity_def make_boxed_slice_def)

lemma read_cells_prefix [simp]: "read_cells (map Some xs @ r) [0..<length xs] = Done xs"
  by (simp add: read_cells_range)

lemma fv_as_slice_rep: "fv_rep v c xs \<Longrightarrow> fv_as_slice v = Done xs"
  by (erule fv_repE) (simp add: fv_as_slice_def)

lemma fv_set_len_rep:
  "fv_rep v c xs \<Longrightarrow> n \<le> length xs \<Longrightarrow> fv_rep (fv_set_len v n) c (take n xs)"
  by (auto simp: fv_rep_def fv_set_len_def take_map [symmetric])
    (metis min.absorb1 take_map take_take)

section \<open>Functional behaviour\<close>

lemma fv_truncate_rep:
  assumes "fv_rep v c xs"
  shows "\<exists>v'. fv_truncate nd v n = Done (if nd then drop n xs else [], v') \<and> fv_rep v' c (take n xs)"
proof (cases "n < length xs")
  case True
  obtain r where v: "v = \<lparr>fdata = map Some xs @ r, fsize = length xs\<rparr>" "c = length xs + length r"
    using assms by (rule fv_repE)
  have "read_cells (map Some xs @ r) [n..<length xs] = Done (drop n xs)"
    using True by (simp add: read_cells_range)
  moreover have "fv_rep (fv_set_len v n) c (take n xs)"
    using assms True by (simp add: fv_set_len_rep)
  ultimately show ?thesis using True by (simp add: fv_truncate_def v fv_basic)
next
  case False
  with assms show ?thesis by (simp add: fv_truncate_def fv_rep_len)
qed

lemma fv_clear_truncate: "fv_clear nd v = fv_truncate nd v 0"
  by (auto simp: fv_clear_def fv_truncate_def fv_basic)

lemma fv_clear_rep:
  "fv_rep v c xs \<Longrightarrow> \<exists>v'. fv_clear nd v = Done (if nd then xs else [], v') \<and> fv_rep v' c []"
  unfolding fv_clear_truncate using fv_truncate_rep [of v c xs nd 0] by (simp only: drop_0 take_0)

lemma fv_push_rep:
  assumes "fv_rep v c xs"
  shows "\<exists>v'. fv_push v x = Done (if length xs = c then Inl x else Inr (), v') \<and>
     fv_rep v' c (if length xs = c then xs else xs @ [x])"
proof -
  obtain r where v: "v = \<lparr>fdata = map Some xs @ r, fsize = length xs\<rparr>" "c = length xs + length r"
    using assms by (rule fv_repE)
  show ?thesis
  proof (cases r)
    case Nil
    with v assms show ?thesis by (simp add: fv_push_def fv_basic)
  next
    case (Cons y r')
    have "fv_rep \<lparr>fdata = map Some (xs @ [x]) @ r', fsize = length xs + 1\<rparr> c (xs @ [x])"
      using v Cons by (intro fv_repI) simp_all
    with v Cons show ?thesis
      by (simp add: fv_push_def fv_basic ptr_ops list_update_append)
  qed
qed

lemma fv_pop_rep:
  assumes "fv_rep v c xs"
  shows "\<exists>v'. fv_pop v = Done (if xs = [] then None else Some (last xs), v') \<and> fv_rep v' c (butlast xs)"
proof (cases xs rule: rev_cases)
  case Nil
  with assms show ?thesis by (simp add: fv_pop_def fv_rep_len)
next
  case (snoc ys y)
  obtain r where v: "v = \<lparr>fdata = map Some xs @ r, fsize = length xs\<rparr>" "c = length xs + length r"
    using assms by (rule fv_repE)
  have "fv_rep \<lparr>fdata = map Some ys @ Some y # r, fsize = length ys\<rparr> c ys"
    using v snoc by (intro fv_repI) simp_all
  with v snoc show ?thesis by (simp add: fv_pop_def fv_basic ptr_read_def nth_append)
qed

lemma fv_swap_remove_rep:
  assumes "fv_rep v c xs"
  shows "if i < length xs
    then \<exists>v'. fv_swap_remove v i = Done (xs ! i, v') \<and> fv_rep v' c (butlast (xs[i := last xs]))
    else fv_swap_remove v i = Panic"
proof (cases "i < length xs")
  case False
  with assms show ?thesis by (simp add: fv_swap_remove_def fv_rep_len)
next
  case True
  obtain r where v: "v = \<lparr>fdata = map Some xs @ r, fsize = length xs\<rparr>" "c = length xs + length r"
    using assms by (rule fv_repE)
  let ?ys = "xs[i := last xs, length xs - 1 := xs ! i]"
  let ?v = "\<lparr>fdata = map Some ?ys @ r, fsize = length xs\<rparr>"
  have "xs \<noteq> []" using True by auto
  then have ys: "last ?ys = xs ! i" "butlast ?ys = butlast (xs[i := last xs])" "?ys \<noteq> []"
    using True by (auto simp: last_list_update butlast_list_update)
  have "fv_rep ?v c ?ys" using v by (intro fv_repI) simp_all
  then obtain v' where v': "fv_pop ?v = Done (Some (xs ! i), v')" "fv_rep v' c (butlast (xs[i := last xs]))"
    using fv_pop_rep [of ?v c ?ys] ys by auto
  show ?thesis
  proof (cases "i + 1 < length xs")
    case True
    have "ptr_swap (fdata v) (length xs - 1) i = Done (map Some ?ys @ r)"
      using True by (auto simp: v ptr_swap_def nth_append list_update_append map_update last_conv_nth
          list_update_swap)
    with True \<open>i < length xs\<close> v' show ?thesis
      by (simp add: fv_swap_remove_def fv_rep_len [OF assms] fv_as_slice_rep [OF assms]) (simp add: v)
  next
    case False
    with \<open>i < length xs\<close> have "i = length xs - 1" by simp
    then have "?v = v" using True v by (simp add: last_conv_nth list_update_same_conv)
    with False \<open>i < length xs\<close> v' show ?thesis
      by (simp add: fv_swap_remove_def fv_rep_len [OF assms])
  qed
qed

lemma fv_insert_rep:
  assumes "fv_rep v c xs"
  shows "if i \<le> length xs \<and> length xs < c
    then \<exists>v'. fv_insert v i x = Done v' \<and> fv_rep v' c (take i xs @ x # drop i xs)
    else fv_insert v i x = Panic"
proof (cases "i \<le> length xs \<and> length xs < c")
  case False
  with assms show ?thesis by (auto simp: fv_insert_def fv_rep_len fv_rep_available assert_then_def)
next
  case True
  obtain r where v: "v = \<lparr>fdata = map Some xs @ r, fsize = length xs\<rparr>" "c = length xs + length r"
    using assms by (rule fv_repE)
  then obtain y r' where r: "r = y # r'" using True by (cases r) auto
  let ?m = "map Some (take i xs) @ take (Suc i - i) (drop i (map Some xs @ r)) @ map Some (drop i xs) @ r'"
  have copy: "ptr_copy (fdata v) i (i + 1) (length xs - i) = Done ?m"
    using True v r take_add [of i 1 xs]
    by (auto simp: ptr_copy_def take_map drop_map map_append [symmetric] simp del: map_append)
  have wr: "ptr_write ?m i x = Done (map Some (take i xs @ x # drop i xs) @ r')"
    using True r Cons_nth_drop_Suc [of i "map Some xs", symmetric]
    by (cases "i < length xs") (auto simp: ptr_write_def list_update_append Suc_diff_le)
  have "fv_rep \<lparr>fdata = map Some (take i xs @ x # drop i xs) @ r', fsize = length xs + 1\<rparr> c (take i xs @ x # drop i xs)"
    using True v r by (intro fv_repI) simp_all
  with True copy wr show ?thesis
    by (simp add: fv_insert_def fv_rep_len [OF assms] fv_rep_available [OF assms] Let_def fv_set_len_def)
      (simp add: v)
qed

lemma fv_remove_rep:
  assumes "fv_rep v c xs"
  shows "if i < length xs
    then \<exists>v'. fv_remove v i = Done (xs ! i, v') \<and> fv_rep v' c (take i xs @ drop (Suc i) xs)
    else fv_remove v i = Panic"
proof (cases "i < length xs")
  case False
  with assms show ?thesis by (simp add: fv_remove_def fv_rep_len)
next
  case True
  obtain r where v: "v = \<lparr>fdata = map Some xs @ r, fsize = length xs\<rparr>" "c = length xs + length r"
    using assms by (rule fv_repE)
  let ?ys = "take i xs @ drop (Suc i) xs"
  let ?r = "drop (length xs - 1) (map Some xs @ r)"
  have copy: "ptr_copy (fdata v) (i + 1) i (length xs - i - 1) = Done (map Some ?ys @ ?r)"
    using True v by (auto simp: ptr_copy_def take_map drop_map)
  have "fv_rep \<lparr>fdata = map Some ?ys @ ?r, fsize = length xs - 1\<rparr> c ?ys"
    using True v by (intro fv_repI) auto
  with True copy v show ?thesis
    by (simp add: fv_remove_def fv_basic)
qed

subsection \<open>Appending several elements\<close>

text \<open>What a loop that writes at the end of the vector and bumps \<open>size\<close> leaves.\<close>

lemma fv_rep_snoc:
  assumes "fv_rep v c xs" and "length xs < c"
  shows "\<exists>m. ptr_write (fdata v) (fv_len v) x = Done m \<and>
     fv_rep (v\<lparr>fdata := m, fsize := fsize v + 1\<rparr>) c (xs @ [x])"
proof -
  obtain v' where "fv_push v x = Done (Inr (), v')" "fv_rep v' c (xs @ [x])"
    using fv_push_rep [OF assms(1), of x] assms(2) by auto
  moreover have "fv_available v \<noteq> 0" using assms by (simp add: fv_rep_available)
  ultimately show ?thesis by (auto simp: fv_push_def and_then_Done_iff)
qed

lemma clone_loop_rep:
  "fv_rep v c xs \<Longrightarrow> length xs + length ys \<le> c \<Longrightarrow>
   \<exists>v'. clone_loop cl ys v = Done v' \<and> fv_rep v' c (xs @ map cl ys)"
proof (induction ys arbitrary: v xs)
  case Nil
  then show ?case by simp
next
  case (Cons y ys)
  obtain m where m: "ptr_write (fdata v) (fv_len v) (cl y) = Done m"
      "fv_rep (v\<lparr>fdata := m, fsize := fsize v + 1\<rparr>) c (xs @ [cl y])"
    using fv_rep_snoc [OF Cons.prems(1), of "cl y"] Cons.prems(2) by auto
  from Cons.IH [OF m(2)] m(1) Cons.prems(2) show ?case by simp
qed

text \<open>The values a stateful closure generates.\<close>

fun generate :: "('s \<Rightarrow> 'a \<times> 's) \<Rightarrow> nat \<Rightarrow> 's \<Rightarrow> 'a list \<times> 's" where
  "generate f 0 s = ([], s)"
| "generate f (Suc n) s = (case f s of (x, s') \<Rightarrow> case generate f n s' of (xs, s'') \<Rightarrow> (x # xs, s''))"

lemma resize_loop_rep:
  "fv_rep v c xs \<Longrightarrow> length xs + n \<le> c \<Longrightarrow>
   \<exists>v'. resize_loop f [length xs..<length xs + n] s v = Done (snd (generate f n s), v') \<and>
        fv_rep v' c (xs @ fst (generate f n s))"
proof (induction n arbitrary: v xs s)
  case 0
  then show ?case by simp
next
  case (Suc n)
  obtain x s' where fs: "f s = (x, s')" by (cases "f s")
  obtain m where m: "ptr_write (fdata v) (length xs) x = Done m"
      "fv_rep (v\<lparr>fdata := m, fsize := fsize v + 1\<rparr>) c (xs @ [x])"
    using fv_rep_snoc [OF Suc.prems(1), of x] Suc.prems by (auto simp: fv_rep_len)
  have "[length xs..<length xs + Suc n] = length xs # [length (xs @ [x])..<length (xs @ [x]) + n]"
    by (simp add: upt_conv_Cons)
  then show ?case
    using m(1) Suc.IH [OF m(2), of s'] Suc.prems(2) fs by (auto split: prod.splits)
qed

lemma fv_resize_with_rep:
  assumes "fv_rep v c xs"
  shows "if n \<le> length xs
    then \<exists>v'. fv_resize_with nd v n f s = Done (if nd then drop n xs else [], s, v') \<and> fv_rep v' c (take n xs)
    else if n \<le> c
    then \<exists>v'. fv_resize_with nd v n f s = Done ([], snd (generate f (n - length xs) s), v') \<and>
           fv_rep v' c (xs @ fst (generate f (n - length xs) s))
    else fv_resize_with nd v n f s = Panic"
proof -
  have "\<exists>v'. fv_truncate nd v n = Done (if nd then drop n xs else [], v') \<and> fv_rep v' c (take n xs)"
    by (rule fv_truncate_rep [OF assms])
  moreover have "\<exists>v'. resize_loop f [length xs..<n] s v = Done (snd (generate f (n - length xs) s), v') \<and>
        fv_rep v' c (xs @ fst (generate f (n - length xs) s))" if "length xs < n" "n \<le> c"
    using resize_loop_rep [OF assms, of "n - length xs" f s] that by simp
  ultimately show ?thesis
    by (auto simp: fv_resize_with_def fv_rep_len [OF assms] fv_rep_capacity [OF assms])
qed

lemma generate_const: "generate (\<lambda>u. (x, u)) n s = (replicate n x, s)"
  by (induction n) auto

lemma fv_resize_rep:
  assumes "fv_rep v c xs"
  shows "if n \<le> c
    then \<exists>v'. fv_resize nd cl v n x = Done (if nd then drop n xs else [], v') \<and>
           fv_rep v' c (take n xs @ replicate (n - length xs) (cl x))
    else fv_resize nd cl v n x = Panic"
  using fv_resize_with_rep [OF assms, of n nd "\<lambda>u. (cl x, u)" "()"] fv_rep_le [OF assms]
  by (auto simp: fv_resize_def generate_const split: if_splits)

lemma fv_extend_from_slice_rep:
  assumes "fv_rep v c xs"
  shows "\<exists>v'. fv_extend_from_slice cl v ys = Done (min (c - length xs) (length ys), v') \<and>
    fv_rep v' c (xs @ take (c - length xs) (map (case cl of None \<Rightarrow> \<lambda>x. x | Some f \<Rightarrow> f) ys))"
proof -
  let ?ys = "take (min (c - length xs) (length ys)) ys"
  have ys: "?ys = take (c - length xs) ys" by (simp add: min_def)
  have le: "length xs + length ?ys \<le> c" using fv_rep_le [OF assms] by simp
  show ?thesis
  proof (cases cl)
    case None
    obtain r where v: "v = \<lparr>fdata = map Some xs @ r, fsize = length xs\<rparr>" "c = length xs + length r"
      using assms by (rule fv_repE)
    have "ptr_copy_from (map Some ?ys) 0 (fdata v) (length xs) (length ?ys)
        = Done (map Some (xs @ ?ys) @ drop (length ?ys) r)"
      using le v by (simp add: ptr_copy_from_def)
    moreover have "fv_rep \<lparr>fdata = map Some (xs @ ?ys) @ drop (length ?ys) r, fsize = length (xs @ ?ys)\<rparr> c (xs @ ?ys)"
      using le v by (intro fv_repI) auto
    ultimately show ?thesis using None v ys
      by (simp add: fv_extend_from_slice_def fv_basic min.commute)
  next
    case (Some f)
    obtain v' where "clone_loop f ?ys v = Done v'" "fv_rep v' c (xs @ map f ?ys)"
      using clone_loop_rep [OF assms le] by blast
    then show ?thesis using Some ys
      by (simp add: fv_extend_from_slice_def fv_rep_available [OF assms] take_map)
  qed
qed

lemma fv_clone_rep:
  assumes "fv_rep v c xs"
  shows "\<exists>v'. fv_clone cl v = Done v' \<and> fv_rep v' c (map (case cl of None \<Rightarrow> \<lambda>x. x | Some f \<Rightarrow> f) xs)"
proof -
  let ?f = "case cl of None \<Rightarrow> \<lambda>x. x | Some f \<Rightarrow> f"
  obtain v' where "fv_extend_from_slice cl (fv_with_capacity c) xs = Done (min c (length xs), v')"
      "fv_rep v' c (take c (map ?f xs))"
    using fv_extend_from_slice_rep [OF fv_with_capacity_rep, where c = c and cl = cl and ys = xs] by auto
  moreover have "take c (map ?f xs) = map ?f xs" using fv_rep_le [OF assms] by simp
  ultimately show ?thesis
    by (simp add: fv_clone_def fv_as_slice_rep [OF assms] fv_rep_capacity [OF assms])
qed

lemma fv_extend_rep:
  "fv_rep v c xs \<Longrightarrow>
   \<exists>v'. fv_extend f v ys = Done (drop (c - length xs) ys, v') \<and>
        fv_rep v' c (xs @ take (c - length xs) (map f ys))"
proof (induction ys arbitrary: v xs)
  case Nil
  then show ?case by simp
next
  case (Cons y ys)
  show ?case
  proof (cases "length xs = c")
    case True
    with Cons.prems show ?thesis by (simp add: fv_rep_available)
  next
    case False
    with Cons.prems have lt: "length xs < c" by (simp add: fv_rep_def)
    then obtain v' where v': "fv_push v (f y) = Done (Inr (), v')" "fv_rep v' c (xs @ [f y])"
      using fv_push_rep [OF Cons.prems, of "f y"] by auto
    from lt have "c - length xs = Suc (c - length (xs @ [f y]))" by simp
    with Cons.IH [OF v'(2)] v'(1) lt Cons.prems show ?thesis
      by (auto simp: fv_rep_available)
  qed
qed

subsection \<open>Retaining\<close>

text \<open>What a stateful predicate, asked once per element in order, selects and rejects.\<close>

fun select :: "('s \<Rightarrow> 'a \<Rightarrow> bool \<times> 's) \<Rightarrow> 's \<Rightarrow> 'a list \<Rightarrow> 'a list \<times> 'a list \<times> 's" where
  "select f s [] = ([], [], s)"
| "select f s (x # xs) =
     (case f s x of (b, s') \<Rightarrow> case select f s' xs of (ks, rs, s'') \<Rightarrow>
        if b then (x # ks, rs, s'') else (ks, x # rs, s''))"

lemma select_pure: "select (\<lambda>u x. (P x, u)) s xs = (filter P xs, filter (\<lambda>x. \<not> P x) xs, s)"
  by (induction xs) auto

lemma retain_swap:
  "ptr_swap (map Some (ks @ zs @ y # ys) @ r) (length ks + length zs) (length ks) =
   Done (map Some (ks @ y # (case zs of [] \<Rightarrow> [] | z # zs' \<Rightarrow> zs' @ [z]) @ ys) @ r)"
  by (cases zs) (auto simp: ptr_swap_def nth_append list_update_append)

lemma retain_loop_rep:
  assumes "select f s ys = (sel, rej, s')"
  shows "\<exists>zs'. retain_loop f [length ks + length zs..<length ks + length zs + length ys] s (length ks)
      (map Some (ks @ zs @ ys) @ r)
    = Done (s', length (ks @ sel), map Some (ks @ sel @ zs') @ r) \<and> mset zs' = mset (zs @ rej)"
  using assms
proof (induction ys arbitrary: s ks zs sel rej)
  case Nil
  then show ?case by simp
next
  case (Cons y ys)
  obtain b t where ft: "f s y = (b, t)" by (cases "f s y")
  obtain sel' rej' where sel': "select f t ys = (sel', rej', s')"
      and eq: "sel = (if b then y # sel' else sel')" "rej = (if b then rej' else y # rej')"
    using Cons.prems ft by (auto split: prod.splits if_splits)
  have upt: "[length ks + length zs..<length ks + length zs + length (y # ys)]
      = (length ks + length zs) # [Suc (length ks + length zs)..<Suc (length ks + length zs) + length ys]"
    by (subst upt_conv_Cons) simp_all
  have rd: "ptr_read (map Some (ks @ zs @ y # ys) @ r) (length ks + length zs) = Done y"
    by (simp add: ptr_read_def nth_append)
  show ?case
  proof (cases b)
    case True
    let ?zs = "case zs of [] \<Rightarrow> [] | z # zs' \<Rightarrow> zs' @ [z]"
    have zs: "length ?zs = length zs" "mset ?zs = mset zs" by (cases zs; simp)+
    obtain zs' where "retain_loop f [length (ks @ [y]) + length ?zs..<length (ks @ [y]) + length ?zs + length ys]
          t (length (ks @ [y])) (map Some ((ks @ [y]) @ ?zs @ ys) @ r)
        = Done (s', length ((ks @ [y]) @ sel'), map Some ((ks @ [y]) @ sel' @ zs') @ r)"
      and "mset zs' = mset (?zs @ rej')"
      using Cons.IH [OF sel', of "ks @ [y]" ?zs] by blast
    then show ?thesis unfolding upt
      using True zs eq rd ft retain_swap [of ks zs y ys r] by auto
  next
    case False
    obtain zs' where "retain_loop f [length ks + length (zs @ [y])..<length ks + length (zs @ [y]) + length ys]
          t (length ks) (map Some (ks @ (zs @ [y]) @ ys) @ r)
        = Done (s', length (ks @ sel'), map Some (ks @ sel' @ zs') @ r)"
      and "mset zs' = mset ((zs @ [y]) @ rej')"
      using Cons.IH [OF sel', of ks "zs @ [y]"] by blast
    then show ?thesis unfolding upt
      using False eq rd ft by auto
  qed
qed

lemma fv_retain_rep:
  assumes rep: "fv_rep v c xs" and sel: "select f s xs = (ks, rs, s')"
  shows "\<exists>ds v'. fv_retain nd v f s = Done (ds, s', v') \<and> fv_rep v' c ks \<and>
     mset ds = (if nd then mset rs else {#})"
proof -
  obtain r where v: "v = \<lparr>fdata = map Some xs @ r, fsize = length xs\<rparr>" "c = length xs + length r"
    using rep by (rule fv_repE)
  obtain zs where lp: "retain_loop f [0..<length xs] s 0 (map Some xs @ r)
      = Done (s', length ks, map Some (ks @ zs) @ r)" and zs: "mset zs = mset rs"
    using retain_loop_rep [OF sel, of "[]" "[]" r] by auto
  have "length ks + length rs = length xs"
    using sel by (induction xs arbitrary: s ks rs) (auto split: prod.splits if_splits)
  moreover have "length zs = length rs" using zs by (metis size_mset)
  ultimately have len: "length (ks @ zs) = length xs" by simp
  then have "fv_rep \<lparr>fdata = map Some (ks @ zs) @ r, fsize = length xs\<rparr> c (ks @ zs)"
    using v by (intro fv_repI) simp_all
  then obtain v' where "fv_truncate nd \<lparr>fdata = map Some (ks @ zs) @ r, fsize = length xs\<rparr> (length ks)
      = Done (if nd then zs else [], v')" "fv_rep v' c ks"
    using fv_truncate_rep [of _ c "ks @ zs" nd "length ks"] by fastforce
  then show ?thesis using lp zs by (simp add: fv_retain_def fv_len_def v)
qed

subsection \<open>Draining\<close>

definition lower_of :: "bound \<Rightarrow> nat" where
  "lower_of lo = (case lo of Excluded x \<Rightarrow> usize_add x 1 | Included x \<Rightarrow> x | Unbounded \<Rightarrow> 0)"

definition upper_of :: "nat \<Rightarrow> bound \<Rightarrow> nat" where
  "upper_of len hi = (case hi of Excluded x \<Rightarrow> x | Included x \<Rightarrow> usize_add x 1 | Unbounded \<Rightarrow> len)"

lemma fv_drain_eq:
  "fv_drain v lo hi =
     assert_then (lower_of lo \<le> upper_of (fv_len v) hi \<and> upper_of (fv_len v) hi \<le> fv_len v)
       (Done \<lparr>dr_vec = fv_set_len v (lower_of lo), dr_start = lower_of lo,
              dr_end = upper_of (fv_len v) hi, dr_current = lower_of lo, dr_len = fv_len v\<rparr>)"
  by (simp add: fv_drain_def lower_of_def upper_of_def Let_def)

text \<open>Asking the iterator \<open>n\<close> times, then dropping it.\<close>

fun drain_take :: "nat \<Rightarrow> 'a drain \<Rightarrow> ('a list \<times> 'a drain) outcome" where
  "drain_take 0 d = Done ([], d)"
| "drain_take (Suc n) d =
     and_then (drain_next d) (\<lambda>(r, d'). case r of None \<Rightarrow> Done ([], d')
       | Some x \<Rightarrow> and_then (drain_take n d') (\<lambda>(xs, d''). Done (x # xs, d'')))"

definition drain_run :: "bool \<Rightarrow> nat \<Rightarrow> 'a fixedvec \<Rightarrow> bound \<Rightarrow> bound \<Rightarrow>
    ('a list \<times> 'a list \<times> 'a fixedvec) outcome" where
  "drain_run nd n v lo hi =
     and_then (fv_drain v lo hi) (\<lambda>d.
     and_then (drain_take n d) (\<lambda>(ys, d').
     and_then (drain_drop nd d') (\<lambda>(ds, v'). Done (ys, ds, v'))))"

lemma drain_take_cells:
  assumes "fdata (dr_vec d) = map Some xs @ r" and "dr_current d \<le> dr_end d" and "dr_end d \<le> length xs"
  shows "\<exists>c. drain_take n d = Done (take n (take (dr_end d - dr_current d) (drop (dr_current d) xs)),
     d\<lparr>dr_current := c\<rparr>)"
  using assms
proof (induction n arbitrary: d)
  case 0
  have "d\<lparr>dr_current := dr_current d\<rparr> = d" by simp
  then show ?case by (metis drain_take.simps(1) take0)
next
  case (Suc n)
  show ?case
  proof (cases "dr_current d = dr_end d")
    case True
    have "d\<lparr>dr_current := dr_current d\<rparr> = d" by simp
    with True show ?thesis by (auto simp: drain_next_def intro!: exI [of _ "dr_current d"])
  next
    case False
    let ?d = "d\<lparr>dr_current := dr_current d + 1\<rparr>"
    from False Suc.prems have lt: "dr_current d < length xs" "dr_current d < dr_end d" by auto
    have rd: "drain_next d = Done (Some (xs ! dr_current d), ?d)"
      using False lt Suc.prems(1) by (simp add: drain_next_def)
    obtain c where "drain_take n ?d = Done (take n (take (dr_end d - Suc (dr_current d))
          (drop (Suc (dr_current d)) xs)), d\<lparr>dr_current := c\<rparr>)"
      using Suc.IH [of ?d] Suc.prems lt by auto
    moreover have "take (dr_end d - dr_current d) (drop (dr_current d) xs)
        = xs ! dr_current d # take (dr_end d - Suc (dr_current d)) (drop (Suc (dr_current d)) xs)"
      using lt by (metis Cons_nth_drop_Suc Suc_diff_Suc take_Suc_Cons)
    ultimately show ?thesis using rd by auto
  qed
qed

lemma drain_drop_rep:
  assumes cells: "fdata (dr_vec d) = map Some xs @ r" and c: "c = length xs + length r"
    and b: "dr_start d \<le> dr_end d" "dr_end d \<le> length xs" and len: "dr_len d = length xs"
  shows "\<exists>v'. drain_drop nd d = Done (if nd then take (dr_end d - dr_start d) (drop (dr_start d) xs) else [], v') \<and>
     fv_rep v' c (take (dr_start d) xs @ drop (dr_end d) xs)"
proof -
  let ?s = "dr_start d" and ?e = "dr_end d"
  let ?ys = "take ?s xs @ drop ?e xs"
  let ?r = "drop (?s + (length xs - ?e)) (map Some xs @ r)"
  have "ptr_copy (fdata (dr_vec d)) ?e ?s (length xs - ?e) = Done (map Some ?ys @ ?r)"
    using b by (auto simp: cells ptr_copy_def take_map drop_map)
  moreover have "read_cells (fdata (dr_vec d)) [?s..<?e] = Done (take (?e - ?s) (drop ?s xs))"
    using b by (simp add: cells read_cells_range)
  moreover have "fv_rep \<lparr>fdata = map Some ?ys @ ?r, fsize = length xs - (?e - ?s)\<rparr> c ?ys"
    using b c by (intro fv_repI) auto
  then have "fv_rep (fv_set_len ((dr_vec d)\<lparr>fdata := map Some ?ys @ ?r\<rparr>) (length xs - (?e - ?s))) c ?ys"
    by (simp add: fv_rep_def fv_set_len_def)
  ultimately show ?thesis using len by (simp add: drain_drop_def)
qed

lemma drain_run_rep:
  fixes lo hi :: bound
  assumes rep: "fv_rep v c xs"
  defines "a \<equiv> lower_of lo" and "b \<equiv> upper_of (length xs) hi"
  shows "if a \<le> b \<and> b \<le> length xs
    then \<exists>v'. drain_run nd n v lo hi =
          Done (take n (take (b - a) (drop a xs)), if nd then take (b - a) (drop a xs) else [], v') \<and>
        fv_rep v' c (take a xs @ drop b xs)
    else drain_run nd n v lo hi = Panic"
proof (cases "a \<le> b \<and> b \<le> length xs")
  case False
  then show ?thesis
    by (auto simp: drain_run_def fv_drain_eq fv_rep_len [OF rep] a_def b_def assert_then_def)
next
  case True
  obtain r where v: "v = \<lparr>fdata = map Some xs @ r, fsize = length xs\<rparr>" "c = length xs + length r"
    using rep by (rule fv_repE)
  let ?d = "\<lparr>dr_vec = fv_set_len v a, dr_start = a, dr_end = b, dr_current = a, dr_len = length xs\<rparr>"
  have d: "fv_drain v lo hi = Done ?d"
    using True by (simp add: fv_drain_eq fv_rep_len [OF rep] a_def b_def)
  have cells: "fdata (dr_vec ?d) = map Some xs @ r" by (simp add: v fv_set_len_def)
  obtain k where k: "drain_take n ?d = Done (take n (take (b - a) (drop a xs)), ?d\<lparr>dr_current := k\<rparr>)"
    using drain_take_cells [OF cells, of n] True by auto
  obtain v' where "drain_drop nd (?d\<lparr>dr_current := k\<rparr>) = Done (if nd then take (b - a) (drop a xs) else [], v')"
      "fv_rep v' c (take a xs @ drop b xs)"
    using drain_drop_rep [of "?d\<lparr>dr_current := k\<rparr>" xs r c nd] cells True v(2) by auto
  with True d k show ?thesis by (simp add: drain_run_def)
qed

subsection \<open>Appending another vector\<close>

lemma take_over: "take (length ds) (take n (ds @ r) @ ds @ r) = take (length ds) (take n ds @ ds)"
  by (cases "length ds \<le> n") auto

lemma excise_front_rep:
  assumes rep: "fv_rep v c xs" and n: "n \<le> length xs"
  shows "if 2 * n \<le> c
    then \<exists>v'. excise_front v n = Done v' \<and> fv_rep v' c (take (length xs - n) (take n (drop n xs) @ drop n xs))
    else excise_front v n = Undef"
proof (cases "2 * n \<le> c")
  case False
  with rep show ?thesis by (simp add: excise_front_def ptr_copy_def fv_rep_def)
next
  case True
  obtain r where v: "v = \<lparr>fdata = map Some xs @ r, fsize = length xs\<rparr>" "c = length xs + length r"
    using rep by (rule fv_repE)
  let ?m = "take n (drop n (map Some xs @ r)) @ drop n (map Some xs @ r)"
  let ?ys = "take (length xs - n) (take n (drop n xs) @ drop n xs)"
  have "ptr_copy (fdata v) n 0 n = Done ?m" using True v by (simp add: ptr_copy_def)
  moreover have tk: "take (length xs - n) ?m = map Some ?ys"
  proof -
    have "drop n (map Some xs @ r) = map Some (drop n xs) @ r" using n by (simp add: drop_map)
    then have "take (length xs - n) ?m
        = take (length (map Some (drop n xs))) (take n (map Some (drop n xs)) @ map Some (drop n xs))"
      using take_over [of "map Some (drop n xs)" n r] by simp
    also have "\<dots> = map Some ?ys" by (simp only: take_map map_append [symmetric] length_map length_drop)
    finally show ?thesis .
  qed
  have lys: "length ?ys = length xs - n" using n by (simp add: min_def) arith
  have "length (drop n (map Some xs @ r)) = c - n" using v(2) n by simp
  then have "length ?m = min n (c - n) + (c - n)" by (simp only: length_append length_take min.commute)
  with True have lm: "length ?m = c" by linarith
  have "fv_rep (fv_set_len (v\<lparr>fdata := ?m\<rparr>) (length xs - n)) c ?ys"
    unfolding fv_rep_def lys using tk lm v(2) by (simp add: fv_set_len_def del: take_append append_take_drop_id)
  ultimately show ?thesis using True by (simp add: excise_front_def fv_rep_len [OF rep])
qed

lemma fv_append_rep:
  fixes xs ys :: "'a list" and c d :: nat
  assumes v: "fv_rep v c xs" and w: "fv_rep w d ys"
  defines "n \<equiv> min (c - length xs) (length ys)"
  shows "if 2 * n \<le> d
    then \<exists>v' w'. fv_append v w = Done (v', w') \<and> fv_rep v' c (xs @ take n ys) \<and>
           fv_rep w' d (take (length ys - n) (take n (drop n ys) @ drop n ys))
    else fv_append v w = Undef"
proof -
  obtain r where r: "v = \<lparr>fdata = map Some xs @ r, fsize = length xs\<rparr>" "c = length xs + length r"
    using v by (rule fv_repE)
  obtain q where q: "w = \<lparr>fdata = map Some ys @ q, fsize = length ys\<rparr>" "d = length ys + length q"
    using w by (rule fv_repE)
  have n: "n \<le> length ys" "length xs + n \<le> c" using r(2) by (auto simp: n_def)
  have copy: "ptr_copy_from (fdata w) 0 (fdata v) (length xs) n = Done (map Some (xs @ take n ys) @ drop n r)"
    using n r q by (auto simp: ptr_copy_from_def take_map)
  have "fv_rep (fv_set_len (v\<lparr>fdata := map Some (xs @ take n ys) @ drop n r\<rparr>) (length xs + n)) c (xs @ take n ys)"
    using n r by (auto simp: fv_rep_def fv_set_len_def min_def)
  then show ?thesis
    using copy excise_front_rep [OF w n(1)]
    by (auto simp: fv_append_def fv_rep_len [OF v] fv_rep_len [OF w] fv_rep_available [OF v]
        n_def [symmetric] Let_def)
qed

subsection \<open>Writing bytes\<close>

lemma fv_write_rep:
  assumes "fv_rep v c xs"
  shows "\<exists>v'. fv_write v bs = Done (Inr (min (length bs) (c - length xs)), v') \<and>
     fv_rep v' c (xs @ take (c - length xs) bs)"
proof (cases "c - length xs = 0")
  case True
  with assms show ?thesis by (simp add: fv_write_def fv_rep_len fv_rep_capacity)
next
  case False
  let ?bs = "take (min (length bs) (c - length xs)) bs"
  obtain v' where "fv_extend_from_slice None v ?bs = Done (min (c - length xs) (length ?bs), v')"
      "fv_rep v' c (xs @ take (c - length xs) ?bs)"
    using fv_extend_from_slice_rep [OF assms, of None ?bs] by auto
  moreover have "take (c - length xs) ?bs = take (c - length xs) bs" by (simp add: min_def)
  ultimately show ?thesis using False
    by (simp add: fv_write_def fv_rep_len [OF assms] fv_rep_capacity [OF assms] Let_def min_def)
qed

lemma fv_write_vectored_rep:
  "fv_rep v c xs \<Longrightarrow>
   \<exists>v'. fv_write_vectored_from tot v bufs = Done (Inr (tot + min (length (concat bufs)) (c - length xs)), v') \<and>
        fv_rep v' c (xs @ take (c - length xs) (concat bufs))"
proof (induction bufs arbitrary: tot v xs)
  case Nil
  then show ?case by simp
next
  case (Cons b bufs)
  obtain v' where w: "fv_write v b = Done (Inr (min (length b) (c - length xs)), v')"
      and rep: "fv_rep v' c (xs @ take (c - length xs) b)"
    using fv_write_rep [OF Cons.prems] by blast
  show ?case
  proof (cases "length b \<le> c - length xs")
    case True
    then have "fv_rep v' c (xs @ b)" using rep by simp
    from Cons.IH [OF this, of "tot + length b"] True w show ?thesis
      by (auto simp: min_def)
  next
    case False
    with w rep show ?thesis by (auto simp: min_def)
  qed
qed

lemma fv_write_all_rep:
  assumes "fv_rep v c xs"
  shows "\<exists>v'. fv_write_all v bs = Done (if length bs \<le> c - length xs then Inr ()
        else Inl (Custom WriteZero ''failed to write whole buffer''), v') \<and>
     fv_rep v' c (xs @ take (c - length xs) bs)"
  using fv_write_rep [OF assms, of bs] by (auto simp: fv_write_all_def min_def)

section \<open>Refinement of a bounded list\<close>

text \<open>
  The abstract specification: the operations of the type as operations on a list of at most
  \<open>c\<close> elements.  \<open>nd\<close> only decides which values are dropped, so it is not part of it.
\<close>

datatype 'a fv_op =
  Push 'a | Pop | SwapRemove nat | InsertAt nat 'a | RemoveAt nat | Truncate nat | Clear
| Resize nat 'a | ExtendSlice "'a list" | ExtendIter "'a list" | Retain "'a \<Rightarrow> bool"
| DrainRange nat bound bound | CloneSelf

datatype 'a fv_out = ONone | OValue 'a | OPop "'a option" | ORefused 'a | OCount nat | OList "'a list"

definition clone_fn :: "('a \<Rightarrow> 'a) option \<Rightarrow> 'a \<Rightarrow> 'a" where
  "clone_fn cl = (case cl of None \<Rightarrow> \<lambda>x. x | Some f \<Rightarrow> f)"

fun fv_step :: "bool \<Rightarrow> ('a \<Rightarrow> 'a) option \<Rightarrow> 'a fixedvec \<Rightarrow> 'a fv_op \<Rightarrow> ('a fv_out \<times> 'a fixedvec) outcome" where
  "fv_step nd cl v (Push x) = and_then (fv_push v x)
     (\<lambda>(r, v'). Done (case r of Inl y \<Rightarrow> ORefused y | Inr _ \<Rightarrow> ONone, v'))"
| "fv_step nd cl v Pop = and_then (fv_pop v) (\<lambda>(r, v'). Done (OPop r, v'))"
| "fv_step nd cl v (SwapRemove i) = and_then (fv_swap_remove v i) (\<lambda>(x, v'). Done (OValue x, v'))"
| "fv_step nd cl v (InsertAt i x) = and_then (fv_insert v i x) (\<lambda>v'. Done (ONone, v'))"
| "fv_step nd cl v (RemoveAt i) = and_then (fv_remove v i) (\<lambda>(x, v'). Done (OValue x, v'))"
| "fv_step nd cl v (Truncate n) = and_then (fv_truncate nd v n) (\<lambda>(_, v'). Done (ONone, v'))"
| "fv_step nd cl v Clear = and_then (fv_clear nd v) (\<lambda>(_, v'). Done (ONone, v'))"
| "fv_step nd cl v (Resize n x) = and_then (fv_resize nd (clone_fn cl) v n x) (\<lambda>(_, v'). Done (ONone, v'))"
| "fv_step nd cl v (ExtendSlice ys) = and_then (fv_extend_from_slice cl v ys) (\<lambda>(n, v'). Done (OCount n, v'))"
| "fv_step nd cl v (ExtendIter ys) = and_then (fv_extend (\<lambda>x. x) v ys) (\<lambda>(zs, v'). Done (OList zs, v'))"
| "fv_step nd cl v (Retain P) = and_then (fv_retain nd v (\<lambda>u x. (P x, u)) ()) (\<lambda>(_, _, v'). Done (ONone, v'))"
| "fv_step nd cl v (DrainRange n lo hi) = and_then (drain_run nd n v lo hi) (\<lambda>(ys, _, v'). Done (OList ys, v'))"
| "fv_step nd cl v CloneSelf = and_then (fv_clone cl v) (\<lambda>v'. Done (ONone, v'))"

fun list_step :: "('a \<Rightarrow> 'a) option \<Rightarrow> nat \<Rightarrow> 'a list \<Rightarrow> 'a fv_op \<Rightarrow> ('a fv_out \<times> 'a list) outcome" where
  "list_step cl c xs (Push x) = (if length xs = c then Done (ORefused x, xs) else Done (ONone, xs @ [x]))"
| "list_step cl c xs Pop = Done (OPop (if xs = [] then None else Some (last xs)), butlast xs)"
| "list_step cl c xs (SwapRemove i) =
     (if i < length xs then Done (OValue (xs ! i), butlast (xs[i := last xs])) else Panic)"
| "list_step cl c xs (InsertAt i x) =
     (if i \<le> length xs \<and> length xs < c then Done (ONone, take i xs @ x # drop i xs) else Panic)"
| "list_step cl c xs (RemoveAt i) =
     (if i < length xs then Done (OValue (xs ! i), take i xs @ drop (Suc i) xs) else Panic)"
| "list_step cl c xs (Truncate n) = Done (ONone, take n xs)"
| "list_step cl c xs Clear = Done (ONone, [])"
| "list_step cl c xs (Resize n x) =
     (if n \<le> c then Done (ONone, take n xs @ replicate (n - length xs) (clone_fn cl x)) else Panic)"
| "list_step cl c xs (ExtendSlice ys) =
     Done (OCount (min (c - length xs) (length ys)), xs @ take (c - length xs) (map (clone_fn cl) ys))"
| "list_step cl c xs (ExtendIter ys) = Done (OList (drop (c - length xs) ys), xs @ take (c - length xs) ys)"
| "list_step cl c xs (Retain P) = Done (ONone, filter P xs)"
| "list_step cl c xs (DrainRange n lo hi) =
     (let a = lower_of lo; b = upper_of (length xs) hi
      in if a \<le> b \<and> b \<le> length xs
         then Done (OList (take n (take (b - a) (drop a xs))), take a xs @ drop b xs) else Panic)"
| "list_step cl c xs CloneSelf = Done (ONone, map (clone_fn cl) xs)"

text \<open>The two sides agree on the outcome and on the output.\<close>

definition fv_agree :: "nat \<Rightarrow> ('o \<times> 'a fixedvec) outcome \<Rightarrow> ('o \<times> 'a list) outcome \<Rightarrow> bool" where
  "fv_agree c r s \<longleftrightarrow>
     (\<exists>out xs v. r = Done (out, v) \<and> s = Done (out, xs) \<and> fv_rep v c xs) \<or> (r = Panic \<and> s = Panic)"

lemma fv_step_agree:
  assumes "fv_rep v c xs"
  shows "fv_agree c (fv_step nd cl v x) (list_step cl c xs x)"
proof (cases x)
  case (Push y)
  then show ?thesis using fv_push_rep [OF assms, of y] by (auto simp: fv_agree_def)
next
  case Pop
  then show ?thesis using fv_pop_rep [OF assms] by (auto simp: fv_agree_def)
next
  case (SwapRemove i)
  then show ?thesis using fv_swap_remove_rep [OF assms, of i] by (auto simp: fv_agree_def split: if_splits)
next
  case (InsertAt i y)
  then show ?thesis using fv_insert_rep [OF assms, of i y] by (auto simp: fv_agree_def split: if_splits)
next
  case (RemoveAt i)
  then show ?thesis using fv_remove_rep [OF assms, of i] by (auto simp: fv_agree_def split: if_splits)
next
  case (Truncate n)
  then show ?thesis using fv_truncate_rep [OF assms, of nd n] by (auto simp: fv_agree_def)
next
  case Clear
  then show ?thesis using fv_clear_rep [OF assms, of nd] by (auto simp: fv_agree_def)
next
  case (Resize n y)
  then show ?thesis using fv_resize_rep [OF assms, of n nd "clone_fn cl" y]
    by (auto simp: fv_agree_def split: if_splits)
next
  case (ExtendSlice ys)
  then show ?thesis using fv_extend_from_slice_rep [OF assms, of cl ys]
    by (auto simp: fv_agree_def clone_fn_def)
next
  case (ExtendIter ys)
  then show ?thesis using fv_extend_rep [OF assms, of "\<lambda>x. x" ys] by (auto simp: fv_agree_def)
next
  case (Retain P)
  have "select (\<lambda>u x. (P x, u)) () xs = (filter P xs, filter (\<lambda>x. \<not> P x) xs, ())"
    by (rule select_pure)
  with Retain show ?thesis using fv_retain_rep [OF assms, of "\<lambda>u x. (P x, u)" "()" _ _ "()" nd]
    by (fastforce simp: fv_agree_def)
next
  case (DrainRange n lo hi)
  then show ?thesis using drain_run_rep [OF assms, of lo hi nd n]
    by (auto simp: fv_agree_def Let_def split: if_splits)
next
  case CloneSelf
  then show ?thesis using fv_clone_rep [OF assms, of cl] by (auto simp: fv_agree_def clone_fn_def)
qed

fun fv_run :: "bool \<Rightarrow> ('a \<Rightarrow> 'a) option \<Rightarrow> 'a fixedvec \<Rightarrow> 'a fv_op list \<Rightarrow> ('a fv_out list \<times> 'a fixedvec) outcome" where
  "fv_run nd cl v [] = Done ([], v)"
| "fv_run nd cl v (x # xs) =
     and_then (fv_step nd cl v x) (\<lambda>(r, v'). and_then (fv_run nd cl v' xs) (\<lambda>(rs, v''). Done (r # rs, v'')))"

fun list_run :: "('a \<Rightarrow> 'a) option \<Rightarrow> nat \<Rightarrow> 'a list \<Rightarrow> 'a fv_op list \<Rightarrow> ('a fv_out list \<times> 'a list) outcome" where
  "list_run cl c l [] = Done ([], l)"
| "list_run cl c l (x # xs) =
     and_then (list_step cl c l x) (\<lambda>(r, l'). and_then (list_run cl c l' xs) (\<lambda>(rs, l''). Done (r # rs, l'')))"

lemma fv_run_agree: "fv_rep v c l \<Longrightarrow> fv_agree c (fv_run nd cl v ops) (list_run cl c l ops)"
proof (induction ops arbitrary: v l)
  case Nil
  then show ?case by (simp add: fv_agree_def)
next
  case (Cons x ops)
  from fv_step_agree [OF Cons.prems, of nd cl x]
  consider r l' v' where "fv_step nd cl v x = Done (r, v')" "list_step cl c l x = Done (r, l')" "fv_rep v' c l'"
    | "fv_step nd cl v x = Panic" "list_step cl c l x = Panic"
    by (auto simp: fv_agree_def)
  then show ?case
  proof cases
    case 1
    with Cons.IH [OF 1(3)] show ?thesis by (auto simp: fv_agree_def)
  next
    case 2
    then show ?thesis by (simp add: fv_agree_def)
  qed
qed

section \<open>Copying and comparing\<close>

lemma fv_clone_from_rep:
  assumes v: "fv_rep v c xs" and w: "fv_rep w d ys"
  shows "\<exists>v'. fv_clone_from nd cl v w = Done (if nd then xs else [], v') \<and>
    fv_rep v' d (map (clone_fn cl) ys)"
proof (cases "c = d")
  case True
  obtain v1 where 1: "fv_clear nd v = Done (if nd then xs else [], v1)" "fv_rep v1 c []"
    using fv_clear_rep [OF v] by blast
  obtain v2 where 2: "fv_extend_from_slice cl v1 ys = Done (min c (length ys), v2)"
    "fv_rep v2 c (take c (map (clone_fn cl) ys))"
    using fv_extend_from_slice_rep [OF 1(2), of cl ys] by (auto simp: clone_fn_def)
  have "take c (map (clone_fn cl) ys) = map (clone_fn cl) ys" using fv_rep_le [OF w] True by simp
  with 1 2 True show ?thesis
    by (simp add: fv_clone_from_def fv_rep_capacity [OF v] fv_rep_capacity [OF w] fv_as_slice_rep [OF w])
next
  case False
  obtain v2 where 2: "fv_clone cl w = Done v2" "fv_rep v2 d (map (clone_fn cl) ys)"
    using fv_clone_rep [OF w, of cl] by (auto simp: clone_fn_def)
  obtain v1 where "fv_clear nd v = Done (if nd then xs else [], v1)" using fv_clear_rep [OF v] by blast
  with 2 False show ?thesis
    by (simp add: fv_clone_from_def fv_rep_capacity [OF v] fv_rep_capacity [OF w] fv_drop_def)
qed

section \<open>Properties\<close>

lemma fv_rep_demo: "fv_rep \<lparr>fdata = [Some 1, Some 2, Some 3, Some (4 :: nat), None], fsize = 4\<rparr> 5 [1, 2, 3, 4]"
  by (simp add: fv_rep_def)


text \<open>C30: retain keeps exactly the elements the stateful predicate accepts, in order, asking it
  once per element, and drops exactly the others.\<close>

theorem fixedvec_retain:
  assumes "fv_rep v c xs" and "select f s xs = (keep, gone, s')"
  shows "\<exists>ds v'. fv_retain nd v f s = Done (ds, s', v') \<and> fv_rep v' c keep \<and>
    mset ds = (if nd then mset gone else {#})"
  using fv_retain_rep [OF assms, of nd] by auto

theorem fixedvec_retain_witness:
  "\<exists>ds v'. fv_retain True \<lparr>fdata = [Some 1, Some 2, Some 3, Some (4 :: nat), None], fsize = 4\<rparr>
      (\<lambda>n x. (even n, n + 1)) (0 :: nat) = Done (ds, 4, v') \<and> fv_rep v' 5 [1, 3] \<and> mset ds = {#2, 4#}"
  using fixedvec_retain [OF fv_rep_demo, of "\<lambda>n x. (even n, n + 1)" "0 :: nat" "[1, 3]" "[2, 4]" 4 True]
  by (simp add: add_mset_commute)

theorem fixedvec_drain:
  assumes "fv_rep v c xs" and "lower_of lo \<le> upper_of (length xs) hi" and "upper_of (length xs) hi \<le> length xs"
  shows "\<exists>v'. drain_run nd n v lo hi =
      Done (take n (take (upper_of (length xs) hi - lower_of lo) (drop (lower_of lo) xs)),
        if nd then take (upper_of (length xs) hi - lower_of lo) (drop (lower_of lo) xs) else [], v') \<and>
    fv_rep v' c (take (lower_of lo) xs @ drop (upper_of (length xs) hi) xs)"
  using drain_run_rep [OF assms(1), of lo hi nd n] assms(2,3) by simp

theorem fixedvec_drain_witness:
  "\<exists>v'. drain_run True 1 \<lparr>fdata = [Some 1, Some 2, Some 3, Some (4 :: nat), None], fsize = 4\<rparr> (Included 1) (Excluded 3) =
      Done ([2], [2, 3], v') \<and> fv_rep v' 5 [1, 4]"
  using fixedvec_drain [OF fv_rep_demo, of "Included 1" "Excluded 3" True 1]
  by (simp add: lower_of_def upper_of_def)

theorem fixedvec_append:
  assumes "fv_rep v c xs" and "fv_rep w d ys" and "n = min (c - length xs) (length ys)"
  shows "if 2 * n \<le> d
    then \<exists>v' w'. fv_append v w = Done (v', w') \<and> fv_rep v' c (xs @ take n ys) \<and>
           fv_rep w' d (take (length ys - n) (take n (drop n ys) @ drop n ys))
    else fv_append v w = Undef"
  using fv_append_rep [OF assms(1,2)] unfolding assms(3) .

theorem fixedvec_append_witness:
  "fv_append \<lparr>fdata = [None, None, None, None], fsize = 0\<rparr> \<lparr>fdata = [Some 1, Some (2 :: nat)], fsize = 2\<rparr> = Undef"
  using fixedvec_append [of "\<lparr>fdata = [None, None, None, None], fsize = 0\<rparr>" 4 "[]"
      "\<lparr>fdata = [Some 1, Some (2 :: nat)], fsize = 2\<rparr>" 2 "[1, 2]" 2]
  by (simp add: fv_rep_def)

theorem fixedvec_write_vectored:
  assumes "fv_rep v c xs"
  shows "\<exists>v'. fv_write_vectored v bufs = Done (Inr (min (length (concat bufs)) (c - length xs)), v') \<and>
    fv_rep v' c (xs @ take (c - length xs) (concat bufs))"
  using fv_write_vectored_rep [OF assms, of 0 bufs] by (simp add: fv_write_vectored_def)

theorem fixedvec_write_vectored_witness:
  "\<exists>v'. fv_write_vectored (fv_with_capacity 4) [[1, 2, 3], [], [4, 5], [6]] = Done (Inr 4, v') \<and>
    fv_rep v' 4 [1, 2, 3, 4]"
  using fixedvec_write_vectored [OF fv_with_capacity_rep, of 4 "[[1, 2, 3], [], [4, 5], [6]]"]
  by (simp add: numeral_eq_Suc)

theorem fixedvec_clone_from:
  assumes "fv_rep v c xs" and "fv_rep w d ys"
  shows "\<exists>v'. fv_clone_from nd cl v w = Done (if nd then xs else [], v') \<and>
    fv_rep v' d (map (clone_fn cl) ys)"
  by (rule fv_clone_from_rep [OF assms])

theorem fixedvec_clone_from_witness:
  "\<exists>v'. fv_clone_from True None \<lparr>fdata = [Some 1, Some 2, Some 3, Some (4 :: nat), None], fsize = 4\<rparr>
      \<lparr>fdata = [Some 7, None], fsize = 1\<rparr> = Done ([1, 2, 3, 4], v') \<and> fv_rep v' 2 [7]"
  using fixedvec_clone_from [OF fv_rep_demo, of "\<lparr>fdata = [Some 7, None], fsize = 1\<rparr>" 2 "[7]" True None]
  by (simp add: fv_rep_def clone_fn_def)

end
