(* ===== verification/Uring_Raw.thy ===== *)
theory Uring_Raw
  imports Prelude
begin

text \<open>
  \<open>uring/src/raw.rs\<close>, \<open>uring/src/flags.rs\<close> and the two error macros of
  \<open>uring/src/lib.rs\<close>: the kernel interface of io_uring.  The unions of the submission queue
  entry are words of their size: all members of \<open>off_addr2\<close>, \<open>addr_splice\<close> and
  \<open>sqe_buf_info\<close> have the same width, and of \<open>sqe_op_flags\<close> only \<open>poll_events\<close> is
  narrower than the union.  A flag type of the \<open>bitflags\<close> crate is the word of its bits:
  \<open>a | b\<close> is the union and \<open>contains\<close> tests that all bits of its argument are set.
\<close>

unbundle bit_operations_syntax

section \<open>Entries\<close>

record sqe =
  sqe_opcode :: u8
  sqe_flags :: u8
  sqe_ioprio :: u16
  sqe_fd :: "32 word"
  sqe_off_addr2 :: u64
  sqe_addr :: u64
  sqe_len :: u32
  sqe_op_flags :: u32
  sqe_user_data :: u64
  sqe_buf_info :: u16
  sqe_personality :: u16
  sqe_splice_fd_in :: "32 word"
  sqe_pad0 :: u64
  sqe_pad1 :: u64

record cqe =
  cqe_user_data :: u64
  cqe_res :: "32 word"
  cqe_flags :: u32

text \<open>\<open>std::mem::zeroed\<close>.\<close>

definition sqe_zeroed :: sqe where
  "sqe_zeroed = \<lparr>sqe_opcode = 0, sqe_flags = 0, sqe_ioprio = 0, sqe_fd = 0, sqe_off_addr2 = 0,
     sqe_addr = 0, sqe_len = 0, sqe_op_flags = 0, sqe_user_data = 0, sqe_buf_info = 0,
     sqe_personality = 0, sqe_splice_fd_in = 0, sqe_pad0 = 0, sqe_pad1 = 0\<rparr>"

section \<open>Operation codes\<close>

text \<open>\<open>declare_sequential!\<close> numbers the cases of a hidden enumeration from zero.\<close>

datatype IoRingOp =
    IORING_OP_NOP
  | IORING_OP_READV
  | IORING_OP_WRITEV
  | IORING_OP_FSYNC
  | IORING_OP_READ_FIXED
  | IORING_OP_WRITE_FIXED
  | IORING_OP_POLL_ADD
  | IORING_OP_POLL_REMOVE
  | IORING_OP_SYNC_FILE_RANGE
  | IORING_OP_SENDMSG
  | IORING_OP_RECVMSG
  | IORING_OP_TIMEOUT
  | IORING_OP_TIMEOUT_REMOVE
  | IORING_OP_ACCEPT
  | IORING_OP_ASYNC_CANCEL
  | IORING_OP_LINK_TIMEOUT
  | IORING_OP_CONNECT
  | IORING_OP_FALLOCATE
  | IORING_OP_OPENAT
  | IORING_OP_CLOSE
  | IORING_OP_FILES_UPDATE
  | IORING_OP_STATX
  | IORING_OP_READ
  | IORING_OP_WRITE
  | IORING_OP_FADVISE
  | IORING_OP_MADVISE
  | IORING_OP_SEND
  | IORING_OP_RECV
  | IORING_OP_OPENAT2
  | IORING_OP_EPOLL_CTL
  | IORING_OP_SPLICE
  | IORING_OP_PROVIDE_BUFFERS
  | IORING_OP_REMOVE_BUFFERS
  | IORING_OP_TEE
  | IORING_OP_LAST

primrec op_code :: "IoRingOp \<Rightarrow> u8" where
  "op_code IORING_OP_NOP = 0"
| "op_code IORING_OP_READV = 1"
| "op_code IORING_OP_WRITEV = 2"
| "op_code IORING_OP_FSYNC = 3"
| "op_code IORING_OP_READ_FIXED = 4"
| "op_code IORING_OP_WRITE_FIXED = 5"
| "op_code IORING_OP_POLL_ADD = 6"
| "op_code IORING_OP_POLL_REMOVE = 7"
| "op_code IORING_OP_SYNC_FILE_RANGE = 8"
| "op_code IORING_OP_SENDMSG = 9"
| "op_code IORING_OP_RECVMSG = 10"
| "op_code IORING_OP_TIMEOUT = 11"
| "op_code IORING_OP_TIMEOUT_REMOVE = 12"
| "op_code IORING_OP_ACCEPT = 13"
| "op_code IORING_OP_ASYNC_CANCEL = 14"
| "op_code IORING_OP_LINK_TIMEOUT = 15"
| "op_code IORING_OP_CONNECT = 16"
| "op_code IORING_OP_FALLOCATE = 17"
| "op_code IORING_OP_OPENAT = 18"
| "op_code IORING_OP_CLOSE = 19"
| "op_code IORING_OP_FILES_UPDATE = 20"
| "op_code IORING_OP_STATX = 21"
| "op_code IORING_OP_READ = 22"
| "op_code IORING_OP_WRITE = 23"
| "op_code IORING_OP_FADVISE = 24"
| "op_code IORING_OP_MADVISE = 25"
| "op_code IORING_OP_SEND = 26"
| "op_code IORING_OP_RECV = 27"
| "op_code IORING_OP_OPENAT2 = 28"
| "op_code IORING_OP_EPOLL_CTL = 29"
| "op_code IORING_OP_SPLICE = 30"
| "op_code IORING_OP_PROVIDE_BUFFERS = 31"
| "op_code IORING_OP_REMOVE_BUFFERS = 32"
| "op_code IORING_OP_TEE = 33"
| "op_code IORING_OP_LAST = 34"

definition all_codes :: "IoRingOp list" where
  "all_codes =
     [IORING_OP_NOP, IORING_OP_READV, IORING_OP_WRITEV, IORING_OP_FSYNC,
      IORING_OP_READ_FIXED, IORING_OP_WRITE_FIXED, IORING_OP_POLL_ADD, IORING_OP_POLL_REMOVE,
      IORING_OP_SYNC_FILE_RANGE, IORING_OP_SENDMSG, IORING_OP_RECVMSG, IORING_OP_TIMEOUT,
      IORING_OP_TIMEOUT_REMOVE, IORING_OP_ACCEPT, IORING_OP_ASYNC_CANCEL, IORING_OP_LINK_TIMEOUT,
      IORING_OP_CONNECT, IORING_OP_FALLOCATE, IORING_OP_OPENAT, IORING_OP_CLOSE,
      IORING_OP_FILES_UPDATE, IORING_OP_STATX, IORING_OP_READ, IORING_OP_WRITE,
      IORING_OP_FADVISE, IORING_OP_MADVISE, IORING_OP_SEND, IORING_OP_RECV,
      IORING_OP_OPENAT2, IORING_OP_EPOLL_CTL, IORING_OP_SPLICE, IORING_OP_PROVIDE_BUFFERS,
      IORING_OP_REMOVE_BUFFERS, IORING_OP_TEE, IORING_OP_LAST]"

lemma all_codes_nth: "all_codes ! unat (op_code c) = c"
  by (cases c) (simp_all add: all_codes_def)

lemma op_code_inject [simp]: "op_code a = op_code b \<longleftrightarrow> a = b"
  by (metis all_codes_nth)

lemma op_code_less: "unat (op_code c) < 35"
  by (cases c) simp_all

definition op_of_code :: "u8 \<Rightarrow> IoRingOp option" where
  "op_of_code c = (if unat c < 35 then Some (all_codes ! unat c) else None)"

lemma op_of_code_op_code [simp]: "op_of_code (op_code c) = Some c"
  by (simp add: op_of_code_def op_code_less all_codes_nth)

section \<open>Flags\<close>

definition IORING_SETUP_IOPOLL :: u32 where
  "IORING_SETUP_IOPOLL = 1"

definition IORING_SETUP_SQPOLL :: u32 where
  "IORING_SETUP_SQPOLL = push_bit 1 1"

definition IORING_SETUP_SQ_AFF :: u32 where
  "IORING_SETUP_SQ_AFF = push_bit 2 1"

definition IORING_SETUP_CQSIZE :: u32 where
  "IORING_SETUP_CQSIZE = push_bit 3 1"

definition IOSQE_FIXED_FILE :: u8 where
  "IOSQE_FIXED_FILE = 1"

definition IOSQE_IO_DRAIN :: u8 where
  "IOSQE_IO_DRAIN = push_bit 1 1"

definition IOSQE_IO_LINK :: u8 where
  "IOSQE_IO_LINK = push_bit 2 1"

definition IOSQE_IO_HARDLINK :: u8 where
  "IOSQE_IO_HARDLINK = push_bit 3 1"

definition IOSQE_ASYNC :: u8 where
  "IOSQE_ASYNC = push_bit 4 1"

definition IOSQE_BUFFER_SELECT :: u8 where
  "IOSQE_BUFFER_SELECT = push_bit 5 1"

definition IORING_FSYNC_DATASYNC :: u32 where
  "IORING_FSYNC_DATASYNC = 1"

definition IORING_TIMEOUT_ABS :: u32 where
  "IORING_TIMEOUT_ABS = 1"

definition SPLICE_F_FD_IN_FIXED :: u32 where
  "SPLICE_F_FD_IN_FIXED = push_bit 31 1"

definition IORING_OFF_SQ_RING :: nat where
  "IORING_OFF_SQ_RING = 0"

definition IORING_OFF_CQ_RING :: nat where
  "IORING_OFF_CQ_RING = 0x8000000"

definition IORING_OFF_SQES :: nat where
  "IORING_OFF_SQES = 0x10000000"

definition IORING_SQ_NEED_WAKEUP :: u32 where
  "IORING_SQ_NEED_WAKEUP = 1"

definition IORING_ENTER_GETEVENTS :: u32 where
  "IORING_ENTER_GETEVENTS = 1"

definition IORING_ENTER_SQ_WAKEUP :: u32 where
  "IORING_ENTER_SQ_WAKEUP = push_bit 1 1"

definition IORING_FEAT_SINGLE_MMAP :: u32 where
  "IORING_FEAT_SINGLE_MMAP = 1"

definition IORING_FEAT_NODROP :: u32 where
  "IORING_FEAT_NODROP = push_bit 1 1"

definition IORING_FEAT_SUBMIT_STABLE :: u32 where
  "IORING_FEAT_SUBMIT_STABLE = push_bit 2 1"

definition IORING_FEAT_RW_CUR_POS :: u32 where
  "IORING_FEAT_RW_CUR_POS = push_bit 3 1"

definition IORING_FEAT_CUR_PERSONALITY :: u32 where
  "IORING_FEAT_CUR_PERSONALITY = push_bit 4 1"

definition IORING_REGISTER_BUFFERS :: u32 where
  "IORING_REGISTER_BUFFERS = 0"

definition IORING_UNREGISTER_BUFFERS :: u32 where
  "IORING_UNREGISTER_BUFFERS = 1"

definition IORING_REGISTER_FILES :: u32 where
  "IORING_REGISTER_FILES = 2"

definition IORING_UNREGISTER_FILES :: u32 where
  "IORING_UNREGISTER_FILES = 3"

definition IORING_REGISTER_EVENTFD :: u32 where
  "IORING_REGISTER_EVENTFD = 4"

definition IORING_UNREGISTER_EVENTFD :: u32 where
  "IORING_UNREGISTER_EVENTFD = 5"

definition IORING_REGISTER_FILES_UPDATE :: u32 where
  "IORING_REGISTER_FILES_UPDATE = 6"

definition IORING_REGISTER_EVENTFD_ASYNC :: u32 where
  "IORING_REGISTER_EVENTFD_ASYNC = 7"

definition IORING_REGISTER_PROBE :: u32 where
  "IORING_REGISTER_PROBE = 8"

definition IORING_REGISTER_PERSONALITY :: u32 where
  "IORING_REGISTER_PERSONALITY = 9"

definition IORING_UNREGISTER_PERSONALITY :: u32 where
  "IORING_UNREGISTER_PERSONALITY = 10"

definition IO_URING_OP_SUPPORTED :: u16 where
  "IO_URING_OP_SUPPORTED = 1"

text \<open>The flag types of \<open>flags.rs\<close>.\<close>

definition Setup_SQPOLL :: u32 where
  "Setup_SQPOLL = IORING_SETUP_SQPOLL"

definition Features_SINGLE_MMAP :: u32 where
  "Features_SINGLE_MMAP = IORING_FEAT_SINGLE_MMAP"

definition Features_all :: u32 where
  "Features_all = IORING_FEAT_SINGLE_MMAP OR IORING_FEAT_NODROP OR IORING_FEAT_SUBMIT_STABLE OR
     IORING_FEAT_RW_CUR_POS OR IORING_FEAT_CUR_PERSONALITY"

definition Enter_GETEVENTS :: u32 where
  "Enter_GETEVENTS = 1"

definition Enter_SQ_WAKEUP :: u32 where
  "Enter_SQ_WAKEUP = push_bit 1 1"

definition Completion_BUFFER :: u32 where
  "Completion_BUFFER = 1"

definition Completion_BUFFER_ID_MASK :: u32 where
  "Completion_BUFFER_ID_MASK = push_bit 16 0xFFFF"

definition Timeout_ABS :: u32 where
  "Timeout_ABS = 1"

definition contains :: "'w::len word \<Rightarrow> 'w word \<Rightarrow> bool" where
  "contains a b \<longleftrightarrow> a AND b = b"

text \<open>\<open>CompletionFlags::buf_id\<close>.\<close>

definition buf_id :: "u32 \<Rightarrow> u16 option" where
  "buf_id flags = (if contains flags Completion_BUFFER then Some (ucast (drop_bit 16 flags)) else None)"

section \<open>System call results\<close>

text \<open>\<open>resultify!\<close> on the \<open>i32\<close> result of a completion.  The negation wraps on the least
  \<open>i32\<close>, as it does in a release build.\<close>

definition resultify :: "32 word \<Rightarrow> io_error + nat" where
  "resultify res = (if sint res < 0 then Inl (OsError (sint (- res))) else Inr (nat (sint res)))"

text \<open>\<open>sysresult!\<close> on the return value of a system call and the thread's error number.\<close>

definition sysresult :: "int \<Rightarrow> int \<Rightarrow> io_error + int" where
  "sysresult ret errno = (if ret < 0 then Inl (OsError errno) else Inr ret)"

section \<open>Machine arithmetic\<close>

text \<open>\<open>u32\<close> addition and subtraction: \<open>dbg\<close> says whether the build checks for overflow
  (a debug build, which panics) or wraps (a release build).\<close>

definition u32_add :: "bool \<Rightarrow> u32 \<Rightarrow> u32 \<Rightarrow> u32 outcome" where
  "u32_add dbg a b = (if dbg \<and> unat a + unat b \<ge> 2 ^ 32 then Panic else Done (a + b))"

definition u32_sub :: "bool \<Rightarrow> u32 \<Rightarrow> u32 \<Rightarrow> u32 outcome" where
  "u32_sub dbg a b = (if dbg \<and> a < b then Panic else Done (a - b))"

lemma u32_add_release [simp]: "u32_add False a b = Done (a + b)"
  by (simp add: u32_add_def)

lemma u32_sub_release [simp]: "u32_sub False a b = Done (a - b)"
  by (simp add: u32_sub_def)

lemma u32_add_Done: "u32_add dbg a b = Done c \<Longrightarrow> c = a + b"
  by (simp add: u32_add_def split: if_splits)

lemma u32_sub_Done: "u32_sub dbg a b = Done c \<Longrightarrow> c = a - b"
  by (simp add: u32_sub_def split: if_splits)

lemma contains_refl [simp]: "contains a a"
  by (simp add: contains_def)

lemma buf_id_encode:
  "buf_id (push_bit 16 (ucast b) OR Completion_BUFFER) = Some b" for b :: u16
proof -
  have "contains (push_bit 16 (ucast b) OR Completion_BUFFER) Completion_BUFFER"
    by (auto simp: contains_def bit_eq_iff bit_simps)
  moreover have "ucast (drop_bit 16 (push_bit 16 (ucast b) OR Completion_BUFFER) :: u32) = b"
    by (rule bit_eqI) (auto simp: bit_simps Completion_BUFFER_def)
  ultimately show ?thesis by (simp add: buf_id_def)
qed

lemma resultify_Inr: "0 \<le> sint r \<Longrightarrow> resultify r = Inr (nat (sint r))"
  by (simp add: resultify_def)

lemma resultify_errno:
  assumes "0 < e" and "e < 2 ^ 31"
  shows "resultify (word_of_int (- e)) = Inl (OsError e)"
proof -
  have "sint (word_of_int (- e) :: 32 word) = - e"
    using assms by (intro signed_take_bit_int_eq_self[THEN trans[OF sint_sbintrunc']]) auto
  moreover have "sint (- word_of_int (- e) :: 32 word) = e"
    using assms by (simp add: sint_sbintrunc' signed_take_bit_int_eq_self)
  ultimately show ?thesis using assms by (simp add: resultify_def)
qed

end
