(* ===== verification/Ring_View.thy ===== *)
theory Ring_View
  imports Prelude
begin

text \<open>
  The contract between a ring buffer view and the code that walks over it: random access and
  iteration agree.  The completion queue relies on it when it hands out the pending entries and
  the executor when it processes them in order.
\<close>

locale ring_view =
  fixes len :: "'v \<Rightarrow> nat"
    and get :: "'v \<Rightarrow> nat \<Rightarrow> 'a option outcome"
    and iter :: "'v \<Rightarrow> 'a list outcome"
    and ok :: "'v \<Rightarrow> bool"
  assumes get_inside: "ok v \<Longrightarrow> i < len v \<Longrightarrow> \<exists>x. get v i = Done (Some x)"
    and get_outside: "len v \<le> i \<Longrightarrow> get v i = Done None"
    and iter_get: "ok v \<Longrightarrow> \<exists>xs. iter v = Done xs \<and> length xs = len v \<and>
        (\<forall>i<len v. get v i = Done (Some (xs ! i)))"
begin

lemma iter_nth:
  assumes "ok v" and "iter v = Done xs"
  shows "get v i = Done (if i < length xs then Some (xs ! i) else None)"
  using iter_get [OF assms(1)] get_outside [of v i] assms(2) by auto

lemma iter_length: "ok v \<Longrightarrow> iter v = Done xs \<Longrightarrow> length xs = len v"
  using iter_get by fastforce

lemma iter_total: "ok v \<Longrightarrow> iter v \<noteq> Panic \<and> iter v \<noteq> Undef"
  using iter_get by fastforce

end

end
