(* ===== verification/Ring_Buf.thy ===== *)
theory Ring_Buf
  imports Ring_View
begin

text \<open>
  \<open>uring/src/ringbuf.rs\<close>: a view of \<open>size\<close> elements of a power-of-two array, starting at
  \<open>offset\<close> and wrapping around under \<open>mask\<close>.  \<open>rb_data\<close> is the memory behind the
  pointer; an access outside it is \<open>Undef\<close>.
\<close>

unbundle bit_operations_syntax

record 'a ringbuf =
  rb_data :: "'a list"
  rb_offset :: nat
  rb_mask :: nat
  rb_size :: nat

definition rb_common_new :: "'a list \<Rightarrow> nat \<Rightarrow> nat \<Rightarrow> nat \<Rightarrow> 'a ringbuf outcome" where
  "rb_common_new data offset size' msk =
     assert_then (size' \<le> msk + 1)
       (Done \<lparr>rb_data = data, rb_offset = offset, rb_mask = msk, rb_size = size'\<rparr>)"

text \<open>\<open>RingBuf::new\<close>.\<close>

definition rb_new :: "'a list \<Rightarrow> nat \<Rightarrow> nat \<Rightarrow> nat \<Rightarrow> 'a ringbuf outcome" where
  "rb_new data offset size' msk = assert_then (msk AND (msk + 1) = 0) (rb_common_new data offset size' msk)"

definition rb_len :: "'a ringbuf \<Rightarrow> nat" where
  "rb_len b = rb_size b"

definition rb_get_unchecked :: "'a ringbuf \<Rightarrow> nat \<Rightarrow> 'a outcome" where
  "rb_get_unchecked b index =
     (let i = (rb_offset b + index) AND rb_mask b
      in if i < length (rb_data b) then Done (rb_data b ! i) else Undef)"

definition rb_get :: "'a ringbuf \<Rightarrow> nat \<Rightarrow> 'a option outcome" where
  "rb_get b index =
     (if index \<ge> rb_len b then Done None
      else and_then (rb_get_unchecked b index) (\<lambda>x. Done (Some x)))"

text \<open>\<open>Index\<close>: panics outside the view.\<close>

definition rb_index :: "'a ringbuf \<Rightarrow> nat \<Rightarrow> 'a outcome" where
  "rb_index b index = and_then (rb_get b index) (\<lambda>r. case r of Some x \<Rightarrow> Done x | None \<Rightarrow> Panic)"

definition rb_backing :: "'a ringbuf \<Rightarrow> 'a list outcome" where
  "rb_backing b =
     (if rb_mask b + 1 \<le> length (rb_data b) then Done (take (rb_mask b + 1) (rb_data b)) else Undef)"

text \<open>The \<open>IntoIterator\<close> instances: two slices one after the other.  Slicing out of range
  panics.\<close>

definition rb_iter :: "'a ringbuf \<Rightarrow> 'a list outcome" where
  "rb_iter b =
     and_then (rb_backing b) (\<lambda>slice.
       let offset = rb_offset b; end' = rb_offset b + rb_size b; msk = rb_mask b
       in if end' AND msk = end'
          then assert_then (end' \<le> length slice) (Done (take (rb_size b) (drop offset slice)))
          else assert_then (offset \<le> length slice)
                 (assert_then (end' AND msk \<le> offset)
                   (Done (drop offset slice @ take (end' AND msk) (take offset slice)))))"

section \<open>Masks\<close>

lemma and_mask_mod: "(x::nat) AND (2 ^ k - 1) = x mod 2 ^ k"
  by (metis mask_eq_exp_minus_1 take_bit_eq_mask take_bit_eq_mod)

lemma and_mask_Suc: "(x::nat) AND (2 ^ k - Suc 0) = x mod 2 ^ k"
  using and_mask_mod [of x k] by simp

lemma mask_power:
  fixes m :: nat
  assumes "m AND (m + 1) = 0"
  shows "\<exists>k. m = 2 ^ k - 1"
  using assms
proof (induction m rule: less_induct)
  case (less m)
  show ?case
  proof (cases "m = 0")
    case True
    then show ?thesis by (intro exI [of _ 0]) simp
  next
    case False
    have rec: "m AND (m + 1) = of_bool (odd m \<and> odd (m + 1)) + 2 * (m div 2 AND (m + 1) div 2)"
      by (rule and_rec)
    have "odd m"
    proof (rule ccontr)
      assume "\<not> odd m"
      then have "(m + 1) div 2 = m div 2" by simp
      with rec less.prems have "m div 2 = 0" by simp
      with \<open>\<not> odd m\<close> False show False by (metis dvd_mult_div_cancel mult_zero_right)
    qed
    then have half: "(m + 1) div 2 = m div 2 + 1" and m: "m = 2 * (m div 2) + 1" by presburger+
    have "m div 2 AND (m div 2 + 1) = 0" using rec half less.prems by simp
    moreover have "m div 2 < m" using False by simp
    ultimately obtain k where "m div 2 = 2 ^ k - 1" using less.IH by blast
    then have "m = 2 * (2 ^ k - 1) + 1" using m by simp
    moreover have "(1::nat) \<le> 2 ^ k" by simp
    ultimately have "m = 2 ^ Suc k - 1" unfolding power_Suc by linarith
    then show ?thesis by blast
  qed
qed

lemma power_mask: "(2 ^ k - 1 :: nat) AND (2 ^ k - 1 + 1) = 0"
  by (simp add: and_mask_Suc and.commute)

section \<open>Access and iteration\<close>

text \<open>A view the constructor accepted, whose memory is the whole array and whose offset lies
  inside it.\<close>

definition rb_ok :: "'a ringbuf \<Rightarrow> bool" where
  "rb_ok b \<longleftrightarrow> rb_mask b AND (rb_mask b + 1) = 0 \<and> rb_size b \<le> rb_mask b + 1 \<and>
     length (rb_data b) = rb_mask b + 1 \<and> rb_offset b \<le> rb_mask b"

lemma rb_get_nth:
  assumes "rb_mask b AND (rb_mask b + 1) = 0" and "length (rb_data b) = rb_mask b + 1" and "i < rb_size b"
  shows "rb_get b i = Done (Some (rb_data b ! ((rb_offset b + i) mod (rb_mask b + 1))))"
proof -
  obtain k where k: "rb_mask b = 2 ^ k - 1" using mask_power [OF assms(1)] by blast
  have "(rb_offset b + i) AND rb_mask b = (rb_offset b + i) mod (rb_mask b + 1)"
    by (simp add: k and_mask_Suc)
  moreover have "(rb_offset b + i) mod (rb_mask b + 1) < length (rb_data b)"
    using assms(2) by simp
  ultimately show ?thesis using assms(3)
    by (simp add: rb_get_def rb_get_unchecked_def rb_len_def)
qed

lemma rb_iter_nth:
  assumes ok: "rb_ok b"
  shows "rb_iter b = Done (map (\<lambda>i. rb_data b ! ((rb_offset b + i) mod (rb_mask b + 1))) [0..<rb_size b])"
proof -
  let ?n = "rb_mask b + 1" and ?o = "rb_offset b" and ?e = "rb_offset b + rb_size b" and ?d = "rb_data b"
  obtain k where k: "rb_mask b = 2 ^ k - 1" using ok mask_power by (auto simp: rb_ok_def)
  have e: "?e AND rb_mask b = ?e mod ?n" by (simp add: k and_mask_Suc)
  have len: "length ?d = ?n" "rb_size b \<le> ?n" "?o < ?n" using ok by (auto simp: rb_ok_def)
  have bk: "rb_backing b = Done ?d" using len by (simp add: rb_backing_def)
  show ?thesis
  proof (cases "?e < ?n")
    case True
    then have "take (rb_size b) (drop ?o ?d) = map (\<lambda>i. ?d ! ((?o + i) mod ?n)) [0..<rb_size b]"
      using len by (intro nth_equalityI) auto
    with True bk e len show ?thesis by (simp add: rb_iter_def Let_def)
  next
    case False
    then have m: "?e mod ?n = ?e - ?n" using len by (simp add: le_mod_geq)
    have "drop ?o ?d @ take (?e - ?n) (take ?o ?d) = map (\<lambda>i. ?d ! ((?o + i) mod ?n)) [0..<rb_size b]"
    proof (rule nth_equalityI)
      show "length (drop ?o ?d @ take (?e - ?n) (take ?o ?d))
          = length (map (\<lambda>i. ?d ! ((?o + i) mod ?n)) [0..<rb_size b])"
        using len False by simp
    next
      fix i assume "i < length (drop ?o ?d @ take (?e - ?n) (take ?o ?d))"
      then have i: "i < rb_size b" using len False by simp
      show "(drop ?o ?d @ take (?e - ?n) (take ?o ?d)) ! i
          = map (\<lambda>i. ?d ! ((?o + i) mod ?n)) [0..<rb_size b] ! i"
      proof (cases "?o + i < ?n")
        case True
        then have "i < Suc (rb_mask b) - ?o" by simp
        with True i len show ?thesis by (simp add: nth_append)
      next
        case wrap: False
        then have "(?o + i) mod ?n = ?o + i - ?n" using len i by (simp add: le_mod_geq)
        moreover have "\<not> i < Suc (rb_mask b) - ?o" and "i - (Suc (rb_mask b) - ?o) = ?o + i - ?n"
          using wrap len by simp_all
        ultimately show ?thesis using wrap i len False by (simp add: nth_append add.commute)
      qed
    qed
    moreover have "?e mod ?n \<le> ?o" using m len by simp
    moreover have "?e mod ?n \<noteq> ?e" using False by (metis mod_less_divisor zero_less_Suc Suc_eq_plus1)
    ultimately show ?thesis using bk e len m by (simp add: rb_iter_def Let_def)
  qed
qed

text \<open>An offset beyond the array, which the submission queue hands over, makes iteration
  panic; random access masks it.\<close>

lemma rb_iter_offset_outside:
  assumes "rb_mask b AND (rb_mask b + 1) = 0" and "length (rb_data b) = rb_mask b + 1"
    and "rb_mask b + 1 < rb_offset b"
  shows "rb_iter b = Panic"
proof -
  obtain k where k: "rb_mask b = 2 ^ k - 1" using mask_power [OF assms(1)] by blast
  have "(rb_offset b + rb_size b) AND rb_mask b = (rb_offset b + rb_size b) mod (rb_mask b + 1)"
    by (simp add: k and_mask_Suc)
  moreover have "(rb_offset b + rb_size b) mod (rb_mask b + 1) < rb_mask b + 1" by simp
  ultimately have "(rb_offset b + rb_size b) AND rb_mask b \<noteq> rb_offset b + rb_size b"
    using assms(3) by linarith
  then show ?thesis using assms by (simp add: rb_iter_def rb_backing_def Let_def)
qed

interpretation rb: ring_view rb_len rb_get rb_iter rb_ok
proof unfold_locales
  fix b :: "'a ringbuf" and i
  show "rb_ok b \<Longrightarrow> i < rb_len b \<Longrightarrow> \<exists>x. rb_get b i = Done (Some x)"
    by (auto simp: rb_get_nth rb_ok_def rb_len_def)
  show "rb_len b \<le> i \<Longrightarrow> rb_get b i = Done None" by (simp add: rb_get_def)
  show "rb_ok b \<Longrightarrow> \<exists>xs. rb_iter b = Done xs \<and> length xs = rb_len b \<and>
      (\<forall>i<rb_len b. rb_get b i = Done (Some (xs ! i)))"
    by (auto simp: rb_iter_nth rb_get_nth rb_ok_def rb_len_def)
qed

section \<open>Properties\<close>

theorem ring_iteration_is_access:
  assumes "rb_ok b"
  shows "\<exists>xs. rb_iter b = Done xs \<and> length xs = rb_len b \<and>
    (\<forall>i. rb_get b i = Done (if i < rb_len b then Some (xs ! i) else None))"
  using rb.iter_get [OF assms] rb.iter_nth [OF assms] by auto

theorem ring_iteration_is_access_witness:
  "\<exists>xs. rb_iter \<lparr>rb_data = [0, 1, 2, 3, 4, 5, 6, 7 :: nat], rb_offset = 5, rb_mask = 7, rb_size = 6\<rparr> = Done xs \<and> length xs = 6 \<and>
    (\<forall>i. rb_get \<lparr>rb_data = [0, 1, 2, 3, 4, 5, 6, 7], rb_offset = 5, rb_mask = 7, rb_size = 6\<rparr> i
       = Done (if i < 6 then Some (xs ! i) else None))"
  using ring_iteration_is_access [of "\<lparr>rb_data = [0, 1, 2, 3, 4, 5, 6, 7 :: nat], rb_offset = 5, rb_mask = 7, rb_size = 6\<rparr>"]
  by (simp add: rb_ok_def rb_len_def)

end
