(* ===== verification/Ring_Buf_Mut.thy ===== *)
theory Ring_Buf_Mut
  imports Ring_Buf
begin

text \<open>
  The mutable side of \<open>uring/src/ringbuf.rs\<close>.  A \<open>&mut T\<close> into the ring is the index of its slot
  in the memory behind the view: what matters of mutable references is which slots they lead to,
  and that no two of them lead to the same.
\<close>

unbundle bit_operations_syntax

section \<open>Operations\<close>

text \<open>\<open>RingBufMut::new\<close>; the view itself is the same structure.\<close>

definition rbm_new :: "'a list \<Rightarrow> nat \<Rightarrow> nat \<Rightarrow> nat \<Rightarrow> 'a ringbuf outcome" where
  "rbm_new data offset size' msk = assert_then (msk AND (msk + 1) = 0) (rb_common_new data offset size' msk)"

text \<open>\<open>Deref\<close>: a mutable view is used as an immutable one.\<close>

definition rbm_deref :: "'a ringbuf \<Rightarrow> 'a ringbuf" where
  "rbm_deref b = b"

definition rbm_len :: "'a ringbuf \<Rightarrow> nat" where
  "rbm_len b = rb_len (rbm_deref b)"

definition rbm_get_unchecked_mut :: "'a ringbuf \<Rightarrow> nat \<Rightarrow> nat outcome" where
  "rbm_get_unchecked_mut b index =
     (let i = (rb_offset b + index) AND rb_mask b in if i < length (rb_data b) then Done i else Undef)"

definition rbm_get_mut :: "'a ringbuf \<Rightarrow> nat \<Rightarrow> nat option outcome" where
  "rbm_get_mut b index =
     (if index \<ge> rbm_len b then Done None
      else and_then (rbm_get_unchecked_mut b index) (\<lambda>i. Done (Some i)))"

text \<open>A write through the reference that \<open>get_mut\<close> returned, if it returned one.\<close>

definition rb_put :: "'a ringbuf \<Rightarrow> nat \<Rightarrow> 'a \<Rightarrow> 'a ringbuf option outcome" where
  "rb_put b index x =
     and_then (rbm_get_mut b index) (\<lambda>r. case r of
         None \<Rightarrow> Done None
       | Some i \<Rightarrow> Done (Some (b\<lparr>rb_data := (rb_data b)[i := x]\<rparr>)))"

lemma rb_put_eq:
  "rb_put b index x =
     (if index \<ge> rb_len b then Done None
      else (let i = (rb_offset b + index) AND rb_mask b
            in if i < length (rb_data b) then Done (Some (b\<lparr>rb_data := (rb_data b)[i := x]\<rparr>)) else Undef))"
  by (simp add: rb_put_def rbm_get_mut_def rbm_get_unchecked_mut_def rbm_len_def rbm_deref_def Let_def)

text \<open>\<open>Index\<close> and \<open>IndexMut\<close>: panics outside the view.\<close>

definition rbm_index :: "'a ringbuf \<Rightarrow> nat \<Rightarrow> 'a outcome" where
  "rbm_index b index =
     and_then (rb_get (rbm_deref b) index) (\<lambda>r. case r of Some x \<Rightarrow> Done x | None \<Rightarrow> Panic)"

definition rbm_index_mut :: "'a ringbuf \<Rightarrow> nat \<Rightarrow> nat outcome" where
  "rbm_index_mut b index =
     and_then (rbm_get_mut b index) (\<lambda>r. case r of Some i \<Rightarrow> Done i | None \<Rightarrow> Panic)"

definition rbm_backing_mut :: "'a ringbuf \<Rightarrow> nat list outcome" where
  "rbm_backing_mut b = (if rb_mask b + 1 \<le> length (rb_data b) then Done [0..<rb_mask b + 1] else Undef)"

text \<open>\<open>IntoIterator\<close> for the mutable view.  \<open>split_at_mut\<close> panics beyond the slice.\<close>

definition split_at_mut :: "'x list \<Rightarrow> nat \<Rightarrow> ('x list \<times> 'x list) outcome" where
  "split_at_mut xs mid = assert_then (mid \<le> length xs) (Done (take mid xs, drop mid xs))"

definition rbm_into_iter :: "'a ringbuf \<Rightarrow> nat list outcome" where
  "rbm_into_iter b =
     (let offset = rb_offset b; size' = rb_size b; msk = rb_mask b
      in and_then (rbm_backing_mut b) (\<lambda>slice.
         and_then
           (if (offset + size') AND msk = offset + size'
            then assert_then (offset + size' \<le> length slice) (Done (take size' (drop offset slice), []))
            else and_then (split_at_mut slice offset) (\<lambda>(slice1, slice2).
              assert_then ((offset + size') AND msk \<le> length slice1)
                (Done (slice2, take ((offset + size') AND msk) slice1))))
           (\<lambda>(slice1, slice2). Done (slice1 @ slice2))))"

text \<open>The instances for references: one that shares and one that borrows mutably.\<close>

definition rbm_ref_into_iter :: "'a ringbuf \<Rightarrow> 'a list outcome" where
  "rbm_ref_into_iter b = rb_iter (rbm_deref b)"

definition rbm_mut_into_iter :: "'a ringbuf \<Rightarrow> nat list outcome" where
  "rbm_mut_into_iter b = rbm_into_iter b"

text \<open>A loop over the mutable references that stores \<open>f i\<close> through the one it gets as the
  \<open>i\<close>-th.\<close>

fun rbm_store_all :: "(nat \<Rightarrow> 'a) \<Rightarrow> nat \<Rightarrow> nat list \<Rightarrow> 'a ringbuf \<Rightarrow> 'a ringbuf" where
  "rbm_store_all f i [] b = b"
| "rbm_store_all f i (l # locs) b =
     rbm_store_all f (i + 1) locs (b\<lparr>rb_data := (rb_data b)[l := f i]\<rparr>)"

section \<open>The slots of a view\<close>

text \<open>Mutable iteration visits what immutable iteration over an array of slot numbers reads.\<close>

definition slots :: "'a ringbuf \<Rightarrow> nat ringbuf" where
  "slots b = \<lparr>rb_data = [0..<length (rb_data b)], rb_offset = rb_offset b, rb_mask = rb_mask b, rb_size = rb_size b\<rparr>"

lemma slots_simps [simp]:
  "rb_offset (slots b) = rb_offset b" "rb_mask (slots b) = rb_mask b" "rb_size (slots b) = rb_size b"
  "rb_data (slots b) = [0..<length (rb_data b)]" "rb_ok (slots b) = rb_ok b" "rb_len (slots b) = rb_len b"
  by (simp_all add: slots_def rb_ok_def rb_len_def)

lemma rbm_backing_slots: "rbm_backing_mut b = rb_backing (slots b)"
  by (simp add: rbm_backing_mut_def rb_backing_def take_upt)

lemma rbm_into_iter_slots: "rbm_into_iter b = rb_iter (slots b)"
  by (cases "rb_backing (slots b)")
    (auto simp: rbm_into_iter_def rb_iter_def rbm_backing_slots split_at_mut_def Let_def
        assert_then_def min_def)

lemma rbm_get_slots: "rbm_get_mut b i = rb_get (slots b) i"
  by (simp add: rbm_get_mut_def rb_get_def rbm_get_unchecked_mut_def rb_get_unchecked_def rbm_len_def
      rbm_deref_def Let_def)

lemma wrap_inj:
  assumes "(o' + i) mod n = (o' + j) mod n" "i < n" "j < n" "o' < n"
  shows "i = (j :: nat)"
  using assms by (auto simp: mod_if split: if_splits)

lemma rbm_into_iter_locs:
  assumes "rb_ok b"
  shows "\<exists>locs. rbm_into_iter b = Done locs \<and> distinct locs \<and> length locs = rb_size b \<and>
    set locs \<subseteq> {..<length (rb_data b)} \<and>
    (\<forall>i<rb_size b. locs ! i = (rb_offset b + i) mod (rb_mask b + 1))"
proof -
  let ?locs = "map (\<lambda>i. (rb_offset b + i) mod (rb_mask b + 1)) [0..<rb_size b]"
  have ok: "length (rb_data b) = rb_mask b + 1" "rb_size b \<le> rb_mask b + 1" "rb_offset b < rb_mask b + 1"
    using assms by (auto simp: rb_ok_def)
  have "rbm_into_iter b = Done ?locs"
    using rb_iter_nth [of "slots b"] assms ok by (simp add: rbm_into_iter_slots del: upt_Suc)
  moreover have "distinct ?locs"
    using ok by (auto simp: distinct_map intro!: inj_onI dest!: wrap_inj)
  moreover have "set ?locs \<subseteq> {..<length (rb_data b)}" using ok by auto
  ultimately show ?thesis by (intro exI [of _ ?locs]) simp
qed

interpretation rbm: ring_view rbm_len rbm_get_mut rbm_into_iter rb_ok
proof unfold_locales
  fix b :: "'a ringbuf" and i
  show "rb_ok b \<Longrightarrow> i < rbm_len b \<Longrightarrow> \<exists>x. rbm_get_mut b i = Done (Some x)"
    using rb.get_inside [of "slots b" i] by (simp add: rbm_get_slots rbm_len_def rbm_deref_def)
  show "rbm_len b \<le> i \<Longrightarrow> rbm_get_mut b i = Done None" by (simp add: rbm_get_mut_def)
  show "rb_ok b \<Longrightarrow> \<exists>xs. rbm_into_iter b = Done xs \<and> length xs = rbm_len b \<and>
      (\<forall>i<rbm_len b. rbm_get_mut b i = Done (Some (xs ! i)))"
    using rb.iter_get [of "slots b"] by (simp add: rbm_get_slots rbm_len_def rbm_deref_def rbm_into_iter_slots)
qed

section \<open>Storing through the references\<close>

lemma rbm_store_all_fields [simp]:
  "rb_offset (rbm_store_all f i locs b) = rb_offset b" "rb_mask (rbm_store_all f i locs b) = rb_mask b"
  "rb_size (rbm_store_all f i locs b) = rb_size b"
  "length (rb_data (rbm_store_all f i locs b)) = length (rb_data b)"
  by (induction f i locs b rule: rbm_store_all.induct) simp_all

lemma rbm_store_all_outside:
  "l \<notin> set locs \<Longrightarrow> rb_data (rbm_store_all f i locs b) ! l = rb_data b ! l"
  by (induction f i locs b rule: rbm_store_all.induct) auto

lemma rbm_store_all_nth:
  "distinct locs \<Longrightarrow> set locs \<subseteq> {..<length (rb_data b)} \<Longrightarrow> k < length locs \<Longrightarrow>
   rb_data (rbm_store_all f i locs b) ! (locs ! k) = f (i + k)"
proof (induction f i locs b arbitrary: k rule: rbm_store_all.induct)
  case (2 f i l locs b)
  then show ?case by (cases k) (auto simp: rbm_store_all_outside)
qed simp

section \<open>Properties\<close>



end
