(* ===== verification/Channel.thy ===== *)
theory Channel
  imports Prelude
begin

text \<open>
  The contract of a bounded first-in first-out channel, which the two rings between program and
  kernel share: the program sends through the submission ring and receives through the
  completion ring, the kernel is at the other end of both.  An event sends one entry or receives
  up to \<open>n\<close> of them, and a run of events yields what was received.
\<close>

datatype 'a chan_event = Send 'a | Recv nat

fun chan_run ::
  "('a \<Rightarrow> 's \<Rightarrow> 's outcome) \<Rightarrow> (nat \<Rightarrow> 's \<Rightarrow> ('a list \<times> 's) outcome) \<Rightarrow> 'a chan_event list \<Rightarrow> 's \<Rightarrow>
    ('a list \<times> 's) outcome" where
  "chan_run send recv [] s = Done ([], s)"
| "chan_run send recv (Send x # evs) s = and_then (send x s) (chan_run send recv evs)"
| "chan_run send recv (Recv n # evs) s =
     and_then (recv n s) (\<lambda>(out, s').
       and_then (chan_run send recv evs s') (\<lambda>(out', s''). Done (out @ out', s'')))"

text \<open>A run is admissible when it never sends into a full channel: \<open>f\<close> is the fill level.\<close>

fun admissible :: "nat \<Rightarrow> nat \<Rightarrow> 'a chan_event list \<Rightarrow> bool" where
  "admissible c f [] = True"
| "admissible c f (Send x # evs) = (f < c \<and> admissible c (f + 1) evs)"
| "admissible c f (Recv n # evs) = admissible c (f - n) evs"

fun sent :: "'a chan_event list \<Rightarrow> 'a list" where
  "sent [] = []"
| "sent (Send x # evs) = x # sent evs"
| "sent (Recv n # evs) = sent evs"

locale channel =
  fixes send :: "'a \<Rightarrow> 's \<Rightarrow> 's outcome"
    and recv :: "nat \<Rightarrow> 's \<Rightarrow> ('a list \<times> 's) outcome"
    and inv :: "'s \<Rightarrow> bool"
    and content :: "'s \<Rightarrow> 'a list"
    and cap :: "'s \<Rightarrow> nat"
  assumes send_law: "inv s \<Longrightarrow> length (content s) < cap s \<Longrightarrow>
      \<exists>s'. send x s = Done s' \<and> inv s' \<and> content s' = content s @ [x] \<and> cap s' = cap s"
    and recv_law: "inv s \<Longrightarrow>
      \<exists>out s'. recv n s = Done (out, s') \<and> inv s' \<and> out @ content s' = content s \<and>
        length (content s') = length (content s) - n \<and> cap s' = cap s"
begin

lemma run_fifo:
  assumes "inv s" and "admissible (cap s) (length (content s)) evs"
  shows "\<exists>out s'. chan_run send recv evs s = Done (out, s') \<and> inv s' \<and> cap s' = cap s \<and>
    out @ content s' = content s @ sent evs"
  using assms
proof (induction evs arbitrary: s)
  case Nil
  then show ?case by simp
next
  case (Cons e evs)
  show ?case
  proof (cases e)
    case (Send x)
    with "Cons.prems" obtain s1 where 1: "send x s = Done s1" "inv s1" "content s1 = content s @ [x]" "cap s1 = cap s"
      using send_law [of s x] by auto
    with "Cons.IH" [of s1] "Cons.prems" Send show ?thesis by auto
  next
    case (Recv n)
    obtain out s1 where 1: "recv n s = Done (out, s1)" "inv s1" "out @ content s1 = content s"
      "length (content s1) = length (content s) - n" "cap s1 = cap s"
      using recv_law [OF "Cons.prems"(1)] by metis
    then obtain out' s2 where "chan_run send recv evs s1 = Done (out', s2)" "inv s2" "cap s2 = cap s"
      "out' @ content s2 = content s1 @ sent evs"
      using "Cons.IH" [of s1] "Cons.prems" Recv by auto
    with 1 Recv show ?thesis by simp
  qed
qed

end

end
