(* ===== verification/Uring_State.thy ===== *)
theory Uring_State
  imports Uring_Raw Ring_Buf_Mut Channel
begin

text \<open>
  The state the submission and completion queues share with the kernel: the structures
  \<open>io_uring_sq\<close> and \<open>io_uring_cq\<close> of \<open>uring/src/detail.rs\<close> with the memory behind their
  pointers, and \<open>IoUring\<close> of \<open>uring/src/lib.rs\<close>.  The kernel is the field
  \<open>u_kernel\<close> and the parameter \<open>enter\<close> of the operations that call \<open>io_uring_enter\<close>; the
  loads and stores of the shared positions happen in program order.
\<close>

section \<open>The rings\<close>

record sq_ring =
  sq_khead :: u32
  sq_ktail :: u32
  sq_kmask :: u32
  sq_kentries :: u32
  sq_kflags :: u32
  sq_array :: "u32 list"
  sq_sqes :: "sqe list"
  sq_sqe_head :: u32
  sq_sqe_tail :: u32

record cq_ring =
  cq_khead :: u32
  cq_ktail :: u32
  cq_kmask :: u32
  cq_cqes :: "cqe list"

record 'k uring =
  u_sq :: sq_ring
  u_cq :: cq_ring
  u_flags :: u32
  u_fd :: "32 word"
  u_kernel :: 'k

text \<open>\<open>io_uring_enter\<close>: the file descriptor, the number of entries to submit, the number of
  completions to wait for and the flags; the result is the return value, the error number and
  what the kernel made of the state.\<close>

type_synonym 'k enter = "u32 \<Rightarrow> u32 \<Rightarrow> u32 \<Rightarrow> u32 \<Rightarrow> 'k uring \<Rightarrow> int \<times> int \<times> 'k uring"

section \<open>Power-of-two rings\<close>

definition ring_mask_ok :: "u32 \<Rightarrow> bool" where
  "ring_mask_ok m \<longleftrightarrow> unat m AND (unat m + 1) = 0 \<and> unat m + 1 < 2 ^ 32"

lemma ring_mask_power:
  assumes "ring_mask_ok m"
  obtains k where "k < 32" and "unat m + 1 = 2 ^ k"
proof -
  obtain k where "unat m = 2 ^ k - 1" using assms mask_power by (auto simp: ring_mask_ok_def)
  then have s: "unat m + 1 = 2 ^ k" by simp
  with assms have "(2::nat) ^ k < 2 ^ 32" by (simp add: ring_mask_ok_def)
  then have k: "k < 32" by (rule power_less_imp_less_exp [rotated]) simp
  with that k s show ?thesis by blast
qed

lemma unat_and_ring:
  assumes "ring_mask_ok m"
  shows "unat (a AND m) = unat a mod (unat m + 1)"
proof -
  obtain k where "unat m + 1 = 2 ^ k" using ring_mask_power [OF assms] by metis
  then have "unat m = 2 ^ k - Suc 0" and "Suc (unat m) = 2 ^ k" by simp_all
  then show ?thesis by (simp only: unsigned_and_eq and_mask_Suc Suc_eq_plus1 [symmetric])
qed

lemma ring_size_dvd: "ring_mask_ok m \<Longrightarrow> (unat m + 1) dvd 2 ^ 32"
  by (metis ring_mask_power le_imp_power_dvd less_imp_le)

lemma unat_add_ring:
  assumes "ring_mask_ok m"
  shows "unat (a + b :: u32) mod (unat m + 1) = (unat a + unat b) mod (unat m + 1)"
proof -
  have "unat (a + b) = (unat a + unat b) mod 2 ^ 32" by (simp add: unat_word_ariths)
  then show ?thesis using ring_size_dvd [OF assms] by (simp add: mod_mod_cancel)
qed

lemma mask_diff_ring:
  assumes m: "ring_mask_ok m"
  shows "(a AND m) - (b AND m) AND m = (a - b) AND m"
proof (rule word_unat_eq_iff [THEN iffD2])
  let ?n = "unat m + 1" and ?x = "(a AND m) - (b AND m)"
  have "(unat ?x + unat (b AND m)) mod ?n = unat (a AND m) mod ?n"
    using unat_add_ring [OF m, of ?x "b AND m"] by simp
  then have "(unat ?x + unat b) mod ?n = unat a mod ?n"
    by (simp add: unat_and_ring [OF m] mod_add_right_eq)
  moreover have "(unat (a - b) + unat b) mod ?n = unat a mod ?n"
    using unat_add_ring [OF m, of "a - b" b] by simp
  ultimately have "int (unat ?x + unat b) mod int ?n = int (unat (a - b) + unat b) mod int ?n"
    by (simp only: zmod_int [symmetric])
  then have "int (unat ?x) mod int ?n = int (unat (a - b)) mod int ?n"
    by (simp add: mod_eq_dvd_iff)
  then have "unat ?x mod ?n = unat (a - b) mod ?n" by (simp only: zmod_int [symmetric] of_nat_eq_iff)
  then show "unat (?x AND m) = unat ((a - b) AND m)" by (simp only: unat_and_ring [OF m])
qed

text \<open>The distance from \<open>a\<close> down to \<open>b\<close> in terms of the distance up.\<close>

lemma unat_minus_swap: "unat (a - b :: u32) = (if a = b then 0 else 2 ^ 32 - unat (b - a))"
proof -
  have "unat a < 2 ^ 32" and "unat b < 2 ^ 32"
    using unsigned_less [of a, where 'a = nat] unsigned_less [of b, where 'a = nat] by simp_all
  then show ?thesis by (auto simp: unat_sub_if' word_unat_eq_iff)
qed

section \<open>Windows\<close>

text \<open>What lies between two ring positions, oldest first.\<close>

definition ring_window :: "'a list \<Rightarrow> nat \<Rightarrow> u32 \<Rightarrow> u32 \<Rightarrow> 'a list" where
  "ring_window xs n head tail =
     map (\<lambda>i. xs ! ((unat head + i) mod n)) [0..<unat (tail - head)]"

lemma length_ring_window [simp]: "length (ring_window xs n h t) = unat (t - h)"
  by (simp add: ring_window_def)

lemma ring_window_nth:
  "i < unat (t - h) \<Longrightarrow> ring_window xs n h t ! i = xs ! ((unat h + i) mod n)"
  by (simp add: ring_window_def)

lemma unat_of_nat_le: "c \<le> unat (x :: u32) \<Longrightarrow> unat (of_nat c :: u32) = c"
  proof -
  assume "c \<le> unat x"
  moreover have "unat x < 2 ^ 32" using unsigned_less [of x, where 'a = nat] by simp
  ultimately show ?thesis by (simp add: unat_of_nat)
qed

lemma dist_advance_head:
  fixes h t :: u32
  assumes "c \<le> unat (t - h)"
  shows "unat (t - (h + of_nat c)) = unat (t - h) - c"
proof -
  have c: "unat (of_nat c :: u32) = c" using assms by (rule unat_of_nat_le)
  have eq: "t - (h + of_nat c) = (t - h) - of_nat c" by simp
  have "(of_nat c :: u32) \<le> t - h" using c assms by (simp add: word_le_nat_alt)
  then show ?thesis unfolding eq using c by (simp only: unat_sub)
qed

lemma dist_advance_tail:
  fixes h t :: u32
  assumes "unat (t - h) + c < 2 ^ 32"
  shows "unat (t + of_nat c - h) = unat (t - h) + c"
proof -
  have c: "unat (of_nat c :: u32) = c" using assms by (simp add: unat_of_nat)
  have eq: "t + of_nat c - h = (t - h) + of_nat c" by simp
  have "unat ((t - h) + of_nat c) = unat (t - h) + unat (of_nat c :: u32)"
    using assms c by (simp add: unat_word_ariths(1))
  then show ?thesis unfolding eq using c by (simp only:)
qed

lemma ring_window_drop:
  assumes m: "ring_mask_ok m" and c: "c \<le> unat (t - h)"
  shows "ring_window xs (unat m + 1) (h + of_nat c) t = drop c (ring_window xs (unat m + 1) h t)"
proof (rule nth_equalityI)
  show "length (ring_window xs (unat m + 1) (h + of_nat c) t)
      = length (drop c (ring_window xs (unat m + 1) h t))"
    using c by (simp add: dist_advance_head)
next
  fix i assume "i < length (ring_window xs (unat m + 1) (h + of_nat c) t)"
  then have i: "c + i < unat (t - h)" using c by (simp add: dist_advance_head)
  have "unat (h + of_nat c) mod (unat m + 1) = (unat h + c) mod (unat m + 1)"
    using unat_add_ring [OF m, of h "of_nat c"] unat_of_nat_le [OF c] by simp
  then have "(unat (h + of_nat c) + i) mod (unat m + 1) = (unat h + c + i) mod (unat m + 1)"
    by (rule mod_add_cong) simp
  with i c show "ring_window xs (unat m + 1) (h + of_nat c) t ! i
      = drop c (ring_window xs (unat m + 1) h t) ! i"
    by (simp add: ring_window_nth dist_advance_head add.assoc)
qed

text \<open>The slots after the tail.\<close>

definition ring_free :: "'a list \<Rightarrow> nat \<Rightarrow> u32 \<Rightarrow> nat \<Rightarrow> 'a list" where
  "ring_free xs n tail c = map (\<lambda>i. xs ! ((unat tail + i) mod n)) [0..<c]"

lemma ring_window_append:
  assumes m: "ring_mask_ok m" and c: "unat (t - h) + c < 2 ^ 32"
  shows "ring_window xs (unat m + 1) h (t + of_nat c)
    = ring_window xs (unat m + 1) h t @ ring_free xs (unat m + 1) t c"
proof (rule nth_equalityI)
  show "length (ring_window xs (unat m + 1) h (t + of_nat c))
      = length (ring_window xs (unat m + 1) h t @ ring_free xs (unat m + 1) t c)"
    using c by (simp add: dist_advance_tail ring_free_def)
next
  fix i assume "i < length (ring_window xs (unat m + 1) h (t + of_nat c))"
  then have i: "i < unat (t - h) + c" using c by (simp add: dist_advance_tail)
  show "ring_window xs (unat m + 1) h (t + of_nat c) ! i
      = (ring_window xs (unat m + 1) h t @ ring_free xs (unat m + 1) t c) ! i"
  proof (cases "i < unat (t - h)")
    case True
    with i c show ?thesis by (simp add: ring_window_nth nth_append dist_advance_tail)
  next
    case False
    have "(unat h + i) mod (unat m + 1) = (unat t + (i - unat (t - h))) mod (unat m + 1)"
    proof -
      have "unat t mod (unat m + 1) = (unat h + unat (t - h)) mod (unat m + 1)"
        using unat_add_ring [OF m, of h "t - h"] by simp
      then have "(unat t + (i - unat (t - h))) mod (unat m + 1)
          = (unat h + unat (t - h) + (i - unat (t - h))) mod (unat m + 1)"
        by (rule mod_add_cong) simp
      then show ?thesis using False by simp
    qed
    moreover have "ring_free xs (unat m + 1) t c ! (i - unat (t - h))
        = xs ! ((unat t + (i - unat (t - h))) mod (unat m + 1))"
      using False i unfolding ring_free_def by (subst nth_map) auto
    ultimately show ?thesis using False i c
      by (simp only: ring_window_nth nth_append dist_advance_tail length_ring_window if_False)
  qed
qed

text \<open>Writing a free slot leaves the window alone.\<close>

lemma ring_slots_distinct:
  assumes "(i::nat) < j" and "j < i + n"
  shows "i mod n \<noteq> j mod n"
proof
  assume "i mod n = j mod n"
  then have "n dvd j - i" using assms by (metis mod_eq_dvd_iff_nat less_imp_le)
  then show False using assms by (auto dest: dvd_imp_le)
qed

lemma ring_window_update:
  assumes m: "ring_mask_ok m" and j: "unat (t - h) + j < unat m + 1"
  shows "ring_window (xs[(unat t + j) mod (unat m + 1) := x]) (unat m + 1) h t
    = ring_window xs (unat m + 1) h t"
proof (rule nth_equalityI)
  fix i assume "i < length (ring_window (xs[(unat t + j) mod (unat m + 1) := x]) (unat m + 1) h t)"
  then have i: "i < unat (t - h)" by simp
  have "unat t mod (unat m + 1) = (unat h + unat (t - h)) mod (unat m + 1)"
    using unat_add_ring [OF m, of h "t - h"] by simp
  then have "(unat t + j) mod (unat m + 1) = (unat h + unat (t - h) + j) mod (unat m + 1)"
    by (rule mod_add_cong) simp
  moreover have "(unat h + i) mod (unat m + 1) \<noteq> (unat h + unat (t - h) + j) mod (unat m + 1)"
    using i j by (intro ring_slots_distinct) auto
  ultimately show "ring_window (xs[(unat t + j) mod (unat m + 1) := x]) (unat m + 1) h t ! i
      = ring_window xs (unat m + 1) h t ! i"
    using i by (simp add: ring_window_nth)
qed simp

lemma ring_free_update:
  assumes "i < c" and "c \<le> n" and "length xs = n"
  shows "ring_free (xs[(unat t + i) mod n := x]) n t c = (ring_free xs n t c)[i := x]"
proof (rule nth_equalityI)
  show "length (ring_free (xs[(unat t + i) mod n := x]) n t c) = length ((ring_free xs n t c)[i := x])"
    by (simp add: ring_free_def)
next
  fix j assume "j < length (ring_free (xs[(unat t + i) mod n := x]) n t c)"
  then have j: "j < c" by (simp add: ring_free_def)
  have "0 < n" using assms by simp
  then have "(unat t + i) mod n < length xs" using assms(3) by simp
  moreover have "(unat t + i) mod n = (unat t + j) mod n \<Longrightarrow> i = j"
    using ring_slots_distinct [of "unat t + i" "unat t + j" n]
      ring_slots_distinct [of "unat t + j" "unat t + i" n] assms j
    by (cases i j rule: linorder_cases) auto
  ultimately show "ring_free (xs[(unat t + i) mod n := x]) n t c ! j = (ring_free xs n t c)[i := x] ! j"
    using j by (cases "i = j") (auto simp: ring_free_def nth_list_update)
qed

end
