(* ===== verification/Sub_Queue.thy ===== *)
theory Sub_Queue
  imports Uring_State
begin

text \<open>
  \<open>uring/src/sqe.rs\<close>: the submission queue.  \<open>dbg\<close> is the build profile of the unchecked
  \<open>u32\<close> arithmetic.  The queue is specified by its window, the entries between the head,
  which the kernel advances, and the tail, which the program advances.
\<close>

section \<open>Operations\<close>

definition sq_enter_flags :: "sq_ring \<Rightarrow> u32 \<Rightarrow> u32 \<Rightarrow> u32 option" where
  "sq_enter_flags sq flags submitted =
     (if \<not> contains flags Setup_SQPOLL
      then (if submitted > 0 then Some 0 else None)
      else if sq_kflags sq AND IORING_SQ_NEED_WAKEUP = 0 then None else Some Enter_SQ_WAKEUP)"

definition wrapping_dist :: "bool \<Rightarrow> u32 \<Rightarrow> u32 \<Rightarrow> u32 \<Rightarrow> u32 outcome" where
  "wrapping_dist dbg a b m =
     and_then (u32_add dbg m 1) (\<lambda>size'.
       let a' = a AND m; b' = b AND m
       in if a' = b' then Done size' else Done ((a' - b') AND m))"

definition sq_free_sqes :: "bool \<Rightarrow> sq_ring \<Rightarrow> nat outcome" where
  "sq_free_sqes dbg sq =
     and_then (wrapping_dist dbg (sq_khead sq) (sq_ktail sq) (sq_kmask sq)) (\<lambda>n. Done (unat n))"

definition sq_queue_size :: "sq_ring \<Rightarrow> nat" where
  "sq_queue_size sq = unat (sq_kentries sq)"

definition sq_free_view :: "bool \<Rightarrow> sq_ring \<Rightarrow> sqe ringbuf outcome" where
  "sq_free_view dbg sq =
     and_then (wrapping_dist dbg (sq_khead sq) (sq_ktail sq) (sq_kmask sq)) (\<lambda>available.
       rbm_new (sq_sqes sq) (unat (sq_ktail sq)) (unat available) (unat (sq_kmask sq)))"

definition sq_advance :: "bool \<Rightarrow> u32 \<Rightarrow> sq_ring \<Rightarrow> sq_ring outcome" where
  "sq_advance dbg n sq =
     and_then (u32_add dbg (sq_ktail sq) n) (\<lambda>t. Done (sq\<lparr>sq_ktail := t\<rparr>))"

definition sq_submit_and_wait ::
  "bool \<Rightarrow> 'k enter \<Rightarrow> u32 \<Rightarrow> 'k uring \<Rightarrow> ((io_error + nat) \<times> 'k uring) outcome" where
  "sq_submit_and_wait dbg enter wait_for u =
     (let tail = sq_ktail (u_sq u)
      in and_then (u32_sub dbg tail (sq_sqe_tail (u_sq u))) (\<lambda>submitted.
           let (flags, should_enter) = (if wait_for = 0 then (0, False) else (Enter_GETEVENTS, True));
               newflags = sq_enter_flags (u_sq u) (u_flags u) submitted;
               flags = (case newflags of None \<Rightarrow> flags | Some f \<Rightarrow> flags OR f);
               should_enter = (case newflags of None \<Rightarrow> should_enter | Some f \<Rightarrow> True);
               (res, u') =
                 (if should_enter
                  then (let (ret, errno, u') = enter (u_fd u) submitted wait_for flags u
                        in (sysresult ret errno, u'))
                  else (Inr 0, u))
           in Done (case res of
                 Inl e \<Rightarrow> (Inl e, u')
               | Inr n \<Rightarrow> (Inr (unat submitted),
                           u'\<lparr>u_sq := (u_sq u')\<lparr>sq_sqe_tail := tail\<rparr>\<rparr>))))"

definition sq_submit ::
  "bool \<Rightarrow> 'k enter \<Rightarrow> 'k uring \<Rightarrow> ((io_error + nat) \<times> 'k uring) outcome" where
  "sq_submit dbg enter u = sq_submit_and_wait dbg enter 0 u"

text \<open>\<open>sqes().get_mut(i)\<close> and a change through the reference it returns.\<close>

definition sq_modify :: "bool \<Rightarrow> nat \<Rightarrow> (sqe \<Rightarrow> sqe) \<Rightarrow> sq_ring \<Rightarrow> sq_ring option outcome" where
  "sq_modify dbg i f sq =
     and_then (sq_free_view dbg sq) (\<lambda>b. and_then (rb_get b i) (\<lambda>r. case r of
         None \<Rightarrow> Done None
       | Some x \<Rightarrow> and_then (rb_put b i (f x)) (\<lambda>r'. case r' of
             None \<Rightarrow> Done None
           | Some b' \<Rightarrow> Done (Some (sq\<lparr>sq_sqes := rb_data b'\<rparr>)))))"

section \<open>Accessors of \<open>SubmissionQueueEvent\<close>\<close>

definition ev_user_data :: "sqe \<Rightarrow> u64" where
  "ev_user_data s = sqe_user_data s"

definition ev_set_user_data :: "u64 \<Rightarrow> sqe \<Rightarrow> sqe" where
  "ev_set_user_data d s = s\<lparr>sqe_user_data := d\<rparr>"

definition ev_flags :: "sqe \<Rightarrow> u8" where
  "ev_flags s = sqe_flags s"

definition ev_set_flags :: "u8 \<Rightarrow> sqe \<Rightarrow> sqe" where
  "ev_set_flags f s = s\<lparr>sqe_flags := f\<rparr>"

definition ev_add_flags :: "u8 \<Rightarrow> sqe \<Rightarrow> sqe" where
  "ev_add_flags f s = s\<lparr>sqe_flags := sqe_flags s OR f\<rparr>"

definition ev_buf_group :: "sqe \<Rightarrow> u16" where
  "ev_buf_group s = sqe_buf_info s"

definition ev_set_buf_group :: "u16 \<Rightarrow> sqe \<Rightarrow> sqe" where
  "ev_set_buf_group g s = s\<lparr>sqe_buf_info := g\<rparr>"

definition ev_clear :: "sqe \<Rightarrow> sqe" where
  "ev_clear s = sqe_zeroed"

lemmas ev_simps = ev_user_data_def ev_set_user_data_def ev_flags_def ev_set_flags_def
  ev_add_flags_def ev_buf_group_def ev_set_buf_group_def

section \<open>The window of queued entries\<close>

definition sq_size :: "sq_ring \<Rightarrow> nat" where
  "sq_size sq = unat (sq_kmask sq) + 1"

definition sq_in_flight :: "sq_ring \<Rightarrow> nat" where
  "sq_in_flight sq = unat (sq_ktail sq - sq_khead sq)"

definition sq_window :: "sq_ring \<Rightarrow> sqe list" where
  "sq_window sq = ring_window (sq_sqes sq) (sq_size sq) (sq_khead sq) (sq_ktail sq)"

definition sq_inv :: "sq_ring \<Rightarrow> bool" where
  "sq_inv sq \<longleftrightarrow> ring_mask_ok (sq_kmask sq) \<and> length (sq_sqes sq) = sq_size sq \<and>
     map unat (sq_array sq) = [0..<sq_size sq] \<and> sq_in_flight sq \<le> sq_size sq"

lemmas sq_defs = sq_size_def sq_in_flight_def sq_window_def

lemma length_sq_window [simp]: "length (sq_window sq) = sq_in_flight sq"
  by (simp add: sq_defs)

lemma sq_size_le: "sq_inv sq \<Longrightarrow> 0 < sq_size sq \<and> sq_size sq < 2 ^ 32"
  by (simp add: sq_inv_def sq_size_def ring_mask_ok_def)

lemma wrapping_dist_result:
  assumes m: "ring_mask_ok m"
  shows "\<exists>v. wrapping_dist dbg a b m = Done v \<and>
      unat v = (if unat (a - b) mod (unat m + 1) = 0 then unat m + 1
                else unat (a - b) mod (unat m + 1))"
proof -
  have "unat m + 1 < 2 ^ 32" using m by (simp add: ring_mask_ok_def)
  then have s: "u32_add dbg m 1 = Done (m + 1)" and um: "unat (m + 1) = unat m + 1"
    by (simp_all add: u32_add_def unat_word_ariths(1))
  have d: "unat (((a AND m) - (b AND m)) AND m) = unat (a - b) mod (unat m + 1)"
    by (simp only: mask_diff_ring [OF m] unat_and_ring [OF m])
  have "a AND m = b AND m \<longleftrightarrow> unat (a - b) mod (unat m + 1) = 0"
  proof
    assume "a AND m = b AND m"
    with d show "unat (a - b) mod (unat m + 1) = 0" by simp
  next
    assume z: "unat (a - b) mod (unat m + 1) = 0"
    have "unat a mod (unat m + 1) = (unat b + unat (a - b)) mod (unat m + 1)"
      using unat_add_ring [OF m, of b "a - b"] by simp
    also have "\<dots> = unat b mod (unat m + 1)" using z by (metis mod_add_right_eq add_0_right)
    finally show "a AND m = b AND m"
      using unat_and_ring [OF m] by (metis word_unat_eq_iff)
  qed
  with s um d show ?thesis by (auto simp: wrapping_dist_def Let_def)
qed

lemma sq_dist:
  assumes "sq_inv sq"
  shows "\<exists>v. wrapping_dist dbg (sq_khead sq) (sq_ktail sq) (sq_kmask sq) = Done v \<and>
      unat v = (if sq_in_flight sq = 0 then sq_size sq
                else if sq_in_flight sq = sq_size sq then sq_size sq
                else sq_size sq - sq_in_flight sq)"
proof -
  let ?n = "sq_size sq" and ?f = "sq_in_flight sq" and ?d = "unat (sq_khead sq - sq_ktail sq)"
  have m: "ring_mask_ok (sq_kmask sq)" and f: "?f \<le> ?n" using assms by (simp_all add: sq_inv_def)
  have dvd: "?n dvd 2 ^ 32" using ring_size_dvd [OF m] by (simp add: sq_size_def)
  have d: "?d = (if ?f = 0 then 0 else 2 ^ 32 - ?f)"
    using unat_minus_swap [of "sq_khead sq" "sq_ktail sq"]
    by (auto simp: sq_in_flight_def unat_eq_zero)
  have f32: "?f \<le> 2 ^ 32" using f sq_size_le [OF assms] by simp
  have dm: "?d mod ?n = (if ?f = 0 \<or> ?f = ?n then 0 else ?n - ?f)"
  proof (cases "?f = 0 \<or> ?f = ?n")
    case True
    have "?n dvd 2 ^ 32 - ?n" using dvd by (simp add: dvd_diff_nat)
    with True d show ?thesis by auto
  next
    case False
    with f have lt: "?f < ?n" and pos: "0 < ?f" by auto
    obtain q where q: "2 ^ 32 = ?n * q" using dvd by (rule dvdE)
    then obtain q' where "q = Suc q'" by (cases q) auto
    with q lt have "2 ^ 32 - ?f = ?n * q' + (?n - ?f)" by simp
    then have "(2 ^ 32 - ?f) mod ?n = (?n - ?f) mod ?n" by simp
    with False d lt pos show ?thesis by simp
  qed
  have "\<exists>v. wrapping_dist dbg (sq_khead sq) (sq_ktail sq) (sq_kmask sq) = Done v \<and>
      unat v = (if ?d mod ?n = 0 then ?n else ?d mod ?n)"
    using wrapping_dist_result [OF m] unfolding sq_size_def .
  then show ?thesis using dm f sq_size_le [OF assms] by (auto split: if_splits)
qed

definition sq_free :: "sq_ring \<Rightarrow> nat" where
  "sq_free sq = (if sq_in_flight sq = 0 \<or> sq_in_flight sq = sq_size sq then sq_size sq
                 else sq_size sq - sq_in_flight sq)"

lemma sq_free_sqes_eq: "sq_inv sq \<Longrightarrow> sq_free_sqes dbg sq = Done (sq_free sq)"
  using sq_dist [of sq dbg] by (auto simp: sq_free_sqes_def sq_free_def)

lemma sq_free_view_eq:
  assumes "sq_inv sq"
  shows "sq_free_view dbg sq = Done \<lparr>rb_data = sq_sqes sq, rb_offset = unat (sq_ktail sq),
      rb_mask = unat (sq_kmask sq), rb_size = sq_free sq\<rparr>"
proof -
  have "sq_free sq \<le> unat (sq_kmask sq) + 1" by (simp add: sq_free_def sq_size_def)
  then show ?thesis using sq_dist [OF assms, of dbg] assms
    by (auto simp: sq_free_view_def rbm_new_def rb_common_new_def sq_free_def sq_inv_def ring_mask_ok_def)
qed

section \<open>Filling and queueing entries\<close>

definition sq_slot :: "sq_ring \<Rightarrow> nat \<Rightarrow> nat" where
  "sq_slot sq i = (unat (sq_ktail sq) + i) mod sq_size sq"

lemma sq_modify_eq:
  assumes inv: "sq_inv sq"
  shows "sq_modify dbg i f sq = Done (if i < sq_free sq
      then Some (sq\<lparr>sq_sqes := (sq_sqes sq)[sq_slot sq i := f (sq_sqes sq ! sq_slot sq i)]\<rparr>)
      else None)"
proof (cases "i < sq_free sq")
  case False
  then show ?thesis by (simp add: sq_modify_def sq_free_view_eq [OF inv] rb_get_def rb_len_def)
next
  case True
  have m: "ring_mask_ok (sq_kmask sq)" and len: "length (sq_sqes sq) = sq_size sq"
    using inv by (simp_all add: sq_inv_def)
  have k: "unat (sq_kmask sq) AND (unat (sq_kmask sq) + 1) = 0" using m by (simp add: ring_mask_ok_def)
  obtain e where e: "unat (sq_kmask sq) = 2 ^ e - 1" using mask_power [OF k] by blast
  have slot: "(unat (sq_ktail sq) + i) AND unat (sq_kmask sq) = sq_slot sq i"
    by (simp add: e and_mask_Suc sq_slot_def sq_size_def)
  moreover have "sq_slot sq i < length (sq_sqes sq)" using sq_size_le [OF inv] len
    by (simp add: sq_slot_def)
  ultimately show ?thesis using True
    by (simp add: sq_modify_def sq_free_view_eq [OF inv] rb_get_def rb_put_eq rb_len_def
        rb_get_unchecked_def Let_def)
qed

text \<open>As long as the free slots really are free, a change leaves the queued entries alone and
  the invariant intact.\<close>

lemma sq_modify_window:
  assumes inv: "sq_inv sq" and i: "sq_in_flight sq + i < sq_size sq"
    and "sq_modify dbg i f sq = Done (Some sq')"
  shows "sq_inv sq' \<and> sq_window sq' = sq_window sq \<and> sq_in_flight sq' = sq_in_flight sq \<and>
    sq_size sq' = sq_size sq \<and> sq_ktail sq' = sq_ktail sq"
proof -
  have "sq' = sq\<lparr>sq_sqes := (sq_sqes sq)[sq_slot sq i := f (sq_sqes sq ! sq_slot sq i)]\<rparr>"
    using assms(3) by (simp add: sq_modify_eq [OF inv] split: if_splits)
  moreover have "ring_mask_ok (sq_kmask sq)" using inv by (simp add: sq_inv_def)
  ultimately show ?thesis
    using inv ring_window_update [of "sq_kmask sq" "sq_ktail sq" "sq_khead sq" i] i
    by (simp add: sq_inv_def sq_defs sq_slot_def)
qed

text \<open>What the free slots hold, from the tail on.\<close>

definition sq_prepared :: "sq_ring \<Rightarrow> nat \<Rightarrow> sqe list" where
  "sq_prepared sq c = ring_free (sq_sqes sq) (sq_size sq) (sq_ktail sq) c"

lemma sq_modify_prepared:
  assumes inv: "sq_inv sq" and "i < c" and "c \<le> sq_size sq"
    and "sq_modify dbg i f sq = Done (Some sq')"
  shows "sq_prepared sq' c = (sq_prepared sq c)[i := f (sq_prepared sq c ! i)]"
proof -
  have eq: "sq' = sq\<lparr>sq_sqes := (sq_sqes sq)[sq_slot sq i := f (sq_sqes sq ! sq_slot sq i)]\<rparr>"
    using assms(4) by (simp add: sq_modify_eq [OF inv] split: if_splits)
  have "sq_prepared sq c ! i = sq_sqes sq ! sq_slot sq i"
    using assms(2) by (simp add: sq_prepared_def ring_free_def sq_slot_def)
  then show ?thesis using eq inv assms(2,3)
    by (simp add: sq_prepared_def sq_slot_def sq_size_def sq_inv_def ring_free_update)
qed

lemma sq_advance_window:
  assumes inv: "sq_inv sq" and c: "sq_in_flight sq + c \<le> sq_size sq"
    and adv: "sq_advance dbg (of_nat c) sq = Done sq'"
  shows "sq_inv sq' \<and> sq_window sq' = sq_window sq @ sq_prepared sq c \<and>
    sq_in_flight sq' = sq_in_flight sq + c \<and> sq_size sq' = sq_size sq"
proof -
  have sq': "sq' = sq\<lparr>sq_ktail := sq_ktail sq + of_nat c\<rparr>"
    using adv by (auto simp: sq_advance_def and_then_Done_iff dest: u32_add_Done)
  have c32: "unat (sq_ktail sq - sq_khead sq) + c < 2 ^ 32"
    using c sq_size_le [OF inv] by (simp add: sq_in_flight_def)
  have m: "ring_mask_ok (sq_kmask sq)" using inv by (simp add: sq_inv_def)
  have "sq_in_flight sq' = sq_in_flight sq + c"
    using dist_advance_tail [OF c32] by (simp add: sq' sq_in_flight_def)
  moreover have "sq_window sq' = sq_window sq @ sq_prepared sq c"
    using ring_window_append [OF m c32] by (simp add: sq' sq_defs sq_prepared_def)
  ultimately show ?thesis using inv c by (simp add: sq_inv_def sq' sq_size_def)
qed

section \<open>The queue as a first-in first-out channel\<close>

text \<open>The program fills the first free slot and makes it visible; the kernel reads entries
  through the indirection array and advances the head.\<close>

definition sq_push :: "bool \<Rightarrow> sqe \<Rightarrow> sq_ring \<Rightarrow> sq_ring option outcome" where
  "sq_push dbg x sq =
     and_then (sq_modify dbg 0 (\<lambda>_. x) sq) (\<lambda>r. case r of
         None \<Rightarrow> Done None
       | Some sq' \<Rightarrow> and_then (sq_advance dbg 1 sq') (\<lambda>sq''. Done (Some sq'')))"

definition sq_kernel_take :: "nat \<Rightarrow> sq_ring \<Rightarrow> sqe list \<times> sq_ring" where
  "sq_kernel_take n sq =
     (let c = min n (sq_in_flight sq)
      in (map (\<lambda>i. sq_sqes sq ! unat (sq_array sq ! ((unat (sq_khead sq) + i) mod sq_size sq))) [0..<c],
          sq\<lparr>sq_khead := sq_khead sq + of_nat c\<rparr>))"

definition sq_send :: "bool \<Rightarrow> sqe \<Rightarrow> sq_ring \<Rightarrow> sq_ring outcome" where
  "sq_send dbg x sq = and_then (sq_push dbg x sq) (\<lambda>r. case r of None \<Rightarrow> Panic | Some sq' \<Rightarrow> Done sq')"

definition sq_run :: "bool \<Rightarrow> sqe chan_event list \<Rightarrow> sq_ring \<Rightarrow> (sqe list \<times> sq_ring) outcome" where
  "sq_run dbg = chan_run (sq_send dbg) (\<lambda>n sq. Done (sq_kernel_take n sq))"

lemma sq_push_window:
  assumes inv: "sq_inv sq" and room: "sq_in_flight sq < sq_size sq"
  shows "\<exists>sq'. sq_push False x sq = Done (Some sq') \<and> sq_inv sq' \<and>
    sq_window sq' = sq_window sq @ [x] \<and> sq_in_flight sq' = sq_in_flight sq + 1 \<and>
    sq_size sq' = sq_size sq"
proof -
  have "0 < sq_free sq" using room by (auto simp: sq_free_def)
  then obtain sq1 where 1: "sq_modify False 0 (\<lambda>_. x) sq = Done (Some sq1)"
    by (simp add: sq_modify_eq [OF inv])
  obtain sq2 where 2: "sq_advance False 1 sq1 = Done sq2" by (simp add: sq_advance_def)
  have w: "sq_inv sq1" "sq_window sq1 = sq_window sq" "sq_in_flight sq1 = sq_in_flight sq"
    "sq_size sq1 = sq_size sq"
    using sq_modify_window [OF inv _ 1] room by auto
  have "length (sq_prepared sq 1) = 1" by (simp add: sq_prepared_def ring_free_def)
  then have "sq_prepared sq1 1 = [x]"
    using sq_modify_prepared [OF inv _ _ 1, of 1] room by (cases "sq_prepared sq 1") auto
  moreover have "sq_inv sq2 \<and> sq_window sq2 = sq_window sq1 @ sq_prepared sq1 1 \<and>
      sq_in_flight sq2 = sq_in_flight sq1 + 1 \<and> sq_size sq2 = sq_size sq1"
    using sq_advance_window [OF w(1), of 1 False] room w 2 by simp
  ultimately show ?thesis using 1 2 w by (simp add: sq_push_def)
qed

lemma sq_kernel_take_window:
  assumes inv: "sq_inv sq"
  shows "\<exists>out sq'. sq_kernel_take n sq = (out, sq') \<and> sq_inv sq' \<and>
    out @ sq_window sq' = sq_window sq \<and> sq_in_flight sq' = sq_in_flight sq - n \<and>
    sq_size sq' = sq_size sq"
proof -
  let ?c = "min n (sq_in_flight sq)" and ?sq = "snd (sq_kernel_take n sq)"
  have m: "ring_mask_ok (sq_kmask sq)" using inv by (simp add: sq_inv_def)
  have c: "?c \<le> unat (sq_ktail sq - sq_khead sq)" by (simp add: sq_in_flight_def)
  have arr: "unat (sq_array sq ! j) = j" if "j < sq_size sq" for j
  proof -
    have "map unat (sq_array sq) = [0..<sq_size sq]" using inv by (simp add: sq_inv_def)
    then have "length (sq_array sq) = sq_size sq" and "map unat (sq_array sq) ! j = j"
      using that by (metis length_map length_upt minus_nat.diff_0, simp)
    then show ?thesis using that by simp
  qed
  have out: "fst (sq_kernel_take n sq) = take ?c (sq_window sq)"
    using arr sq_size_le [OF inv]
    by (intro nth_equalityI) (simp_all add: sq_kernel_take_def Let_def sq_window_def ring_window_def sq_in_flight_def)
  have win: "sq_window ?sq = drop ?c (sq_window sq)"
    using ring_window_drop [OF m c] by (simp add: sq_kernel_take_def Let_def sq_defs)
  have fl: "sq_in_flight ?sq = sq_in_flight sq - n"
    using dist_advance_head [OF c] by (simp add: sq_kernel_take_def Let_def sq_in_flight_def)
  have "sq_size ?sq = sq_size sq" and "sq_inv ?sq"
    using inv fl by (auto simp: sq_inv_def sq_kernel_take_def Let_def sq_size_def)
  then show ?thesis using out win fl by (cases "sq_kernel_take n sq") simp
qed

interpretation sq: channel "sq_send False" "\<lambda>n sq. Done (sq_kernel_take n sq)" sq_inv sq_window sq_size
proof
  fix sq x
  assume "sq_inv sq" and "length (sq_window sq) < sq_size sq"
  then obtain sq' where "sq_push False x sq = Done (Some sq')" "sq_inv sq'" "sq_window sq' = sq_window sq @ [x]"
    "sq_size sq' = sq_size sq"
    using sq_push_window [of sq x] by auto
  then show "\<exists>s'. sq_send False x sq = Done s' \<and> sq_inv s' \<and> sq_window s' = sq_window sq @ [x] \<and>
      sq_size s' = sq_size sq"
    by (simp add: sq_send_def)
next
  fix sq n
  assume "sq_inv sq"
  from sq_kernel_take_window [OF this, of n]
  show "\<exists>out s'. Done (sq_kernel_take n sq) = Done (out, s') \<and> sq_inv s' \<and> out @ sq_window s' = sq_window sq \<and>
      length (sq_window s') = length (sq_window sq) - n \<and> sq_size s' = sq_size sq"
    by auto
qed

text \<open>On a full ring \<open>sqes\<close> hands out the slots of entries the kernel has not read yet:
  the push succeeds and overwrites the oldest entry.\<close>

lemma sq_push_full:
  assumes inv: "sq_inv sq" and full: "sq_in_flight sq = sq_size sq"
  shows "\<exists>sq'. sq_push False x sq = Done (Some sq') \<and>
    sq_sqes sq' ! (unat (sq_khead sq) mod sq_size sq) = x \<and> sq_khead sq' = sq_khead sq"
proof -
  have m: "ring_mask_ok (sq_kmask sq)" using inv by (simp add: sq_inv_def)
  have "unat (sq_ktail sq) mod sq_size sq = (unat (sq_khead sq) + sq_in_flight sq) mod sq_size sq"
    using unat_add_ring [OF m, of "sq_khead sq" "sq_ktail sq - sq_khead sq"]
    by (simp add: sq_size_def sq_in_flight_def)
  then have "sq_slot sq 0 = unat (sq_khead sq) mod sq_size sq" by (simp add: full sq_slot_def)
  moreover have "sq_slot sq 0 < length (sq_sqes sq)"
    using inv sq_size_le [OF inv] by (simp add: sq_slot_def sq_inv_def)
  moreover have "0 < sq_free sq" using full sq_size_le [OF inv] by (simp add: sq_free_def)
  ultimately show ?thesis by (simp add: sq_push_def sq_modify_eq [OF inv] sq_advance_def)
qed

text \<open>The same entries through \<open>into_iter\<close>: the offset of the view is the unmasked tail, so
  walking over it panics once the tail has passed the size of the ring.\<close>

lemma sq_free_view_iter_panics:
  assumes inv: "sq_inv sq" and "sq_size sq < unat (sq_ktail sq)"
  shows "and_then (sq_free_view dbg sq) rb_iter = Panic"
  using assms rb_iter_offset_outside [of "\<lparr>rb_data = sq_sqes sq, rb_offset = unat (sq_ktail sq),
      rb_mask = unat (sq_kmask sq), rb_size = sq_free sq\<rparr>"]
  by (simp add: sq_free_view_eq [OF inv] sq_inv_def ring_mask_ok_def sq_size_def)

section \<open>Submitting\<close>

text \<open>What a call of \<open>io_uring_enter\<close> may do to the rings, from its manual page: it advances
  the submission head over entries it consumed and appends to the completion ring.\<close>

definition kernel_keeps_sq :: "'k enter \<Rightarrow> bool" where
  "kernel_keeps_sq enter \<longleftrightarrow> (\<forall>fd n w fl u. case enter fd n w fl u of (ret, errno, u') \<Rightarrow>
     u_flags u' = u_flags u \<and> u_fd u' = u_fd u \<and>
     (\<exists>c kf. c \<le> sq_in_flight (u_sq u) \<and>
        u_sq u' = (u_sq u)\<lparr>sq_khead := sq_khead (u_sq u) + of_nat c, sq_kflags := kf\<rparr>))"

lemma sq_inv_kernel:
  assumes "sq_inv sq" and "c \<le> sq_in_flight sq"
  shows "sq_inv (sq\<lparr>sq_khead := sq_khead sq + of_nat c, sq_kflags := kf\<rparr>) \<and>
    sq_window (sq\<lparr>sq_khead := sq_khead sq + of_nat c, sq_kflags := kf\<rparr>) = drop c (sq_window sq)"
proof -
  have c: "c \<le> unat (sq_ktail sq - sq_khead sq)" using assms by (simp add: sq_in_flight_def)
  have m: "ring_mask_ok (sq_kmask sq)" using assms by (simp add: sq_inv_def)
  show ?thesis
    using assms dist_advance_head [OF c] ring_window_drop [OF m c]
    by (auto simp: sq_inv_def sq_defs)
qed

definition sq_unreported :: "sq_ring \<Rightarrow> nat" where
  "sq_unreported sq = unat (sq_ktail sq - sq_sqe_tail sq)"

lemma enter_cases:
  assumes "kernel_keeps_sq enter" and "enter fd n w fl u = (ret, errno, u')"
  obtains c kf where "c \<le> sq_in_flight (u_sq u)"
    and "u_sq u' = (u_sq u)\<lparr>sq_khead := sq_khead (u_sq u) + of_nat c, sq_kflags := kf\<rparr>"
    and "u_flags u' = u_flags u" and "u_fd u' = u_fd u"
proof -
  have "case enter fd n w fl u of (ret, errno, u') \<Rightarrow>
     u_flags u' = u_flags u \<and> u_fd u' = u_fd u \<and>
     (\<exists>c kf. c \<le> sq_in_flight (u_sq u) \<and>
        u_sq u' = (u_sq u)\<lparr>sq_khead := sq_khead (u_sq u) + of_nat c, sq_kflags := kf\<rparr>)"
    by (rule assms(1) [unfolded kernel_keeps_sq_def, THEN spec, THEN spec, THEN spec, THEN spec,
          THEN spec])
  with assms(2) that show ?thesis by auto
qed

text \<open>The arguments of the system call: whether it is made, and its flags.\<close>

definition sq_call_flags :: "'k uring \<Rightarrow> u32 \<Rightarrow> u32 option" where
  "sq_call_flags u wait_for =
     (case sq_enter_flags (u_sq u) (u_flags u) (of_nat (sq_unreported (u_sq u))) of
       Some f \<Rightarrow> Some ((if wait_for = 0 then 0 else Enter_GETEVENTS) OR f)
     | None \<Rightarrow> if wait_for = 0 then None else Some Enter_GETEVENTS)"

lemma sq_submit_and_wait_eq:
  "sq_submit_and_wait False enter wait_for u =
    (let n = sq_ktail (u_sq u) - sq_sqe_tail (u_sq u);
         settle = \<lambda>u'. (Inr (unat n), u'\<lparr>u_sq := (u_sq u')\<lparr>sq_sqe_tail := sq_ktail (u_sq u)\<rparr>\<rparr>)
     in Done (case sq_call_flags u wait_for of
          None \<Rightarrow> settle u
        | Some fl \<Rightarrow> (case enter (u_fd u) n wait_for fl u of (ret, errno, u') \<Rightarrow>
              if ret < 0 then (Inl (OsError errno), u') else settle u')))"
  by (simp add: sq_submit_and_wait_def sq_call_flags_def sq_unreported_def sysresult_def Let_def
      split: option.splits prod.splits)

lemma sq_submit_result:
  assumes k: "kernel_keeps_sq enter" and inv: "sq_inv (u_sq u)"
  shows "\<exists>r u' c. sq_submit_and_wait False enter wait_for u = Done (r, u') \<and> sq_inv (u_sq u') \<and>
    sq_window (u_sq u') = drop c (sq_window (u_sq u)) \<and> sq_ktail (u_sq u') = sq_ktail (u_sq u) \<and>
    (case r of Inl e \<Rightarrow> sq_unreported (u_sq u') = sq_unreported (u_sq u)
             | Inr n \<Rightarrow> n = sq_unreported (u_sq u) \<and> sq_unreported (u_sq u') = 0)"
proof -
  have settle: "sq_inv (sq\<lparr>sq_sqe_tail := t\<rparr>) = sq_inv sq"
    "sq_window (sq\<lparr>sq_sqe_tail := t\<rparr>) = sq_window sq" for sq t
    by (simp_all add: sq_inv_def sq_defs)
  show ?thesis
  proof (cases "sq_call_flags u wait_for")
    case None
    let ?u = "u\<lparr>u_sq := (u_sq u)\<lparr>sq_sqe_tail := sq_ktail (u_sq u)\<rparr>\<rparr>"
    from None have "sq_submit_and_wait False enter wait_for u = Done (Inr (sq_unreported (u_sq u)), ?u)"
      by (simp add: sq_submit_and_wait_eq Let_def sq_unreported_def)
    moreover have "sq_unreported (u_sq ?u) = 0" by (simp add: sq_unreported_def)
    ultimately show ?thesis using inv
      by (intro exI [of _ "Inr (sq_unreported (u_sq u))"] exI [of _ ?u] exI [of _ 0]) (simp add: settle)
  next
    case (Some fl)
    let ?n = "sq_ktail (u_sq u) - sq_sqe_tail (u_sq u)"
    obtain ret errno u1 where e: "enter (u_fd u) ?n wait_for fl u = (ret, errno, u1)"
      by (cases "enter (u_fd u) ?n wait_for fl u") auto
    obtain c kf where c: "c \<le> sq_in_flight (u_sq u)"
      and u1: "u_sq u1 = (u_sq u)\<lparr>sq_khead := sq_khead (u_sq u) + of_nat c, sq_kflags := kf\<rparr>"
      using enter_cases [OF k e] by metis
    have "sq_inv (u_sq u1)" "sq_window (u_sq u1) = drop c (sq_window (u_sq u))"
      using sq_inv_kernel [OF inv c] by (simp_all add: u1)
    moreover have "sq_ktail (u_sq u1) = sq_ktail (u_sq u)" "sq_unreported (u_sq u1) = sq_unreported (u_sq u)"
      by (simp_all add: u1 sq_unreported_def)
    ultimately have u1': "sq_inv (u_sq u1) \<and> sq_window (u_sq u1) = drop c (sq_window (u_sq u)) \<and>
        sq_ktail (u_sq u1) = sq_ktail (u_sq u) \<and> sq_unreported (u_sq u1) = sq_unreported (u_sq u)"
      by simp
    show ?thesis
    proof (cases "ret < 0")
      case True
      then have "sq_submit_and_wait False enter wait_for u = Done (Inl (OsError errno), u1)"
        by (simp add: sq_submit_and_wait_eq Some e Let_def)
      with u1' show ?thesis by (intro exI [of _ "Inl (OsError errno)"] exI [of _ u1] exI [of _ c]) simp
    next
      case False
      let ?u = "u1\<lparr>u_sq := (u_sq u1)\<lparr>sq_sqe_tail := sq_ktail (u_sq u)\<rparr>\<rparr>"
      from False have "sq_submit_and_wait False enter wait_for u = Done (Inr (sq_unreported (u_sq u)), ?u)"
        by (simp add: sq_submit_and_wait_eq Some e Let_def sq_unreported_def)
      moreover have "sq_unreported (u_sq ?u) = 0" using u1' by (simp add: sq_unreported_def)
      ultimately show ?thesis using u1'
        by (intro exI [of _ "Inr (sq_unreported (u_sq u))"] exI [of _ ?u] exI [of _ c]) (simp add: settle)
    qed
  qed
qed

text \<open>Once a submission has been reported as successful, a second one makes no system call,
  whatever the kernel left in the ring.\<close>

lemma sq_submit_settled:
  assumes "\<not> contains (u_flags u) Setup_SQPOLL" and "sq_unreported (u_sq u) = 0"
  shows "sq_submit False enter u = Done (Inr 0, u)"
proof -
  have "sq_ktail (u_sq u) = sq_sqe_tail (u_sq u)"
    using assms(2) by (simp add: sq_unreported_def unat_eq_zero)
  moreover have "sq_call_flags u 0 = None"
    using assms by (simp add: sq_call_flags_def sq_enter_flags_def)
  ultimately show ?thesis by (simp add: sq_submit_def sq_submit_and_wait_eq Let_def)
qed

section \<open>A ring of two entries\<close>

definition sq_demo :: sq_ring where
  "sq_demo = \<lparr>sq_khead = 0, sq_ktail = 0, sq_kmask = 1, sq_kentries = 2, sq_kflags = 0,
     sq_array = [0, 1], sq_sqes = [sqe_zeroed, sqe_zeroed], sq_sqe_head = 0, sq_sqe_tail = 0\<rparr>"

lemma sq_demo_inv: "sq_inv sq_demo" "sq_size sq_demo = 2" "sq_in_flight sq_demo = 0"
  by (simp_all add: sq_inv_def sq_defs sq_demo_def ring_mask_ok_def upt_rec)

text \<open>Two entries queued and not consumed: the ring is full.\<close>

definition sq_demo_full :: sq_ring where
  "sq_demo_full = sq_demo\<lparr>sq_ktail := 2\<rparr>"

lemma sq_demo_full_inv: "sq_inv sq_demo_full" "sq_size sq_demo_full = 2" "sq_in_flight sq_demo_full = 2"
  by (simp_all add: sq_inv_def sq_defs sq_demo_full_def sq_demo_def ring_mask_ok_def upt_rec)

text \<open>A kernel that consumes everything that is queued.\<close>

definition eager_kernel :: "'k enter" where
  "eager_kernel fd n w fl u =
     (int (sq_in_flight (u_sq u)), 0, u\<lparr>u_sq := (u_sq u)\<lparr>sq_khead := sq_ktail (u_sq u)\<rparr>\<rparr>)"

lemma eager_kernel_keeps_sq: "kernel_keeps_sq eager_kernel"
proof -
  have "\<exists>c kf. c \<le> sq_in_flight sq \<and>
      sq\<lparr>sq_khead := sq_ktail sq\<rparr> = sq\<lparr>sq_khead := sq_khead sq + of_nat c, sq_kflags := kf\<rparr>" for sq
    by (intro exI [of _ "sq_in_flight sq"] exI [of _ "sq_kflags sq"]) (simp add: sq_in_flight_def)
  then show ?thesis by (simp add: kernel_keeps_sq_def eager_kernel_def)
qed

section \<open>Properties\<close>

text \<open>C8: The submission ring is a bounded FIFO channel between program and kernel across the
  wrap-around of the 32-bit counters: over any run of pushes and kernel reads that never
  pushes into a full ring, what the kernel has read followed by what is still queued is the
  initial content followed by everything pushed.\<close>

theorem sq_channel_fifo:
  assumes "sq_inv sq" and "admissible (sq_size sq) (sq_in_flight sq) evs"
  shows "\<exists>out sq'. sq_run False evs sq = Done (out, sq') \<and> sq_inv sq' \<and>
    out @ sq_window sq' = sq_window sq @ sent evs"
  using sq.run_fifo [OF assms(1), of evs] assms(2) by (auto simp: sq_run_def)

theorem sq_channel_fifo_witness:
  "\<exists>out sq'. sq_run False [Send sqe_zeroed, Send (sqe_zeroed\<lparr>sqe_len := 7\<rparr>), Recv 1, Send sqe_zeroed] sq_demo
      = Done (out, sq') \<and> sq_inv sq' \<and>
    out @ sq_window sq' = sq_window sq_demo @ [sqe_zeroed, sqe_zeroed\<lparr>sqe_len := 7\<rparr>, sqe_zeroed]"
  using sq_channel_fifo [of sq_demo "[Send sqe_zeroed, Send (sqe_zeroed\<lparr>sqe_len := 7\<rparr>), Recv 1, Send sqe_zeroed]"]
  by (simp add: sq_demo_inv)

theorem sq_free_sqes_count:
  assumes "sq_inv sq"
  shows "sq_free_sqes dbg sq = Done (if sq_in_flight sq = sq_size sq then sq_size sq
                                     else sq_size sq - sq_in_flight sq)"
  using sq_free_sqes_eq [OF assms] by (auto simp: sq_free_def)

theorem sq_free_sqes_count_witness:
  "sq_free_sqes True sq_demo = Done 2 \<and> sq_free_sqes True sq_demo_full \<noteq> Done 0"
  using sq_free_sqes_count [OF sq_demo_inv(1), of True] sq_free_sqes_eq [OF sq_demo_full_inv(1), of True]
  by (simp add: sq_demo_inv sq_demo_full_inv sq_free_def)

theorem sq_full_ring_overwritten:
  assumes "sq_inv sq" and "sq_in_flight sq = sq_size sq"
  shows "\<exists>sq'. sq_push False x sq = Done (Some sq') \<and>
    sq_sqes sq' ! (unat (sq_khead sq) mod sq_size sq) = x \<and> sq_khead sq' = sq_khead sq"
  by (rule sq_push_full [OF assms])

theorem sq_full_ring_overwritten_witness:
  "\<exists>sq'. sq_push False (sqe_zeroed\<lparr>sqe_len := 7\<rparr>) sq_demo_full = Done (Some sq') \<and>
    sq_sqes sq' ! 0 = sqe_zeroed\<lparr>sqe_len := 7\<rparr> \<and> sq_khead sq' = 0"
  using sq_full_ring_overwritten [OF sq_demo_full_inv(1), of "sqe_zeroed\<lparr>sqe_len := 7\<rparr>"]
  by (simp add: sq_demo_full_inv) (simp add: sq_demo_full_def sq_demo_def)

theorem sq_submit_reports:
  assumes "kernel_keeps_sq enter" and "sq_inv (u_sq u)"
  shows "\<exists>r u' c. sq_submit_and_wait False enter wait_for u = Done (r, u') \<and> sq_inv (u_sq u') \<and>
    sq_window (u_sq u') = drop c (sq_window (u_sq u)) \<and> sq_ktail (u_sq u') = sq_ktail (u_sq u) \<and>
    (case r of Inl e \<Rightarrow> sq_unreported (u_sq u') = sq_unreported (u_sq u)
             | Inr n \<Rightarrow> n = sq_unreported (u_sq u) \<and> sq_unreported (u_sq u') = 0)"
  by (rule sq_submit_result [OF assms])

definition ring_of :: "sq_ring \<Rightarrow> cq_ring \<Rightarrow> unit uring" where
  "ring_of sq cq = \<lparr>u_sq = sq, u_cq = cq, u_flags = 0, u_fd = 3, u_kernel = ()\<rparr>"

definition ring_demo_full :: "unit uring" where
  "ring_demo_full = ring_of sq_demo_full \<lparr>cq_khead = 0, cq_ktail = 0, cq_kmask = 0, cq_cqes = []\<rparr>"

theorem sq_submit_reports_witness:
  "\<exists>r u' c. sq_submit_and_wait False eager_kernel 0 ring_demo_full = Done (r, u') \<and> sq_inv (u_sq u') \<and>
    sq_window (u_sq u') = drop c (sq_window (u_sq ring_demo_full)) \<and>
    sq_ktail (u_sq u') = sq_ktail (u_sq ring_demo_full) \<and>
    (case r of Inl e \<Rightarrow> sq_unreported (u_sq u') = sq_unreported (u_sq ring_demo_full)
             | Inr n \<Rightarrow> n = sq_unreported (u_sq ring_demo_full) \<and> sq_unreported (u_sq u') = 0)"
proof (rule sq_submit_reports [OF eager_kernel_keeps_sq])
  show "sq_inv (u_sq ring_demo_full)"
    using sq_demo_full_inv(1) by (simp add: ring_demo_full_def ring_of_def)
qed

theorem sq_submit_twice_idle:
  assumes "\<not> contains (u_flags u) Setup_SQPOLL" and "sq_unreported (u_sq u) = 0"
  shows "sq_submit False enter u = Done (Inr 0, u)"
  by (rule sq_submit_settled [OF assms])

theorem sq_submit_twice_idle_witness:
  "sq_submit False eager_kernel (ring_of (sq_demo_full\<lparr>sq_sqe_tail := 2\<rparr>)
      \<lparr>cq_khead = 0, cq_ktail = 0, cq_kmask = 0, cq_cqes = []\<rparr>) =
    Done (Inr 0, ring_of (sq_demo_full\<lparr>sq_sqe_tail := 2\<rparr>)
      \<lparr>cq_khead = 0, cq_ktail = 0, cq_kmask = 0, cq_cqes = []\<rparr>) \<and>
    length (sq_window (sq_demo_full\<lparr>sq_sqe_tail := 2\<rparr>)) = 2"
  using sq_submit_twice_idle [of "ring_of (sq_demo_full\<lparr>sq_sqe_tail := 2\<rparr>)
      \<lparr>cq_khead = 0, cq_ktail = 0, cq_kmask = 0, cq_cqes = []\<rparr>" eager_kernel]
  by (simp add: ring_of_def contains_def Setup_SQPOLL_def IORING_SETUP_SQPOLL_def sq_unreported_def
      sq_demo_full_def sq_demo_def sq_in_flight_def)

theorem sq_iteration_panics:
  assumes "sq_inv sq" and "sq_size sq < unat (sq_ktail sq)"
  shows "and_then (sq_free_view dbg sq) rb_iter = Panic"
  by (rule sq_free_view_iter_panics [OF assms])

theorem sq_iteration_panics_witness:
  "and_then (sq_free_view True (sq_demo\<lparr>sq_khead := 3, sq_ktail := 3\<rparr>)) rb_iter = Panic"
  using sq_iteration_panics [of "sq_demo\<lparr>sq_khead := 3, sq_ktail := 3\<rparr>" True]
  by (simp add: sq_inv_def sq_defs sq_demo_def ring_mask_ok_def upt_rec)

end
