(* ===== verification/Comp_Queue.thy ===== *)
theory Comp_Queue
  imports Uring_State
begin

text \<open>
  \<open>uring/src/cqe.rs\<close>: the completion queue.  The kernel appends entries at the tail, the
  program reads the window between head and tail and advances the head over what it processed.
\<close>

section \<open>Operations\<close>

definition cq_available :: "bool \<Rightarrow> cq_ring \<Rightarrow> cqe ringbuf outcome" where
  "cq_available dbg cq =
     and_then (u32_sub dbg (cq_ktail cq) (cq_khead cq)) (\<lambda>n.
       rb_new (cq_cqes cq) (unat (cq_khead cq AND cq_kmask cq)) (unat n) (unat (cq_kmask cq)))"

definition cq_advance :: "bool \<Rightarrow> nat \<Rightarrow> cq_ring \<Rightarrow> cq_ring outcome" where
  "cq_advance dbg n cq =
     assert_then (dbg \<longrightarrow> n \<le> 2 ^ 32 - 1)
       (and_then (u32_add dbg (cq_khead cq) (of_nat n)) (\<lambda>h.
          assert_then (dbg \<longrightarrow> h \<le> cq_ktail cq) (Done (cq\<lparr>cq_khead := h\<rparr>))))"

definition cq_wait_n :: "'k enter \<Rightarrow> nat \<Rightarrow> 'k uring \<Rightarrow> (io_error + unit) \<times> 'k uring" where
  "cq_wait_n enter n u =
     (case enter (u_fd u) 0 (of_nat n) Enter_GETEVENTS u of
        (ret, errno, u') \<Rightarrow>
          (case sysresult ret errno of Inl e \<Rightarrow> (Inl e, u') | Inr r \<Rightarrow> (Inr (), u')))"

definition cq_wait :: "'k enter \<Rightarrow> 'k uring \<Rightarrow> (io_error + unit) \<times> 'k uring" where
  "cq_wait enter u = cq_wait_n enter 1 u"

definition cq_has_next :: "cq_ring \<Rightarrow> bool" where
  "cq_has_next cq \<longleftrightarrow> cq_khead cq < cq_ktail cq"

text \<open>Accessors of \<open>CompletionQueueEvent\<close>.\<close>

definition ce_user_data :: "cqe \<Rightarrow> u64" where
  "ce_user_data c = cqe_user_data c"

definition ce_buf_id :: "cqe \<Rightarrow> u16 option" where
  "ce_buf_id c = buf_id (cqe_flags c)"

definition ce_result :: "cqe \<Rightarrow> io_error + nat" where
  "ce_result c = resultify (cqe_res c)"

section \<open>The window of completions\<close>

definition cq_size :: "cq_ring \<Rightarrow> nat" where
  "cq_size cq = unat (cq_kmask cq) + 1"

definition cq_pending :: "cq_ring \<Rightarrow> nat" where
  "cq_pending cq = unat (cq_ktail cq - cq_khead cq)"

definition cq_window :: "cq_ring \<Rightarrow> cqe list" where
  "cq_window cq = ring_window (cq_cqes cq) (cq_size cq) (cq_khead cq) (cq_ktail cq)"

definition cq_inv :: "cq_ring \<Rightarrow> bool" where
  "cq_inv cq \<longleftrightarrow> ring_mask_ok (cq_kmask cq) \<and> length (cq_cqes cq) = cq_size cq \<and>
     cq_pending cq \<le> cq_size cq"

lemmas cq_defs = cq_size_def cq_pending_def cq_window_def

lemma length_cq_window [simp]: "length (cq_window cq) = cq_pending cq"
  by (simp add: cq_defs)

lemma cq_available_window:
  assumes inv: "cq_inv cq"
  shows "\<exists>b. cq_available False cq = Done b \<and> rb_ok b \<and> rb_len b = cq_pending cq \<and>
    rb_iter b = Done (cq_window cq)"
proof -
  let ?b = "\<lparr>rb_data = cq_cqes cq, rb_offset = unat (cq_khead cq AND cq_kmask cq),
    rb_mask = unat (cq_kmask cq), rb_size = cq_pending cq\<rparr>"
  have m: "ring_mask_ok (cq_kmask cq)" and len: "length (cq_cqes cq) = unat (cq_kmask cq) + 1"
    and p: "cq_pending cq \<le> unat (cq_kmask cq) + 1"
    using inv by (simp_all add: cq_inv_def cq_size_def)
  have off: "unat (cq_khead cq AND cq_kmask cq) = unat (cq_khead cq) mod (unat (cq_kmask cq) + 1)"
    by (rule unat_and_ring [OF m])
  then have ok: "rb_ok ?b"
    using m len p by (simp add: rb_ok_def ring_mask_ok_def less_Suc_eq_le [symmetric])
  have "cq_available False cq = Done ?b"
    using m p by (simp add: cq_available_def rb_new_def rb_common_new_def cq_pending_def ring_mask_ok_def)
  moreover have "rb_iter ?b = Done (cq_window cq)"
    unfolding rb_iter_nth [OF ok]
    by (simp add: cq_window_def ring_window_def cq_size_def cq_pending_def off mod_add_left_eq)
  ultimately show ?thesis using ok by (auto simp: rb_len_def)
qed

lemma cq_advance_window:
  assumes inv: "cq_inv cq" and c: "c \<le> cq_pending cq"
  shows "\<exists>cq'. cq_advance False c cq = Done cq' \<and> cq_inv cq' \<and>
    cq_window cq' = drop c (cq_window cq) \<and> cq_pending cq' = cq_pending cq - c \<and>
    cq_size cq' = cq_size cq"
proof -
  have c': "c \<le> unat (cq_ktail cq - cq_khead cq)" using c by (simp add: cq_pending_def)
  have m: "ring_mask_ok (cq_kmask cq)" using inv by (simp add: cq_inv_def)
  show ?thesis
    using inv dist_advance_head [OF c'] ring_window_drop [OF m c']
    by (auto simp: cq_advance_def cq_inv_def cq_defs)
qed

text \<open>The comparison of \<open>has_next\<close> is on the wrapping positions themselves: it is right as
  long as the positions have not wrapped between head and tail.\<close>

lemma cq_has_next_iff:
  "cq_has_next cq \<longleftrightarrow> 0 < cq_pending cq \<and> unat (cq_khead cq) + cq_pending cq < 2 ^ 32"
proof -
  have "unat (cq_ktail cq) < 2 ^ 32" and "unat (cq_khead cq) < 2 ^ 32"
    using unsigned_less [of "cq_ktail cq", where 'a = nat]
      unsigned_less [of "cq_khead cq", where 'a = nat] by simp_all
  then show ?thesis
    by (auto simp: cq_has_next_def cq_pending_def word_less_nat_alt unat_sub_if')
qed

section \<open>The queue as a first-in first-out channel\<close>

text \<open>The kernel posts completions while there is room; the program walks over the available
  ones, processes the first \<open>n\<close> and advances.\<close>

definition cq_kernel_post :: "cqe \<Rightarrow> cq_ring \<Rightarrow> cq_ring" where
  "cq_kernel_post c cq =
     cq\<lparr>cq_cqes := (cq_cqes cq)[unat (cq_ktail cq) mod cq_size cq := c],
        cq_ktail := cq_ktail cq + 1\<rparr>"

definition cq_reap :: "bool \<Rightarrow> nat \<Rightarrow> cq_ring \<Rightarrow> (cqe list \<times> cq_ring) outcome" where
  "cq_reap dbg n cq =
     and_then (cq_available dbg cq) (\<lambda>b. and_then (rb_iter b) (\<lambda>cs.
       let k = min n (rb_len b)
       in and_then (cq_advance dbg k cq) (\<lambda>cq'. Done (take k cs, cq'))))"

definition cq_run :: "bool \<Rightarrow> cqe chan_event list \<Rightarrow> cq_ring \<Rightarrow> (cqe list \<times> cq_ring) outcome" where
  "cq_run dbg = chan_run (\<lambda>c cq. Done (cq_kernel_post c cq)) (cq_reap dbg)"

lemma cq_post_window:
  assumes inv: "cq_inv cq" and room: "cq_pending cq < cq_size cq"
  shows "cq_inv (cq_kernel_post c cq) \<and> cq_window (cq_kernel_post c cq) = cq_window cq @ [c] \<and>
    cq_pending (cq_kernel_post c cq) = cq_pending cq + 1 \<and>
    cq_size (cq_kernel_post c cq) = cq_size cq"
proof -
  let ?n = "unat (cq_kmask cq) + 1" and ?xs = "(cq_cqes cq)[unat (cq_ktail cq) mod cq_size cq := c]"
  have m: "ring_mask_ok (cq_kmask cq)" and len: "length (cq_cqes cq) = ?n"
    using inv by (simp_all add: cq_inv_def cq_size_def)
  have r32: "unat (cq_ktail cq - cq_khead cq) + 1 < 2 ^ 32"
    using m room by (simp add: ring_mask_ok_def cq_size_def cq_pending_def)
  have "ring_window ?xs ?n (cq_khead cq) (cq_ktail cq + 1)
      = ring_window ?xs ?n (cq_khead cq) (cq_ktail cq) @ ring_free ?xs ?n (cq_ktail cq) 1"
    using ring_window_append [OF m r32] by simp
  moreover have "ring_window ?xs ?n (cq_khead cq) (cq_ktail cq)
      = ring_window (cq_cqes cq) ?n (cq_khead cq) (cq_ktail cq)"
    using ring_window_update [OF m, of "cq_ktail cq" "cq_khead cq" 0] room
    by (simp add: cq_size_def cq_pending_def)
  moreover have "ring_free ?xs ?n (cq_ktail cq) 1 = [c]"
    using len by (simp add: ring_free_def cq_size_def)
  ultimately have "cq_window (cq_kernel_post c cq) = cq_window cq @ [c]"
    by (simp add: cq_window_def cq_kernel_post_def cq_size_def)
  moreover have "cq_pending (cq_kernel_post c cq) = cq_pending cq + 1"
    using dist_advance_tail [OF r32] by (simp add: cq_kernel_post_def cq_pending_def)
  ultimately show ?thesis using inv room
    by (simp add: cq_inv_def cq_kernel_post_def cq_size_def)
qed

lemma cq_reap_window:
  assumes inv: "cq_inv cq"
  shows "\<exists>out cq'. cq_reap False n cq = Done (out, cq') \<and> cq_inv cq' \<and>
    out @ cq_window cq' = cq_window cq \<and> cq_pending cq' = cq_pending cq - n \<and>
    cq_size cq' = cq_size cq"
proof -
  obtain b where b: "cq_available False cq = Done b" "rb_len b = cq_pending cq"
    "rb_iter b = Done (cq_window cq)"
    using cq_available_window [OF inv] by blast
  obtain cq' where "cq_advance False (min n (cq_pending cq)) cq = Done cq'" "cq_inv cq'"
    "cq_window cq' = drop (min n (cq_pending cq)) (cq_window cq)"
    "cq_pending cq' = cq_pending cq - min n (cq_pending cq)" "cq_size cq' = cq_size cq"
    using cq_advance_window [OF inv, of "min n (cq_pending cq)"] by auto
  with b show ?thesis by (simp add: cq_reap_def Let_def)
qed

interpretation cq: channel "\<lambda>c cq. Done (cq_kernel_post c cq)" "cq_reap False" cq_inv cq_window cq_size
proof
  fix cq c
  assume "cq_inv cq" and "length (cq_window cq) < cq_size cq"
  then show "\<exists>s'. Done (cq_kernel_post c cq) = Done s' \<and> cq_inv s' \<and> cq_window s' = cq_window cq @ [c] \<and>
      cq_size s' = cq_size cq"
    using cq_post_window [of cq c] by simp
next
  fix cq n
  assume "cq_inv cq"
  from cq_reap_window [OF this, of n]
  show "\<exists>out s'. cq_reap False n cq = Done (out, s') \<and> cq_inv s' \<and> out @ cq_window s' = cq_window cq \<and>
      length (cq_window s') = length (cq_window cq) - n \<and> cq_size s' = cq_size cq"
    by auto
qed

text \<open>What a call of \<open>io_uring_enter\<close> may do to the completion ring.\<close>

definition kernel_keeps_cq :: "'k enter \<Rightarrow> bool" where
  "kernel_keeps_cq enter \<longleftrightarrow> (\<forall>fd n w fl u. case enter fd n w fl u of (ret, errno, u') \<Rightarrow>
     cq_inv (u_cq u) \<longrightarrow> cq_inv (u_cq u') \<and> (\<exists>new. cq_window (u_cq u') = cq_window (u_cq u) @ new))"

lemma enter_keeps_cq:
  assumes "kernel_keeps_cq enter" and "enter fd n w fl u = (ret, errno, u')" and "cq_inv (u_cq u)"
  shows "cq_inv (u_cq u') \<and> (\<exists>new. cq_window (u_cq u') = cq_window (u_cq u) @ new)"
proof -
  have "case enter fd n w fl u of (ret, errno, u') \<Rightarrow>
     cq_inv (u_cq u) \<longrightarrow> cq_inv (u_cq u') \<and> (\<exists>new. cq_window (u_cq u') = cq_window (u_cq u) @ new)"
    by (rule assms(1) [unfolded kernel_keeps_cq_def, THEN spec, THEN spec, THEN spec, THEN spec,
          THEN spec])
  with assms(2,3) show ?thesis by simp
qed

lemma cq_wait_keeps:
  assumes "kernel_keeps_cq enter" and "cq_inv (u_cq u)" and "cq_wait_n enter n u = (r, u')"
  shows "cq_inv (u_cq u') \<and> (\<exists>new. cq_window (u_cq u') = cq_window (u_cq u) @ new)"
proof -
  obtain ret errno u1 where e: "enter (u_fd u) 0 (of_nat n) Enter_GETEVENTS u = (ret, errno, u1)"
    by (cases "enter (u_fd u) 0 (of_nat n) Enter_GETEVENTS u") auto
  then have "u' = u1" using assms(3) by (simp add: cq_wait_n_def split: sum.splits)
  with enter_keeps_cq [OF assms(1) e assms(2)] show ?thesis by simp
qed

section \<open>A ring of two entries\<close>

definition cqe_demo :: "u64 \<Rightarrow> 32 word \<Rightarrow> u32 \<Rightarrow> cqe" where
  "cqe_demo d r fl = \<lparr>cqe_user_data = d, cqe_res = r, cqe_flags = fl\<rparr>"

definition cq_demo :: cq_ring where
  "cq_demo = \<lparr>cq_khead = 0, cq_ktail = 0, cq_kmask = 1, cq_cqes = [cqe_demo 0 0 0, cqe_demo 0 0 0]\<rparr>"

lemma cq_demo_inv: "cq_inv cq_demo" "cq_size cq_demo = 2" "cq_pending cq_demo = 0"
  by (simp_all add: cq_inv_def cq_defs cq_demo_def ring_mask_ok_def)

section \<open>Properties\<close>

text \<open>C9: The completion ring is a bounded FIFO channel: over any run of kernel posts and reaps
  that never overfills the ring, the entries the program read followed by those still pending
  are the initial content followed by everything posted, in order.\<close>

theorem cq_channel_fifo:
  assumes "cq_inv cq" and "admissible (cq_size cq) (cq_pending cq) evs"
  shows "\<exists>out cq'. cq_run False evs cq = Done (out, cq') \<and> cq_inv cq' \<and>
    out @ cq_window cq' = cq_window cq @ sent evs"
  using cq.run_fifo [OF assms(1), of evs] assms(2) by (auto simp: cq_run_def)

theorem cq_channel_fifo_witness:
  "\<exists>out cq'. cq_run False [Send (cqe_demo 1 0 0), Send (cqe_demo 2 0 0), Recv 1, Send (cqe_demo 3 0 0)] cq_demo
      = Done (out, cq') \<and> cq_inv cq' \<and>
    out @ cq_window cq' = cq_window cq_demo @ [cqe_demo 1 0 0, cqe_demo 2 0 0, cqe_demo 3 0 0]"
  using cq_channel_fifo [of cq_demo "[Send (cqe_demo 1 0 0), Send (cqe_demo 2 0 0), Recv 1, Send (cqe_demo 3 0 0)]"]
  by (simp add: cq_demo_inv)

theorem cq_has_next_exact:
  "cq_has_next cq \<longleftrightarrow> cq_window cq \<noteq> [] \<and> unat (cq_khead cq) + length (cq_window cq) < 2 ^ 32"
  using cq_has_next_iff [of cq] by (metis length_cq_window length_greater_0_conv)

end
