(* ===== verification/Io_Context.thy ===== *)
theory Io_Context
  imports Slotmap Fixed_Vec Sub_Queue Comp_Queue
begin

text \<open>
  \<open>hamerkop/src/executor/mod.rs\<close> and the \<open>IOContext\<close> of
  \<open>hamerkop/src/executor/handle.rs\<close>: the two queues, the table of completions somebody waits
  for, the buffer pool, and the processing of completion queue entries.  A future is a value of
  type \<open>'f\<close>.  A result \<open>None\<close> stands for a loop that does not end.
\<close>

section \<open>Computations that may not end\<close>

definition obind :: "'a outcome option \<Rightarrow> ('a \<Rightarrow> 'b outcome option) \<Rightarrow> 'b outcome option" where
  "obind x f = Option.bind x (\<lambda>r. case r of Done a \<Rightarrow> f a | Panic \<Rightarrow> Some Panic | Undef \<Rightarrow> Some Undef)"

lemma obind_simps [simp]:
  "obind None f = None" "obind (Some (Done a)) f = f a"
  "obind (Some Panic) f = Some Panic" "obind (Some Undef) f = Some Undef"
  by (simp_all add: obind_def)

lemma obind_mono [partial_function_mono]:
  assumes f: "mono_option f" and g: "\<And>y. mono_option (\<lambda>x. g y x)"
  shows "mono_option (\<lambda>x. obind (f x) (\<lambda>y. g y x))"
  unfolding obind_def
proof (rule bind_mono [OF f])
  fix r
  show "mono_option (\<lambda>x. case r of Done a \<Rightarrow> g a x | Panic \<Rightarrow> Some Panic | Undef \<Rightarrow> Some Undef)"
    using g by (cases r) (simp_all add: monotone_def option.leq_refl)
qed

section \<open>State\<close>

definition NO_TASK_SENTINEL :: nat where
  "NO_TASK_SENTINEL = USIZE_MAX"

definition DEAD_TASK_SENTINEL :: nat where
  "DEAD_TASK_SENTINEL = USIZE_MAX - 1"

lemma sentinels_differ [simp]:
  "NO_TASK_SENTINEL \<noteq> DEAD_TASK_SENTINEL" "DEAD_TASK_SENTINEL \<noteq> NO_TASK_SENTINEL"
  by (simp_all add: NO_TASK_SENTINEL_def DEAD_TASK_SENTINEL_def USIZE_MAX_def)

datatype cleanup_action = CleanupNone | DeleteBufferOnError nat

record completion_event =
  cev_cqe :: "cqe option"
  cev_task :: nat
  cev_action :: cleanup_action

definition completion_event_new :: "nat \<Rightarrow> completion_event" where
  "completion_event_new task = \<lparr>cev_cqe = None, cev_task = task, cev_action = CleanupNone\<rparr>"

text \<open>\<open>io_recv_dist\<close> lists the values inserted into the metric \<open>RECV_CQE_DIST\<close>.\<close>

record ('f, 'k) ioctx =
  io_ring :: "'k uring"
  io_created :: "'f list"
  io_completions :: "completion_event slotmap"
  io_woken :: "nat list"
  io_buffers :: "u8 fixedvec slotmap"
  io_bufsize :: nat
  io_queued :: nat
  io_recv_dist :: "nat list"

abbreviation io_sq :: "('f, 'k) ioctx \<Rightarrow> sq_ring" where
  "io_sq ctx \<equiv> u_sq (io_ring ctx)"

abbreviation io_cq :: "('f, 'k) ioctx \<Rightarrow> cq_ring" where
  "io_cq ctx \<equiv> u_cq (io_ring ctx)"

definition io_has_queued :: "('f, 'k) ioctx \<Rightarrow> bool" where
  "io_has_queued ctx \<longleftrightarrow> io_queued ctx \<noteq> 0"

section \<open>Processing completions\<close>

text \<open>\<open>queue_func\<close> receives the list \<open>woken\<close> and the event, and may change the state \<open>'q\<close>
  its closure captured.\<close>

type_synonym 'q queue_fn = "nat list \<Rightarrow> completion_event \<Rightarrow> 'q \<Rightarrow> nat list \<times> 'q"

definition process_cqe :: "'q queue_fn \<Rightarrow> cqe \<Rightarrow> 'q \<Rightarrow> ('f, 'k) ioctx \<Rightarrow> ('q \<times> ('f, 'k) ioctx) outcome" where
  "process_cqe qf cqe q ctx =
     (let cqid = unat (ce_user_data cqe)
      in case sm_get (io_completions ctx) cqid of
           None \<Rightarrow> Done (q, ctx)
         | Some ce0 \<Rightarrow>
             (let ce = ce0\<lparr>cev_cqe := Some cqe\<rparr>;
                  ctx = ctx\<lparr>io_completions := sm_set (io_completions ctx) cqid ce\<rparr>
              in if cev_task ce = NO_TASK_SENTINEL then Done (q, ctx)
                 else if cev_task ce = DEAD_TASK_SENTINEL then
                   (case sm_remove (io_completions ctx) cqid of
                      (None, _) \<Rightarrow> Panic
                    | (Some ce, comps) \<Rightarrow>
                        (let ctx = ctx\<lparr>io_completions := comps\<rparr>
                         in case cev_action ce of
                              CleanupNone \<Rightarrow> Done (q, ctx)
                            | DeleteBufferOnError bufid \<Rightarrow>
                                (case ce_result cqe of
                                   Inl _ \<Rightarrow> Done (q, ctx\<lparr>io_buffers := snd (sm_remove (io_buffers ctx) bufid)\<rparr>)
                                 | Inr _ \<Rightarrow> Done (q, ctx))))
                 else (case qf (io_woken ctx) ce q of
                         (woken, q') \<Rightarrow> Done (q', ctx\<lparr>io_woken := woken\<rparr>))))"

fun process_loop :: "'q queue_fn \<Rightarrow> cqe list \<Rightarrow> 'q \<Rightarrow> ('f, 'k) ioctx \<Rightarrow> ('q \<times> ('f, 'k) ioctx) outcome" where
  "process_loop qf [] q ctx = Done (q, ctx)"
| "process_loop qf (c # cs) q ctx =
     and_then (process_cqe qf c q ctx) (\<lambda>(q', ctx'). process_loop qf cs q' ctx')"

definition process_cqes :: "bool \<Rightarrow> 'q queue_fn \<Rightarrow> 'q \<Rightarrow> ('f, 'k) ioctx \<Rightarrow> ('q \<times> ('f, 'k) ioctx) outcome" where
  "process_cqes dbg qf q ctx =
     and_then (cq_available dbg (io_cq ctx)) (\<lambda>available.
       let cnt = rb_len available; ctx = ctx\<lparr>io_recv_dist := io_recv_dist ctx @ [cnt]\<rparr>
       in and_then (rb_iter available) (\<lambda>cqes.
          and_then (process_loop qf cqes q ctx) (\<lambda>(q', ctx').
          and_then (cq_advance dbg cnt (io_cq ctx')) (\<lambda>cq'.
            Done (q', ctx'\<lparr>io_ring := (io_ring ctx')\<lparr>u_cq := cq'\<rparr>\<rparr>)))))"

text \<open>The closure of \<open>IOContext::submit\<close>.\<close>

definition wake_later :: "unit queue_fn" where
  "wake_later woken ce q = (woken @ [cev_task ce], q)"

section \<open>Submitting\<close>

definition EBUSY :: int where
  "EBUSY = 16"

definition EAGAIN :: int where
  "EAGAIN = 11"

definition raw_os_error :: "io_error \<Rightarrow> int option" where
  "raw_os_error e = (case e of OsError n \<Rightarrow> Some n | Custom _ _ \<Rightarrow> None)"

definition must_retry :: "io_error + nat \<Rightarrow> bool" where
  "must_retry r = (case r of Inl e \<Rightarrow> raw_os_error e = Some EBUSY \<or> raw_os_error e = Some EAGAIN
                   | Inr _ \<Rightarrow> False)"

partial_function (option) io_submit ::
  "bool \<Rightarrow> 'k enter \<Rightarrow> u32 \<Rightarrow> ('f, 'k) ioctx \<Rightarrow> ((io_error + unit) \<times> ('f, 'k) ioctx) outcome option" where
  "io_submit dbg enter wait_for ctx =
     obind (Some (sq_submit_and_wait dbg enter wait_for (io_ring ctx))) (\<lambda>(res, u).
       if must_retry res
       then obind (Some (process_cqes dbg wake_later () (ctx\<lparr>io_ring := u\<rparr>))) (\<lambda>(_, ctx').
              io_submit dbg enter wait_for ctx')
       else Some (Done (map_sum id (\<lambda>_. ()) res, ctx\<lparr>io_ring := u\<rparr>)))"

declare io_submit.simps [code]

section \<open>What processing does to the tables\<close>

text \<open>The abstract step: on the maps from indices to events and to buffers.\<close>

type_synonym 'q tables = "(nat \<Rightarrow> completion_event option) \<times> (nat \<Rightarrow> u8 fixedvec option) \<times> nat list \<times> 'q"

definition spec_cqe :: "'q queue_fn \<Rightarrow> cqe \<Rightarrow> 'q tables \<Rightarrow> 'q tables" where
  "spec_cqe qf c = (\<lambda>(C, B, woken, q).
     let i = unat (ce_user_data c)
     in case C i of
          None \<Rightarrow> (C, B, woken, q)
        | Some e \<Rightarrow>
            if cev_task e = NO_TASK_SENTINEL then (C(i \<mapsto> e\<lparr>cev_cqe := Some c\<rparr>), B, woken, q)
            else if cev_task e = DEAD_TASK_SENTINEL
            then (C(i := None),
                  (case cev_action e of
                     DeleteBufferOnError b \<Rightarrow> (case ce_result c of Inl _ \<Rightarrow> B(b := None) | Inr _ \<Rightarrow> B)
                   | CleanupNone \<Rightarrow> B), woken, q)
            else (case qf woken (e\<lparr>cev_cqe := Some c\<rparr>) q of
                    (woken', q') \<Rightarrow> (C(i \<mapsto> e\<lparr>cev_cqe := Some c\<rparr>), B, woken', q')))"

definition io_tables :: "'q \<Rightarrow> ('f, 'k) ioctx \<Rightarrow> 'q tables" where
  "io_tables q ctx = (sm_get (io_completions ctx), sm_get (io_buffers ctx), io_woken ctx, q)"

definition io_inv :: "('f, 'k) ioctx \<Rightarrow> bool" where
  "io_inv ctx \<longleftrightarrow> sm_inv (io_completions ctx) \<and> sm_inv (io_buffers ctx) \<and> cq_inv (io_cq ctx)"

text \<open>What processing leaves alone.\<close>

definition io_same :: "('f, 'k) ioctx \<Rightarrow> ('f, 'k) ioctx \<Rightarrow> bool" where
  "io_same ctx ctx' \<longleftrightarrow> io_created ctx' = io_created ctx \<and> io_bufsize ctx' = io_bufsize ctx \<and>
     io_queued ctx' = io_queued ctx \<and> io_sq ctx' = io_sq ctx \<and>
     u_flags (io_ring ctx') = u_flags (io_ring ctx) \<and> u_kernel (io_ring ctx') = u_kernel (io_ring ctx)"

lemma io_same_refl [simp]: "io_same ctx ctx"
  by (simp add: io_same_def)

lemma io_same_trans: "io_same a b \<Longrightarrow> io_same b c \<Longrightarrow> io_same a c"
  by (simp add: io_same_def)

lemma process_cqe_spec:
  assumes inv: "io_inv ctx"
  shows "\<exists>q' ctx'. process_cqe qf c q ctx = Done (q', ctx') \<and> io_inv ctx' \<and> io_same ctx ctx' \<and>
    io_ring ctx' = io_ring ctx \<and> io_recv_dist ctx' = io_recv_dist ctx \<and>
    io_tables q' ctx' = spec_cqe qf c (io_tables q ctx)"
proof -
  let ?i = "unat (ce_user_data c)" and ?C = "io_completions ctx"
  have C: "sm_inv ?C" and B: "sm_inv (io_buffers ctx)" and cq: "cq_inv (io_cq ctx)"
    using inv by (simp_all add: io_inv_def)
  show ?thesis
  proof (cases "sm_get ?C ?i")
    case None
    then show ?thesis using inv by (simp add: process_cqe_def spec_cqe_def io_tables_def Let_def)
  next
    case (Some e)
    let ?e = "e\<lparr>cev_cqe := Some c\<rparr>" and ?C1 = "sm_set ?C ?i (e\<lparr>cev_cqe := Some c\<rparr>)"
    have C1: "sm_inv ?C1" "sm_get ?C1 = (sm_get ?C)(?i \<mapsto> ?e)"
      using sm.put_inv [OF C] sm.put_get [OF C, of ?i] Some by auto
    obtain r C2 where rm: "sm_remove ?C1 ?i = (r, C2)" by (cases "sm_remove ?C1 ?i")
    then have C2: "r = Some ?e" "sm_inv C2" "sm_get C2 = (sm_get ?C)(?i := None)"
      using sm.del_value [OF C1(1), of ?i] sm.del_get [OF C1(1), of ?i] sm.del_inv [OF C1(1), of ?i] C1(2)
      by auto
    have B1: "sm_inv (snd (sm_remove (io_buffers ctx) b))"
      "sm_get (snd (sm_remove (io_buffers ctx) b)) = (sm_get (io_buffers ctx))(b := None)" for b
      using sm.del_get [OF B] sm.del_inv [OF B] by auto
    show ?thesis
      using Some C1 C2 B B1 cq rm
      by (cases "qf (io_woken ctx) ?e q"; cases "ce_result c"; cases "cev_action e")
        (auto simp: process_cqe_def spec_cqe_def io_tables_def io_inv_def io_same_def Let_def)
  qed
qed

lemma process_loop_spec:
  "io_inv ctx \<Longrightarrow> \<exists>q' ctx'. process_loop qf cs q ctx = Done (q', ctx') \<and> io_inv ctx' \<and> io_same ctx ctx' \<and>
    io_ring ctx' = io_ring ctx \<and> io_recv_dist ctx' = io_recv_dist ctx \<and>
    io_tables q' ctx' = fold (spec_cqe qf) cs (io_tables q ctx)"
proof (induction cs arbitrary: q ctx)
  case Nil
  then show ?case by simp
next
  case (Cons c cs)
  obtain q1 ctx1 where 1: "process_cqe qf c q ctx = Done (q1, ctx1)" "io_inv ctx1" "io_same ctx ctx1"
    "io_ring ctx1 = io_ring ctx" "io_recv_dist ctx1 = io_recv_dist ctx"
    "io_tables q1 ctx1 = spec_cqe qf c (io_tables q ctx)"
    using process_cqe_spec [OF Cons.prems, of qf c q] by blast
  from Cons.IH [OF 1(2), of q1] 1 show ?case by (auto intro: io_same_trans)
qed

lemma process_cqes_spec:
  assumes inv: "io_inv ctx"
  shows "\<exists>q' ctx'. process_cqes False qf q ctx = Done (q', ctx') \<and> io_inv ctx' \<and> io_same ctx ctx' \<and>
    io_tables q' ctx' = fold (spec_cqe qf) (cq_window (io_cq ctx)) (io_tables q ctx) \<and>
    cq_window (io_cq ctx') = [] \<and>
    io_recv_dist ctx' = io_recv_dist ctx @ [length (cq_window (io_cq ctx))]"
proof -
  have cq: "cq_inv (io_cq ctx)" using inv by (simp add: io_inv_def)
  obtain b where b: "cq_available False (io_cq ctx) = Done b" "rb_len b = cq_pending (io_cq ctx)"
    "rb_iter b = Done (cq_window (io_cq ctx))"
    using cq_available_window [OF cq] by blast
  let ?ctx = "ctx\<lparr>io_recv_dist := io_recv_dist ctx @ [cq_pending (io_cq ctx)]\<rparr>"
  have inv': "io_inv ?ctx" using inv by (simp add: io_inv_def)
  obtain q1 ctx1 where 1: "process_loop qf (cq_window (io_cq ctx)) q ?ctx = Done (q1, ctx1)" "io_inv ctx1"
    "io_same ?ctx ctx1" "io_ring ctx1 = io_ring ctx" "io_recv_dist ctx1 = io_recv_dist ?ctx"
    "io_tables q1 ctx1 = fold (spec_cqe qf) (cq_window (io_cq ctx)) (io_tables q ?ctx)"
    using process_loop_spec [OF inv', of qf "cq_window (io_cq ctx)" q] by auto
  obtain cq' where 2: "cq_advance False (cq_pending (io_cq ctx)) (io_cq ctx) = Done cq'" "cq_inv cq'"
    "cq_window cq' = []"
    using cq_advance_window [OF cq, of "cq_pending (io_cq ctx)"] by auto
  have "io_tables q ?ctx = io_tables q ctx" by (simp add: io_tables_def)
  then show ?thesis using b 1 2
    by (auto simp: process_cqes_def Let_def io_inv_def io_same_def io_tables_def)
qed

section \<open>Submitting keeps the tables and ends\<close>

lemma submit_keeps_cq:
  assumes k: "kernel_keeps_cq enter" and inv: "cq_inv (u_cq u)"
  shows "\<exists>r u'. sq_submit_and_wait False enter w u = Done (r, u') \<and> cq_inv (u_cq u') \<and>
    (\<exists>new. cq_window (u_cq u') = cq_window (u_cq u) @ new)"
proof (cases "sq_call_flags u w")
  case None
  with inv show ?thesis by (simp add: sq_submit_and_wait_eq Let_def)
next
  case (Some fl)
  let ?n = "sq_ktail (u_sq u) - sq_sqe_tail (u_sq u)"
  obtain ret errno u1 where e: "enter (u_fd u) ?n w fl u = (ret, errno, u1)"
    by (cases "enter (u_fd u) ?n w fl u") auto
  from enter_keeps_cq [OF k e inv] show ?thesis
    by (auto simp: sq_submit_and_wait_eq Some e Let_def)
qed

lemma io_submit_step:
  assumes k: "kernel_keeps_cq enter" and inv: "io_inv ctx"
  obtains (again) r u ctx' where "sq_submit_and_wait False enter w (io_ring ctx) = Done (r, u)"
      and "must_retry r" and "io_submit False enter w ctx = io_submit False enter w ctx'"
      and "process_cqes False wake_later () (ctx\<lparr>io_ring := u\<rparr>) = Done ((), ctx')" and "io_inv ctx'"
      and "u_kernel (io_ring ctx') = u_kernel u"
  | (settled) r u where "sq_submit_and_wait False enter w (io_ring ctx) = Done (r, u)"
      and "\<not> must_retry r" and "io_submit False enter w ctx =
        Some (Done (map_sum id (\<lambda>_. ()) r, ctx\<lparr>io_ring := u\<rparr>))" and "io_inv (ctx\<lparr>io_ring := u\<rparr>)"
proof -
  obtain r u where s: "sq_submit_and_wait False enter w (io_ring ctx) = Done (r, u)" "cq_inv (u_cq u)"
    using submit_keeps_cq [OF k, of "io_ring ctx" w] inv by (auto simp: io_inv_def)
  then have inv1: "io_inv (ctx\<lparr>io_ring := u\<rparr>)" using inv by (simp add: io_inv_def)
  show ?thesis
  proof (cases "must_retry r")
    case False
    have "io_submit False enter w ctx = Some (Done (map_sum id (\<lambda>_. ()) r, ctx\<lparr>io_ring := u\<rparr>))"
      by (subst io_submit.simps) (simp add: s False)
    then show ?thesis by (rule settled [OF s(1) False _ inv1])
  next
    case True
    obtain ctx' where "process_cqes False wake_later () (ctx\<lparr>io_ring := u\<rparr>) = Done ((), ctx')"
      "io_inv ctx'" "io_same (ctx\<lparr>io_ring := u\<rparr>) ctx'"
      using process_cqes_spec [OF inv1, of wake_later "()"] by auto
    moreover from this have "io_submit False enter w ctx = io_submit False enter w ctx'"
      by (subst io_submit.simps) (simp add: s True)
    ultimately show ?thesis by (intro again [OF s(1) True, of ctx']) (simp_all add: io_same_def)
  qed
qed

text \<open>A kernel that answers \<open>EBUSY\<close> or \<open>EAGAIN\<close> only finitely often, with \<open>m\<close> the
  number of times still to come.\<close>

definition kernel_settles :: "('k \<Rightarrow> nat) \<Rightarrow> 'k enter \<Rightarrow> bool" where
  "kernel_settles m enter \<longleftrightarrow> (\<forall>fd n w fl u. case enter fd n w fl u of (ret, errno, u') \<Rightarrow>
     ret < 0 \<and> (errno = EBUSY \<or> errno = EAGAIN) \<longrightarrow> m (u_kernel u') < m (u_kernel u))"

lemma must_retry_settles:
  assumes m: "kernel_settles m enter"
    and s: "sq_submit_and_wait False enter w u = Done (r, u')" and r: "must_retry r"
  shows "m (u_kernel u') < m (u_kernel u)"
proof (cases "sq_call_flags u w")
  case None
  with s r show ?thesis by (auto simp: sq_submit_and_wait_eq Let_def must_retry_def)
next
  case (Some fl)
  let ?n = "sq_ktail (u_sq u) - sq_sqe_tail (u_sq u)"
  obtain ret errno u1 where e: "enter (u_fd u) ?n w fl u = (ret, errno, u1)"
    by (cases "enter (u_fd u) ?n w fl u") auto
  have "case enter (u_fd u) ?n w fl u of (ret, errno, u') \<Rightarrow>
     ret < 0 \<and> (errno = EBUSY \<or> errno = EAGAIN) \<longrightarrow> m (u_kernel u') < m (u_kernel u)"
    by (rule m [unfolded kernel_settles_def, THEN spec, THEN spec, THEN spec, THEN spec, THEN spec])
  with s r e show ?thesis
    by (auto simp: sq_submit_and_wait_eq Some Let_def must_retry_def raw_os_error_def split: if_splits)
qed

lemma io_submit_returns:
  assumes "kernel_keeps_cq enter" and "kernel_settles m enter" and "io_inv ctx"
  shows "\<exists>x ctx'. io_submit False enter w ctx = Some (Done (x, ctx')) \<and> io_inv ctx'"
  using assms(3)
proof (induction "m (u_kernel (io_ring ctx))" arbitrary: ctx rule: less_induct)
  case less
  show ?case
  proof (cases rule: io_submit_step [OF assms(1) less.prems, of w, case_names again settled])
    case (again r u ctx')
    with must_retry_settles [OF assms(2) again(1,2)] less.hyps [of ctx'] again show ?thesis by simp
  next
    case (settled r u)
    then show ?thesis by auto
  qed
qed

section \<open>A context at rest\<close>

definition ctx_demo :: "(unit, unit) ioctx" where
  "ctx_demo = \<lparr>io_ring = ring_of sq_demo cq_demo, io_created = [], io_completions = sm_new, io_woken = [],
     io_buffers = sm_new, io_bufsize = 4, io_queued = 0, io_recv_dist = []\<rparr>"

lemma ctx_demo_inv: "io_inv ctx_demo"
  by (simp add: io_inv_def ctx_demo_def ring_of_def cq_demo_inv sm_inv_new)

lemma eager_kernel_keeps_cq: "kernel_keeps_cq eager_kernel"
  by (simp add: kernel_keeps_cq_def eager_kernel_def)

lemma eager_kernel_settles: "kernel_settles m eager_kernel"
  by (simp add: kernel_settles_def eager_kernel_def)

section \<open>Properties\<close>

text \<open>C6: Processing the completion queue is a fold of the abstract per-entry step over exactly
  the pending entries in ring order, on the tables of completions and buffers; afterwards the
  ring is empty and the batch size is recorded.\<close>

theorem processing_refines_tables:
  assumes "io_inv ctx"
  shows "\<exists>q' ctx'. process_cqes False qf q ctx = Done (q', ctx') \<and> io_inv ctx' \<and> io_same ctx ctx' \<and>
    io_tables q' ctx' = fold (spec_cqe qf) (cq_window (io_cq ctx)) (io_tables q ctx) \<and>
    cq_window (io_cq ctx') = [] \<and>
    io_recv_dist ctx' = io_recv_dist ctx @ [length (cq_window (io_cq ctx))]"
  by (rule process_cqes_spec [OF assms])

theorem processing_refines_tables_witness:
  "\<exists>q' ctx'. process_cqes False wake_later () ctx_demo = Done (q', ctx') \<and> io_inv ctx' \<and> io_same ctx_demo ctx' \<and>
    io_tables q' ctx' = fold (spec_cqe wake_later) (cq_window (io_cq ctx_demo)) (io_tables () ctx_demo) \<and>
    cq_window (io_cq ctx') = [] \<and>
    io_recv_dist ctx' = io_recv_dist ctx_demo @ [length (cq_window (io_cq ctx_demo))]"
  by (rule processing_refines_tables [OF ctx_demo_inv])


text \<open>A kernel that is busy three times before it accepts a submission.\<close>

definition busy_kernel :: "nat enter" where
  "busy_kernel fd n w fl u =
     (case u_kernel u of Suc k \<Rightarrow> (- 1, EBUSY, u\<lparr>u_kernel := k\<rparr>) | 0 \<Rightarrow> (0, 0, u))"

definition ctx_busy :: "(unit, nat) ioctx" where
  "ctx_busy = \<lparr>io_ring = \<lparr>u_sq = sq_demo_full, u_cq = cq_demo, u_flags = 0, u_fd = 3, u_kernel = 3\<rparr>,
     io_created = [], io_completions = sm_new, io_woken = [], io_buffers = sm_new, io_bufsize = 4,
     io_queued = 2, io_recv_dist = []\<rparr>"


end
