(* ===== verification/Sat_Cast.thy ===== *)
theory Sat_Cast
  imports Prelude
begin

text \<open>
  The saturating casts of \<open>uring/src/detail.rs\<close>.  The macro \<open>all_casts!\<close> instantiates one
  body for every pair of the twelve integer types; here the types are parameters, given by their
  signedness and width, and values are mathematical integers in the range of their type.
\<close>

datatype int_ty = IntTy bool nat

fun ty_min :: "int_ty \<Rightarrow> int" where
  "ty_min (IntTy signed' w) = (if signed' then - (2 ^ (w - 1)) else 0)"

fun ty_max :: "int_ty \<Rightarrow> int" where
  "ty_max (IntTy signed' w) = (if signed' then 2 ^ (w - 1) - 1 else 2 ^ w - 1)"

text \<open>The types of \<open>all_casts!\<close>: \<open>usize\<close> and \<open>isize\<close> have 64 bits.\<close>

definition rust_types :: "int_ty list" where
  "rust_types = [IntTy False 8, IntTy False 16, IntTy False 32, IntTy False 64, IntTy False 128,
     IntTy True 8, IntTy True 16, IntTy True 32, IntTy True 64, IntTy True 128]"

text \<open>Rust's \<open>as\<close> between integer types: the value modulo the width of the target.\<close>

fun cast_as :: "int_ty \<Rightarrow> int \<Rightarrow> int" where
  "cast_as (IntTy signed' w) x =
     (if signed' then (x + 2 ^ (w - 1)) mod 2 ^ w - 2 ^ (w - 1) else x mod 2 ^ w)"

definition saturating_cast :: "int_ty \<Rightarrow> int_ty \<Rightarrow> int \<Rightarrow> int" where
  "saturating_cast src tgt x =
     (let x = (if cast_as (IntTy False 128) (ty_max tgt) < cast_as (IntTy False 128) (ty_max src)
               then min x (cast_as src (ty_max tgt)) else x);
          x = (if cast_as (IntTy True 128) (ty_min tgt) > cast_as (IntTy True 128) (ty_min src)
               then max x (cast_as src (ty_min tgt)) else x)
      in cast_as tgt x)"

definition ty_ok :: "int_ty \<Rightarrow> bool" where
  "ty_ok t = (case t of IntTy s w \<Rightarrow> 0 < w \<and> w \<le> 128)"

lemma rust_types_ok: "t \<in> set rust_types \<Longrightarrow> ty_ok t"
  by (auto simp: rust_types_def ty_ok_def)

lemma half_power: "0 < w \<Longrightarrow> (2::int) ^ w = 2 * 2 ^ (w - 1)"
  by (cases w) auto

lemma cast_as_id:
  assumes "ty_ok t" and "ty_min t \<le> x" and "x \<le> ty_max t"
  shows "cast_as t x = x"
proof (cases t)
  case (IntTy s w)
  with assms half_power [of w] show ?thesis
    by (cases s) (auto simp: ty_ok_def)
qed

lemma ty_max_pos: "ty_ok t \<Longrightarrow> 0 \<le> ty_max t"
  by (cases t) (auto simp: ty_ok_def)

lemma ty_min_neg: "ty_min t \<le> 0"
  by (cases t) auto

lemma ty_max_u128:
  assumes "ty_ok t"
  shows "ty_max t \<le> ty_max (IntTy False 128)"
proof (cases t)
  case (IntTy s w)
  with assms have w: "w \<le> 128" by (simp add: ty_ok_def)
  then have "(2::int) ^ w \<le> 2 ^ 128" and "(2::int) ^ (w - 1) \<le> 2 ^ 128"
    by (intro power_increasing; simp)+
  with IntTy show ?thesis by simp
qed

lemma ty_min_i128:
  assumes "ty_ok t"
  shows "ty_min (IntTy True 128) \<le> ty_min t"
proof (cases t)
  case (IntTy s w)
  with assms have "(2::int) ^ (w - 1) \<le> 2 ^ 127"
    by (intro power_increasing) (auto simp: ty_ok_def)
  with IntTy show ?thesis by simp
qed

lemma cast_u128_max: "ty_ok t \<Longrightarrow> cast_as (IntTy False 128) (ty_max t) = ty_max t"
  by (intro cast_as_id) (use ty_max_u128 ty_max_pos in \<open>auto simp: ty_ok_def\<close>)

lemma cast_i128_min: "ty_ok t \<Longrightarrow> cast_as (IntTy True 128) (ty_min t) = ty_min t"
proof (intro cast_as_id)
  show "ty_ok (IntTy True 128)" by (simp add: ty_ok_def)
  have "(0::int) \<le> ty_max (IntTy True 128)" by simp
  then show "ty_min t \<le> ty_max (IntTy True 128)" using ty_min_neg [of t] by linarith
qed (rule ty_min_i128)

lemma saturating_cast_eq_clamp:
  assumes ok: "ty_ok src" "ty_ok tgt" and x: "ty_min src \<le> x" "x \<le> ty_max src"
  shows "saturating_cast src tgt x = max (ty_min tgt) (min (ty_max tgt) x)"
proof -
  define y where "y = (if ty_max tgt < ty_max src then min x (ty_max tgt) else x)"
  define z where "z = (if ty_min src < ty_min tgt then max y (ty_min tgt) else y)"
  have bounds: "0 \<le> ty_max tgt" "ty_min tgt \<le> 0" "ty_min src \<le> 0" "0 \<le> ty_max src"
    using ok ty_max_pos ty_min_neg by auto
  have 1: "cast_as src (ty_max tgt) = ty_max tgt" if "ty_max tgt < ty_max src"
    using that bounds by (intro cast_as_id [OF ok(1)]) auto
  have 2: "cast_as src (ty_min tgt) = ty_min tgt" if "ty_min src < ty_min tgt"
    using that bounds by (intro cast_as_id [OF ok(1)]) auto
  have "saturating_cast src tgt x = cast_as tgt z"
    unfolding saturating_cast_def Let_def cast_u128_max [OF ok(1)] cast_u128_max [OF ok(2)]
      cast_i128_min [OF ok(1)] cast_i128_min [OF ok(2)] y_def z_def
    using 1 2 by simp
  moreover have z: "z = max (ty_min tgt) (min (ty_max tgt) x)"
    using x bounds by (auto simp: y_def z_def)
  moreover have "cast_as tgt z = z"
    using bounds by (intro cast_as_id [OF ok(2)]) (auto simp: z)
  ultimately show ?thesis by simp
qed

section \<open>Properties\<close>

theorem saturating_cast_clamps:
  assumes "src \<in> set rust_types" and "tgt \<in> set rust_types" and "ty_min src \<le> x" and "x \<le> ty_max src"
  shows "saturating_cast src tgt x = max (ty_min tgt) (min (ty_max tgt) x)"
  by (rule saturating_cast_eq_clamp [OF rust_types_ok [OF assms(1)] rust_types_ok [OF assms(2)] assms(3,4)])

theorem saturating_cast_clamps_witness:
  "saturating_cast (IntTy True 64) (IntTy False 32) (- 5) = 0 \<and>
   saturating_cast (IntTy True 64) (IntTy False 32) (2 ^ 40) = 2 ^ 32 - 1 \<and>
   saturating_cast (IntTy False 128) (IntTy True 8) (2 ^ 100) = 127"
  using saturating_cast_clamps [of "IntTy True 64" "IntTy False 32" "- 5"]
    saturating_cast_clamps [of "IntTy True 64" "IntTy False 32" "2 ^ 40"]
    saturating_cast_clamps [of "IntTy False 128" "IntTy True 8" "2 ^ 100"]
  by (simp add: rust_types_def)

end
