(* ===== verification/Sqe_Types.thy ===== *)
theory Sqe_Types
  imports Sub_Queue Sat_Cast
begin

text \<open>
  \<open>uring/src/sqe_types.rs\<close>: the operations a program can submit, one constructor of
  \<open>sqe_op\<close> for each structure that the macro \<open>opcode!\<close> declares, with its required and
  optional fields in order; \<open>new_X\<close> is the constructor function with the defaults of the
  optional fields, \<open>prep_X\<close> the body of \<open>prep_sqe\<close>.  Pointers and file offsets are 64-bit
  words, file descriptors and \<open>int\<close> arguments 32-bit words.  \<open>pad\<close> is what the two bytes of
  the union \<open>sqe_op_flags\<close> beyond \<open>poll_events\<close> hold, which the code leaves open.
\<close>

section \<open>Targets\<close>

datatype target = Fd "32 word" | Fixed u32

fun is_fixed :: "target \<Rightarrow> bool" where
  "is_fixed (Fixed _) = True"
| "is_fixed (Fd _) = False"

fun into_raw :: "target \<Rightarrow> 32 word" where
  "into_raw (Fd fd) = fd"
| "into_raw (Fixed fixed) = fixed"

text \<open>The conversion of a file offset (\<open>i64\<close>) to \<open>u32\<close>.\<close>

definition off_to_u32 :: "u64 \<Rightarrow> u32" where
  "off_to_u32 x = word_of_int (saturating_cast (IntTy True 64) (IntTy False 32) (sint x))"

section \<open>Operations\<close>

datatype (plugins only: size) sqe_op =
    Nop
  | ReadVectored target u64 u32 u16 u64 u32
  | WriteVectored target u64 u32 u16 u64 u32
  | ReadFixed target u64 u32 u16 u64 u16 u32
  | WriteFixed target u64 u32 u16 u16 u64 u32
  | PollAdd target u16
  | PollRemove u64
  | SyncFileRange target u32 u64 u32
  | SendMsg target u64 u16 u32
  | RecvMsg target u64 u16 u32
  | Timeout u64 u32 u32
  | TimeoutRemove u64 u32
  | Accept target u64 u64 u32
  | AsyncCancel u64 u32
  | LinkTimeout u64 u32
  | Connect target u64 u64
  | Fallocate target u32 u64 "32 word"
  | Fadvise target u64 "32 word" u64
  | Madvise u64 u64 "32 word"
  | OpenAt "32 word" u64 "32 word" u32
  | OpenAt2 "32 word" u64 u64 u32
  | Close "32 word"
  | Statx "32 word" u64 u64 "32 word" u32
  | Read target u64 u32 u64 u16 u32
  | Write target u64 u32 u64 u16 u32
  | Send target u64 u32 "32 word"
  | Recv target u64 u32 "32 word"
  | EpollCtl target "32 word" "32 word" u64
  | Splice target u64 target u64 u32 u32
  | Tee target target u32 u32
  | FilesUpdate u64 u32 u32
  | ProvideBuffers u64 u32 u16 u16 u16
  | RemoveBuffers u16 u16

primrec OPCODE :: "sqe_op \<Rightarrow> IoRingOp" where
  "OPCODE Nop = IORING_OP_NOP"
| "OPCODE (ReadVectored x0 x1 x2 x3 x4 x5) = IORING_OP_READV"
| "OPCODE (WriteVectored x0 x1 x2 x3 x4 x5) = IORING_OP_WRITEV"
| "OPCODE (ReadFixed x0 x1 x2 x3 x4 x5 x6) = IORING_OP_READ_FIXED"
| "OPCODE (WriteFixed x0 x1 x2 x3 x4 x5 x6) = IORING_OP_WRITE_FIXED"
| "OPCODE (PollAdd x0 x1) = IORING_OP_POLL_ADD"
| "OPCODE (PollRemove x0) = IORING_OP_POLL_REMOVE"
| "OPCODE (SyncFileRange x0 x1 x2 x3) = IORING_OP_SYNC_FILE_RANGE"
| "OPCODE (SendMsg x0 x1 x2 x3) = IORING_OP_SENDMSG"
| "OPCODE (RecvMsg x0 x1 x2 x3) = IORING_OP_RECVMSG"
| "OPCODE (Timeout x0 x1 x2) = IORING_OP_TIMEOUT"
| "OPCODE (TimeoutRemove x0 x1) = IORING_OP_TIMEOUT_REMOVE"
| "OPCODE (Accept x0 x1 x2 x3) = IORING_OP_ACCEPT"
| "OPCODE (AsyncCancel x0 x1) = IORING_OP_ASYNC_CANCEL"
| "OPCODE (LinkTimeout x0 x1) = IORING_OP_LINK_TIMEOUT"
| "OPCODE (Connect x0 x1 x2) = IORING_OP_CONNECT"
| "OPCODE (Fallocate x0 x1 x2 x3) = IORING_OP_FALLOCATE"
| "OPCODE (Fadvise x0 x1 x2 x3) = IORING_OP_FADVISE"
| "OPCODE (Madvise x0 x1 x2) = IORING_OP_MADVISE"
| "OPCODE (OpenAt x0 x1 x2 x3) = IORING_OP_OPENAT"
| "OPCODE (OpenAt2 x0 x1 x2 x3) = IORING_OP_OPENAT2"
| "OPCODE (Close x0) = IORING_OP_CLOSE"
| "OPCODE (Statx x0 x1 x2 x3 x4) = IORING_OP_STATX"
| "OPCODE (Read x0 x1 x2 x3 x4 x5) = IORING_OP_READ"
| "OPCODE (Write x0 x1 x2 x3 x4 x5) = IORING_OP_WRITE"
| "OPCODE (Send x0 x1 x2 x3) = IORING_OP_SEND"
| "OPCODE (Recv x0 x1 x2 x3) = IORING_OP_RECV"
| "OPCODE (EpollCtl x0 x1 x2 x3) = IORING_OP_EPOLL_CTL"
| "OPCODE (Splice x0 x1 x2 x3 x4 x5) = IORING_OP_SPLICE"
| "OPCODE (Tee x0 x1 x2 x3) = IORING_OP_TEE"
| "OPCODE (FilesUpdate x0 x1 x2) = IORING_OP_FILES_UPDATE"
| "OPCODE (ProvideBuffers x0 x1 x2 x3 x4) = IORING_OP_PROVIDE_BUFFERS"
| "OPCODE (RemoveBuffers x0 x1) = IORING_OP_REMOVE_BUFFERS"

section \<open>Constructor functions\<close>

definition new_Nop :: "sqe_op" where
  "new_Nop = Nop"

definition new_ReadVectored :: "target \<Rightarrow> u64 \<Rightarrow> u32 \<Rightarrow> sqe_op" where
  "new_ReadVectored fd iovec len = ReadVectored fd iovec len 0 0 0"

definition new_WriteVectored :: "target \<Rightarrow> u64 \<Rightarrow> u32 \<Rightarrow> sqe_op" where
  "new_WriteVectored fd iovec len = WriteVectored fd iovec len 0 0 0"

definition new_ReadFixed :: "target \<Rightarrow> u64 \<Rightarrow> u32 \<Rightarrow> u16 \<Rightarrow> sqe_op" where
  "new_ReadFixed fd buf len buf_index = ReadFixed fd buf len buf_index 0 0 0"

definition new_WriteFixed :: "target \<Rightarrow> u64 \<Rightarrow> u32 \<Rightarrow> u16 \<Rightarrow> sqe_op" where
  "new_WriteFixed fd buf len buf_index = WriteFixed fd buf len buf_index 0 0 0"

definition new_PollAdd :: "target \<Rightarrow> u16 \<Rightarrow> sqe_op" where
  "new_PollAdd fd poll_events = PollAdd fd poll_events"

definition new_PollRemove :: "u64 \<Rightarrow> sqe_op" where
  "new_PollRemove user_data = PollRemove user_data"

definition new_SyncFileRange :: "target \<Rightarrow> u32 \<Rightarrow> sqe_op" where
  "new_SyncFileRange fd len = SyncFileRange fd len 0 0"

definition new_SendMsg :: "target \<Rightarrow> u64 \<Rightarrow> sqe_op" where
  "new_SendMsg fd msg = SendMsg fd msg 0 0"

definition new_RecvMsg :: "target \<Rightarrow> u64 \<Rightarrow> sqe_op" where
  "new_RecvMsg fd msg = RecvMsg fd msg 0 0"

definition new_Timeout :: "u64 \<Rightarrow> sqe_op" where
  "new_Timeout timespec = Timeout timespec 0 0"

definition new_TimeoutRemove :: "u64 \<Rightarrow> sqe_op" where
  "new_TimeoutRemove user_data = TimeoutRemove user_data 0"

definition new_Accept :: "target \<Rightarrow> u64 \<Rightarrow> u64 \<Rightarrow> sqe_op" where
  "new_Accept fd addr addrlen = Accept fd addr addrlen 0"

definition new_AsyncCancel :: "u64 \<Rightarrow> sqe_op" where
  "new_AsyncCancel user_data = AsyncCancel user_data 0"

definition new_LinkTimeout :: "u64 \<Rightarrow> sqe_op" where
  "new_LinkTimeout timespec = LinkTimeout timespec 0"

definition new_Connect :: "target \<Rightarrow> u64 \<Rightarrow> u64 \<Rightarrow> sqe_op" where
  "new_Connect fd addr addrlen = Connect fd addr addrlen"

definition new_Fallocate :: "target \<Rightarrow> u32 \<Rightarrow> sqe_op" where
  "new_Fallocate fd len = Fallocate fd len 0 0"

definition new_Fadvise :: "target \<Rightarrow> u64 \<Rightarrow> 32 word \<Rightarrow> sqe_op" where
  "new_Fadvise fd len advice = Fadvise fd len advice 0"

definition new_Madvise :: "u64 \<Rightarrow> u64 \<Rightarrow> 32 word \<Rightarrow> sqe_op" where
  "new_Madvise addr len advice = Madvise addr len advice"

definition new_OpenAt :: "32 word \<Rightarrow> u64 \<Rightarrow> sqe_op" where
  "new_OpenAt dirfd pathname = OpenAt dirfd pathname 0 0"

definition new_OpenAt2 :: "32 word \<Rightarrow> u64 \<Rightarrow> u64 \<Rightarrow> sqe_op" where
  "new_OpenAt2 dirfd pathname how = OpenAt2 dirfd pathname how 24"

definition new_Close :: "32 word \<Rightarrow> sqe_op" where
  "new_Close fd = Close fd"

definition new_Statx :: "32 word \<Rightarrow> u64 \<Rightarrow> u64 \<Rightarrow> sqe_op" where
  "new_Statx dirfd pathname statxbuf = Statx dirfd pathname statxbuf 0 0"

definition new_Read :: "target \<Rightarrow> u64 \<Rightarrow> u32 \<Rightarrow> sqe_op" where
  "new_Read fd buf len = Read fd buf len 0 0 0"

definition new_Write :: "target \<Rightarrow> u64 \<Rightarrow> u32 \<Rightarrow> sqe_op" where
  "new_Write fd buf len = Write fd buf len 0 0 0"

definition new_Send :: "target \<Rightarrow> u64 \<Rightarrow> u32 \<Rightarrow> sqe_op" where
  "new_Send fd buf len = Send fd buf len 0"

definition new_Recv :: "target \<Rightarrow> u64 \<Rightarrow> u32 \<Rightarrow> sqe_op" where
  "new_Recv fd buf len = Recv fd buf len 0"

definition new_EpollCtl :: "target \<Rightarrow> 32 word \<Rightarrow> 32 word \<Rightarrow> u64 \<Rightarrow> sqe_op" where
  "new_EpollCtl epfd fd op ev = EpollCtl epfd fd op ev"

definition new_Splice :: "target \<Rightarrow> u64 \<Rightarrow> target \<Rightarrow> u64 \<Rightarrow> u32 \<Rightarrow> sqe_op" where
  "new_Splice fd_in off_in fd_out off_out len = Splice fd_in off_in fd_out off_out len 0"

definition new_Tee :: "target \<Rightarrow> target \<Rightarrow> u32 \<Rightarrow> sqe_op" where
  "new_Tee fd_in fd_out len = Tee fd_in fd_out len 0"

definition new_FilesUpdate :: "u64 \<Rightarrow> u32 \<Rightarrow> sqe_op" where
  "new_FilesUpdate fds len = FilesUpdate fds len 0"

definition new_ProvideBuffers :: "u64 \<Rightarrow> u32 \<Rightarrow> u16 \<Rightarrow> u16 \<Rightarrow> u16 \<Rightarrow> sqe_op" where
  "new_ProvideBuffers addr len nbufs buf_group bid = ProvideBuffers addr len nbufs buf_group bid"

definition new_RemoveBuffers :: "u16 \<Rightarrow> u16 \<Rightarrow> sqe_op" where
  "new_RemoveBuffers nbufs buf_group = RemoveBuffers nbufs buf_group"

lemmas new_defs =
  new_Nop_def new_ReadVectored_def new_WriteVectored_def new_ReadFixed_def new_WriteFixed_def
  new_PollAdd_def new_PollRemove_def new_SyncFileRange_def new_SendMsg_def new_RecvMsg_def
  new_Timeout_def new_TimeoutRemove_def new_Accept_def new_AsyncCancel_def new_LinkTimeout_def
  new_Connect_def new_Fallocate_def new_Fadvise_def new_Madvise_def new_OpenAt_def
  new_OpenAt2_def new_Close_def new_Statx_def new_Read_def new_Write_def
  new_Send_def new_Recv_def new_EpollCtl_def new_Splice_def new_Tee_def
  new_FilesUpdate_def new_ProvideBuffers_def new_RemoveBuffers_def

section \<open>Builder methods\<close>

text \<open>The method of an optional field replaces that field; an operation without the field has
  no such method and is left as it is.\<close>

definition set_ioprio :: "u16 \<Rightarrow> sqe_op \<Rightarrow> sqe_op" where
  "set_ioprio v op = (case op of
      ReadVectored fd iovec len ioprio offset rw_flags \<Rightarrow> ReadVectored fd iovec len v offset rw_flags
    | WriteVectored fd iovec len ioprio offset rw_flags \<Rightarrow> WriteVectored fd iovec len v offset rw_flags
    | ReadFixed fd buf len buf_index offset ioprio rw_flags \<Rightarrow> ReadFixed fd buf len buf_index offset v rw_flags
    | WriteFixed fd buf len buf_index ioprio offset rw_flags \<Rightarrow> WriteFixed fd buf len buf_index v offset rw_flags
    | SendMsg fd msg ioprio flags \<Rightarrow> SendMsg fd msg v flags
    | RecvMsg fd msg ioprio flags \<Rightarrow> RecvMsg fd msg v flags
    | Read fd buf len offset ioprio rw_flags \<Rightarrow> Read fd buf len offset v rw_flags
    | Write fd buf len offset ioprio rw_flags \<Rightarrow> Write fd buf len offset v rw_flags
    | _ \<Rightarrow> op)"

definition set_offset_u32 :: "u32 \<Rightarrow> sqe_op \<Rightarrow> sqe_op" where
  "set_offset_u32 v op = (case op of
      FilesUpdate fds len offset \<Rightarrow> FilesUpdate fds len v
    | _ \<Rightarrow> op)"

definition set_offset_off :: "u64 \<Rightarrow> sqe_op \<Rightarrow> sqe_op" where
  "set_offset_off v op = (case op of
      ReadVectored fd iovec len ioprio offset rw_flags \<Rightarrow> ReadVectored fd iovec len ioprio v rw_flags
    | WriteVectored fd iovec len ioprio offset rw_flags \<Rightarrow> WriteVectored fd iovec len ioprio v rw_flags
    | ReadFixed fd buf len buf_index offset ioprio rw_flags \<Rightarrow> ReadFixed fd buf len buf_index v ioprio rw_flags
    | WriteFixed fd buf len buf_index ioprio offset rw_flags \<Rightarrow> WriteFixed fd buf len buf_index ioprio v rw_flags
    | SyncFileRange fd len offset flags \<Rightarrow> SyncFileRange fd len v flags
    | Fallocate fd len offset mode \<Rightarrow> Fallocate fd len v mode
    | Fadvise fd len advice offset \<Rightarrow> Fadvise fd len advice v
    | Read fd buf len offset ioprio rw_flags \<Rightarrow> Read fd buf len v ioprio rw_flags
    | Write fd buf len offset ioprio rw_flags \<Rightarrow> Write fd buf len v ioprio rw_flags
    | _ \<Rightarrow> op)"

definition set_rw_flags :: "u32 \<Rightarrow> sqe_op \<Rightarrow> sqe_op" where
  "set_rw_flags v op = (case op of
      ReadVectored fd iovec len ioprio offset rw_flags \<Rightarrow> ReadVectored fd iovec len ioprio offset v
    | WriteVectored fd iovec len ioprio offset rw_flags \<Rightarrow> WriteVectored fd iovec len ioprio offset v
    | ReadFixed fd buf len buf_index offset ioprio rw_flags \<Rightarrow> ReadFixed fd buf len buf_index offset ioprio v
    | WriteFixed fd buf len buf_index ioprio offset rw_flags \<Rightarrow> WriteFixed fd buf len buf_index ioprio offset v
    | Read fd buf len offset ioprio rw_flags \<Rightarrow> Read fd buf len offset ioprio v
    | Write fd buf len offset ioprio rw_flags \<Rightarrow> Write fd buf len offset ioprio v
    | _ \<Rightarrow> op)"

definition set_flags_i32 :: "32 word \<Rightarrow> sqe_op \<Rightarrow> sqe_op" where
  "set_flags_i32 v op = (case op of
      OpenAt dirfd pathname flags mode \<Rightarrow> OpenAt dirfd pathname v mode
    | Statx dirfd pathname statxbuf flags msk \<Rightarrow> Statx dirfd pathname statxbuf v msk
    | Send fd buf len flags \<Rightarrow> Send fd buf len v
    | Recv fd buf len flags \<Rightarrow> Recv fd buf len v
    | _ \<Rightarrow> op)"

definition set_flags_u32 :: "u32 \<Rightarrow> sqe_op \<Rightarrow> sqe_op" where
  "set_flags_u32 v op = (case op of
      SyncFileRange fd len offset flags \<Rightarrow> SyncFileRange fd len offset v
    | SendMsg fd msg ioprio flags \<Rightarrow> SendMsg fd msg ioprio v
    | RecvMsg fd msg ioprio flags \<Rightarrow> RecvMsg fd msg ioprio v
    | Timeout timespec cnt flags \<Rightarrow> Timeout timespec cnt v
    | TimeoutRemove user_data flags \<Rightarrow> TimeoutRemove user_data v
    | Accept fd addr addrlen flags \<Rightarrow> Accept fd addr addrlen v
    | AsyncCancel user_data flags \<Rightarrow> AsyncCancel user_data v
    | LinkTimeout timespec flags \<Rightarrow> LinkTimeout timespec v
    | Splice fd_in off_in fd_out off_out len flags \<Rightarrow> Splice fd_in off_in fd_out off_out len v
    | Tee fd_in fd_out len flags \<Rightarrow> Tee fd_in fd_out len v
    | _ \<Rightarrow> op)"

definition set_count :: "u32 \<Rightarrow> sqe_op \<Rightarrow> sqe_op" where
  "set_count v op = (case op of
      Timeout timespec cnt flags \<Rightarrow> Timeout timespec v flags
    | _ \<Rightarrow> op)"

definition set_mode_i32 :: "32 word \<Rightarrow> sqe_op \<Rightarrow> sqe_op" where
  "set_mode_i32 v op = (case op of
      Fallocate fd len offset mode \<Rightarrow> Fallocate fd len offset v
    | _ \<Rightarrow> op)"

definition set_mode_u32 :: "u32 \<Rightarrow> sqe_op \<Rightarrow> sqe_op" where
  "set_mode_u32 v op = (case op of
      OpenAt dirfd pathname flags mode \<Rightarrow> OpenAt dirfd pathname flags v
    | _ \<Rightarrow> op)"

definition set_len :: "u32 \<Rightarrow> sqe_op \<Rightarrow> sqe_op" where
  "set_len v op = (case op of
      OpenAt2 dirfd pathname how len \<Rightarrow> OpenAt2 dirfd pathname how v
    | _ \<Rightarrow> op)"

definition set_mask :: "u32 \<Rightarrow> sqe_op \<Rightarrow> sqe_op" where
  "set_mask v op = (case op of
      Statx dirfd pathname statxbuf flags msk \<Rightarrow> Statx dirfd pathname statxbuf flags v
    | _ \<Rightarrow> op)"

section \<open>Preparation of an entry\<close>

definition prep_Nop :: "sqe \<Rightarrow> sqe" where
  "prep_Nop sqe =
    (let sqe = ev_clear sqe;
         sqe = sqe\<lparr>sqe_opcode := op_code IORING_OP_NOP, sqe_fd := -1\<rparr>
     in sqe)"

definition prep_ReadVectored :: "target \<Rightarrow> u64 \<Rightarrow> u32 \<Rightarrow> u16 \<Rightarrow> u64 \<Rightarrow> u32 \<Rightarrow> sqe \<Rightarrow> sqe" where
  "prep_ReadVectored fd iovec len ioprio offset rw_flags sqe =
    (let sqe = sqe_zeroed\<lparr>sqe_opcode := op_code IORING_OP_READV, sqe_fd := into_raw fd, sqe_len := len,
         sqe_ioprio := ioprio, sqe_addr := iovec, sqe_off_addr2 := offset\<rparr>
     in if is_fixed fd then ev_set_flags IOSQE_FIXED_FILE sqe else sqe)"

definition prep_WriteVectored :: "target \<Rightarrow> u64 \<Rightarrow> u32 \<Rightarrow> u16 \<Rightarrow> u64 \<Rightarrow> u32 \<Rightarrow> sqe \<Rightarrow> sqe" where
  "prep_WriteVectored fd iovec len ioprio offset rw_flags sqe =
    (let sqe = sqe_zeroed\<lparr>sqe_opcode := op_code IORING_OP_WRITEV, sqe_fd := into_raw fd, sqe_len := len,
         sqe_ioprio := ioprio, sqe_addr := iovec, sqe_off_addr2 := offset\<rparr>
     in if is_fixed fd then ev_set_flags IOSQE_FIXED_FILE sqe else sqe)"

definition prep_ReadFixed :: "target \<Rightarrow> u64 \<Rightarrow> u32 \<Rightarrow> u16 \<Rightarrow> u64 \<Rightarrow> u16 \<Rightarrow> u32 \<Rightarrow> sqe \<Rightarrow> sqe" where
  "prep_ReadFixed fd buf len buf_index offset ioprio rw_flags sqe =
    (let sqe = sqe_zeroed\<lparr>sqe_opcode := op_code IORING_OP_READ_FIXED, sqe_fd := into_raw fd, sqe_len :=
         len, sqe_ioprio := ioprio, sqe_addr := buf, sqe_off_addr2 := offset,
         sqe_buf_info := buf_index\<rparr>
     in if is_fixed fd then ev_set_flags IOSQE_FIXED_FILE sqe else sqe)"

definition prep_WriteFixed :: "target \<Rightarrow> u64 \<Rightarrow> u32 \<Rightarrow> u16 \<Rightarrow> u16 \<Rightarrow> u64 \<Rightarrow> u32 \<Rightarrow> sqe \<Rightarrow> sqe" where
  "prep_WriteFixed fd buf len buf_index ioprio offset rw_flags sqe =
    (let sqe = sqe_zeroed\<lparr>sqe_opcode := op_code IORING_OP_WRITE_FIXED, sqe_fd := into_raw fd, sqe_len :=
         len, sqe_ioprio := ioprio, sqe_addr := buf, sqe_off_addr2 := offset,
         sqe_buf_info := buf_index\<rparr>
     in if is_fixed fd then ev_set_flags IOSQE_FIXED_FILE sqe else sqe)"

definition prep_PollAdd :: "u16 \<Rightarrow> target \<Rightarrow> u16 \<Rightarrow> sqe \<Rightarrow> sqe" where
  "prep_PollAdd pad fd poll_events sqe =
    (let sqe = sqe_zeroed\<lparr>sqe_opcode := op_code IORING_OP_POLL_ADD, sqe_fd := into_raw fd, sqe_op_flags :=
         push_bit 16 (ucast pad) OR ucast poll_events\<rparr>
     in if is_fixed fd then ev_set_flags IOSQE_FIXED_FILE sqe else sqe)"

definition prep_PollRemove :: "u64 \<Rightarrow> sqe \<Rightarrow> sqe" where
  "prep_PollRemove user_data sqe =
    (let sqe = sqe_zeroed\<lparr>sqe_opcode := op_code IORING_OP_POLL_REMOVE, sqe_fd := -1, sqe_addr := user_data\<rparr>
     in sqe)"

definition prep_SyncFileRange :: "target \<Rightarrow> u32 \<Rightarrow> u64 \<Rightarrow> u32 \<Rightarrow> sqe \<Rightarrow> sqe" where
  "prep_SyncFileRange fd len offset flags sqe =
    (let sqe = sqe_zeroed\<lparr>sqe_opcode := op_code IORING_OP_SYNC_FILE_RANGE, sqe_fd := into_raw fd, sqe_len
         := len, sqe_op_flags := flags, sqe_off_addr2 := offset\<rparr>
     in if is_fixed fd then ev_set_flags IOSQE_FIXED_FILE sqe else sqe)"

definition prep_SendMsg :: "target \<Rightarrow> u64 \<Rightarrow> u16 \<Rightarrow> u32 \<Rightarrow> sqe \<Rightarrow> sqe" where
  "prep_SendMsg fd msg ioprio flags sqe =
    (let sqe = sqe_zeroed\<lparr>sqe_opcode := op_code IORING_OP_SENDMSG, sqe_fd := into_raw fd, sqe_addr := msg,
         sqe_op_flags := flags\<rparr>
     in if is_fixed fd then ev_set_flags IOSQE_FIXED_FILE sqe else sqe)"

definition prep_RecvMsg :: "target \<Rightarrow> u64 \<Rightarrow> u16 \<Rightarrow> u32 \<Rightarrow> sqe \<Rightarrow> sqe" where
  "prep_RecvMsg fd msg ioprio flags sqe =
    (let sqe = sqe_zeroed\<lparr>sqe_opcode := op_code IORING_OP_RECVMSG, sqe_fd := into_raw fd, sqe_addr := msg,
         sqe_op_flags := flags\<rparr>
     in if is_fixed fd then ev_set_flags IOSQE_FIXED_FILE sqe else sqe)"

definition prep_Timeout :: "u64 \<Rightarrow> u32 \<Rightarrow> u32 \<Rightarrow> sqe \<Rightarrow> sqe" where
  "prep_Timeout timespec cnt flags sqe =
    (let sqe = sqe_zeroed\<lparr>sqe_opcode := op_code IORING_OP_TIMEOUT, sqe_fd := -1, sqe_addr := timespec,
         sqe_len := 1, sqe_off_addr2 := ucast cnt, sqe_op_flags := flags\<rparr>
     in sqe)"

definition prep_TimeoutRemove :: "u64 \<Rightarrow> u32 \<Rightarrow> sqe \<Rightarrow> sqe" where
  "prep_TimeoutRemove user_data flags sqe =
    (let sqe = sqe_zeroed\<lparr>sqe_opcode := op_code IORING_OP_TIMEOUT_REMOVE, sqe_fd := -1, sqe_addr :=
         user_data, sqe_op_flags := flags\<rparr>
     in sqe)"

definition prep_Accept :: "target \<Rightarrow> u64 \<Rightarrow> u64 \<Rightarrow> u32 \<Rightarrow> sqe \<Rightarrow> sqe" where
  "prep_Accept fd addr addrlen flags sqe =
    (let sqe = sqe_zeroed\<lparr>sqe_opcode := op_code IORING_OP_ACCEPT, sqe_fd := into_raw fd, sqe_addr := addr,
         sqe_off_addr2 := addrlen, sqe_op_flags := flags\<rparr>
     in if is_fixed fd then ev_set_flags IOSQE_FIXED_FILE sqe else sqe)"

definition prep_AsyncCancel :: "u64 \<Rightarrow> u32 \<Rightarrow> sqe \<Rightarrow> sqe" where
  "prep_AsyncCancel user_data flags sqe =
    (let sqe = sqe_zeroed\<lparr>sqe_opcode := op_code IORING_OP_ASYNC_CANCEL, sqe_fd := -1, sqe_addr :=
         user_data, sqe_op_flags := flags\<rparr>
     in sqe)"

definition prep_LinkTimeout :: "u64 \<Rightarrow> u32 \<Rightarrow> sqe \<Rightarrow> sqe" where
  "prep_LinkTimeout timespec flags sqe =
    (let sqe = sqe_zeroed\<lparr>sqe_opcode := op_code IORING_OP_LINK_TIMEOUT, sqe_fd := -1, sqe_addr :=
         timespec, sqe_op_flags := flags\<rparr>
     in sqe)"

definition prep_Connect :: "target \<Rightarrow> u64 \<Rightarrow> u64 \<Rightarrow> sqe \<Rightarrow> sqe" where
  "prep_Connect fd addr addrlen sqe =
    (let sqe = sqe_zeroed\<lparr>sqe_opcode := op_code IORING_OP_CONNECT, sqe_fd := into_raw fd, sqe_addr :=
         addr, sqe_off_addr2 := addrlen\<rparr>
     in if is_fixed fd then ev_set_flags IOSQE_FIXED_FILE sqe else sqe)"

definition prep_Fallocate :: "target \<Rightarrow> u32 \<Rightarrow> u64 \<Rightarrow> 32 word \<Rightarrow> sqe \<Rightarrow> sqe" where
  "prep_Fallocate fd len offset mode sqe =
    (let sqe = sqe_zeroed\<lparr>sqe_opcode := op_code IORING_OP_FALLOCATE, sqe_fd := into_raw fd, sqe_off_addr2
         := offset, sqe_len := mode, sqe_addr := ucast len\<rparr>
     in if is_fixed fd then ev_add_flags IOSQE_FIXED_FILE sqe else sqe)"

definition prep_Fadvise :: "target \<Rightarrow> u64 \<Rightarrow> 32 word \<Rightarrow> u64 \<Rightarrow> sqe \<Rightarrow> sqe" where
  "prep_Fadvise fd len advice offset sqe =
    (let sqe = sqe_zeroed\<lparr>sqe_opcode := op_code IORING_OP_FADVISE, sqe_fd := into_raw fd, sqe_len :=
         off_to_u32 len, sqe_off_addr2 := offset, sqe_op_flags := advice\<rparr>
     in if is_fixed fd then ev_add_flags IOSQE_FIXED_FILE sqe else sqe)"

definition prep_Madvise :: "u64 \<Rightarrow> u64 \<Rightarrow> 32 word \<Rightarrow> sqe \<Rightarrow> sqe" where
  "prep_Madvise addr len advice sqe =
    (let sqe = sqe_zeroed\<lparr>sqe_opcode := op_code IORING_OP_MADVISE, sqe_fd := -1, sqe_addr := addr, sqe_len
         := off_to_u32 len, sqe_op_flags := advice\<rparr>
     in sqe)"

definition prep_OpenAt :: "32 word \<Rightarrow> u64 \<Rightarrow> 32 word \<Rightarrow> u32 \<Rightarrow> sqe \<Rightarrow> sqe" where
  "prep_OpenAt dirfd pathname flags mode sqe =
    (let sqe = ev_clear sqe;
         sqe = sqe\<lparr>sqe_opcode := op_code IORING_OP_OPENAT, sqe_fd := dirfd, sqe_addr := pathname,
         sqe_len := mode, sqe_op_flags := flags\<rparr>
     in sqe)"

definition prep_OpenAt2 :: "32 word \<Rightarrow> u64 \<Rightarrow> u64 \<Rightarrow> u32 \<Rightarrow> sqe \<Rightarrow> sqe" where
  "prep_OpenAt2 dirfd pathname how len sqe =
    (let sqe = ev_clear sqe;
         sqe = sqe\<lparr>sqe_opcode := op_code IORING_OP_OPENAT2, sqe_fd := dirfd, sqe_addr := pathname,
         sqe_len := len, sqe_off_addr2 := how\<rparr>
     in sqe)"

definition prep_Close :: "32 word \<Rightarrow> sqe \<Rightarrow> sqe" where
  "prep_Close fd sqe =
    (let sqe = ev_clear sqe;
         sqe = sqe\<lparr>sqe_opcode := op_code IORING_OP_CLOSE, sqe_fd := fd\<rparr>
     in sqe)"

definition prep_Statx :: "32 word \<Rightarrow> u64 \<Rightarrow> u64 \<Rightarrow> 32 word \<Rightarrow> u32 \<Rightarrow> sqe \<Rightarrow> sqe" where
  "prep_Statx dirfd pathname statxbuf flags msk sqe =
    (let sqe = ev_clear sqe;
         sqe = sqe\<lparr>sqe_opcode := op_code IORING_OP_STATX, sqe_fd := dirfd, sqe_addr := pathname,
         sqe_len := msk, sqe_off_addr2 := statxbuf, sqe_op_flags := flags\<rparr>
     in sqe)"

definition prep_Read :: "target \<Rightarrow> u64 \<Rightarrow> u32 \<Rightarrow> u64 \<Rightarrow> u16 \<Rightarrow> u32 \<Rightarrow> sqe \<Rightarrow> sqe" where
  "prep_Read fd buf len offset ioprio rw_flags sqe =
    (let sqe = ev_clear sqe;
         sqe = sqe\<lparr>sqe_opcode := op_code IORING_OP_READ, sqe_fd := into_raw fd, sqe_ioprio :=
         ioprio, sqe_addr := buf, sqe_len := len, sqe_off_addr2 := offset, sqe_op_flags
         := rw_flags\<rparr>
     in if is_fixed fd then ev_add_flags IOSQE_FIXED_FILE sqe else sqe)"

definition prep_Write :: "target \<Rightarrow> u64 \<Rightarrow> u32 \<Rightarrow> u64 \<Rightarrow> u16 \<Rightarrow> u32 \<Rightarrow> sqe \<Rightarrow> sqe" where
  "prep_Write fd buf len offset ioprio rw_flags sqe =
    (let sqe = ev_clear sqe;
         sqe = (if is_fixed fd then ev_add_flags IOSQE_FIXED_FILE sqe else sqe);
         sqe = sqe\<lparr>sqe_opcode := op_code IORING_OP_WRITE, sqe_fd := into_raw fd, sqe_ioprio :=
         ioprio, sqe_addr := buf, sqe_len := len, sqe_off_addr2 := offset, sqe_op_flags
         := rw_flags\<rparr>
     in sqe)"

definition prep_Send :: "target \<Rightarrow> u64 \<Rightarrow> u32 \<Rightarrow> 32 word \<Rightarrow> sqe \<Rightarrow> sqe" where
  "prep_Send fd buf len flags sqe =
    (let sqe = ev_clear sqe;
         sqe = (if is_fixed fd then ev_add_flags IOSQE_FIXED_FILE sqe else sqe);
         sqe = sqe\<lparr>sqe_opcode := op_code IORING_OP_SEND, sqe_fd := into_raw fd, sqe_addr := buf,
         sqe_len := len, sqe_op_flags := flags\<rparr>
     in sqe)"

definition prep_Recv :: "target \<Rightarrow> u64 \<Rightarrow> u32 \<Rightarrow> 32 word \<Rightarrow> sqe \<Rightarrow> sqe" where
  "prep_Recv fd buf len flags sqe =
    (let sqe = ev_clear sqe;
         sqe = (if is_fixed fd then ev_add_flags IOSQE_FIXED_FILE sqe else sqe);
         sqe = sqe\<lparr>sqe_opcode := op_code IORING_OP_RECV, sqe_fd := into_raw fd, sqe_addr := buf,
         sqe_len := len, sqe_op_flags := flags\<rparr>
     in sqe)"

definition prep_EpollCtl :: "target \<Rightarrow> 32 word \<Rightarrow> 32 word \<Rightarrow> u64 \<Rightarrow> sqe \<Rightarrow> sqe" where
  "prep_EpollCtl epfd fd op ev sqe =
    (let sqe = ev_clear sqe;
         sqe = (if is_fixed epfd then ev_add_flags IOSQE_FIXED_FILE sqe else sqe);
         sqe = sqe\<lparr>sqe_opcode := op_code IORING_OP_EPOLL_CTL, sqe_fd := into_raw epfd, sqe_addr :=
         ev, sqe_len := op, sqe_off_addr2 := scast fd\<rparr>
     in sqe)"

definition prep_Splice :: "target \<Rightarrow> u64 \<Rightarrow> target \<Rightarrow> u64 \<Rightarrow> u32 \<Rightarrow> u32 \<Rightarrow> sqe \<Rightarrow> sqe" where
  "prep_Splice fd_in off_in fd_out off_out len flags sqe =
    (let sqe = ev_clear sqe;
         sqe = (if is_fixed fd_out then ev_add_flags IOSQE_FIXED_FILE sqe else sqe);
         flags = (if is_fixed fd_in then flags OR SPLICE_F_FD_IN_FIXED else flags);
         sqe = sqe\<lparr>sqe_opcode := op_code IORING_OP_SPLICE, sqe_fd := into_raw fd_out, sqe_len :=
         len, sqe_off_addr2 := off_out, sqe_splice_fd_in := into_raw fd_in, sqe_addr :=
         off_in, sqe_op_flags := flags\<rparr>
     in sqe)"

definition prep_Tee :: "target \<Rightarrow> target \<Rightarrow> u32 \<Rightarrow> u32 \<Rightarrow> sqe \<Rightarrow> sqe" where
  "prep_Tee fd_in fd_out len flags sqe =
    (let sqe = ev_clear sqe;
         sqe = (if is_fixed fd_out then ev_add_flags IOSQE_FIXED_FILE sqe else sqe);
         flags = (if is_fixed fd_in then flags OR SPLICE_F_FD_IN_FIXED else flags);
         sqe = sqe\<lparr>sqe_opcode := op_code IORING_OP_TEE, sqe_fd := into_raw fd_out, sqe_len := len,
         sqe_splice_fd_in := into_raw fd_in, sqe_op_flags := flags\<rparr>
     in sqe)"

definition prep_FilesUpdate :: "u64 \<Rightarrow> u32 \<Rightarrow> u32 \<Rightarrow> sqe \<Rightarrow> sqe" where
  "prep_FilesUpdate fds len offset sqe =
    (let sqe = ev_clear sqe;
         sqe = sqe\<lparr>sqe_opcode := op_code IORING_OP_FILES_UPDATE, sqe_fd := -1, sqe_addr := fds,
         sqe_len := len, sqe_off_addr2 := ucast offset\<rparr>
     in sqe)"

definition prep_ProvideBuffers :: "u64 \<Rightarrow> u32 \<Rightarrow> u16 \<Rightarrow> u16 \<Rightarrow> u16 \<Rightarrow> sqe \<Rightarrow> sqe" where
  "prep_ProvideBuffers addr len nbufs buf_group bid sqe =
    (let sqe = ev_clear sqe;
         sqe = sqe\<lparr>sqe_opcode := op_code IORING_OP_PROVIDE_BUFFERS, sqe_fd := ucast nbufs, sqe_addr
         := addr, sqe_len := len, sqe_off_addr2 := ucast bid, sqe_buf_info := buf_group\<rparr>
     in sqe)"

definition prep_RemoveBuffers :: "u16 \<Rightarrow> u16 \<Rightarrow> sqe \<Rightarrow> sqe" where
  "prep_RemoveBuffers nbufs buf_group sqe =
    (let sqe = ev_clear sqe;
         sqe = sqe\<lparr>sqe_opcode := op_code IORING_OP_REMOVE_BUFFERS, sqe_fd := ucast nbufs,
         sqe_buf_info := buf_group\<rparr>
     in sqe)"

primrec prep_sqe :: "u16 \<Rightarrow> sqe_op \<Rightarrow> sqe \<Rightarrow> sqe" where
  "prep_sqe pad Nop = prep_Nop"
| "prep_sqe pad (ReadVectored fd iovec len ioprio offset rw_flags) = prep_ReadVectored fd iovec len ioprio offset rw_flags"
| "prep_sqe pad (WriteVectored fd iovec len ioprio offset rw_flags) = prep_WriteVectored fd iovec len ioprio offset rw_flags"
| "prep_sqe pad (ReadFixed fd buf len buf_index offset ioprio rw_flags) = prep_ReadFixed fd buf len buf_index offset ioprio rw_flags"
| "prep_sqe pad (WriteFixed fd buf len buf_index ioprio offset rw_flags) = prep_WriteFixed fd buf len buf_index ioprio offset rw_flags"
| "prep_sqe pad (PollAdd fd poll_events) = prep_PollAdd pad fd poll_events"
| "prep_sqe pad (PollRemove user_data) = prep_PollRemove user_data"
| "prep_sqe pad (SyncFileRange fd len offset flags) = prep_SyncFileRange fd len offset flags"
| "prep_sqe pad (SendMsg fd msg ioprio flags) = prep_SendMsg fd msg ioprio flags"
| "prep_sqe pad (RecvMsg fd msg ioprio flags) = prep_RecvMsg fd msg ioprio flags"
| "prep_sqe pad (Timeout timespec cnt flags) = prep_Timeout timespec cnt flags"
| "prep_sqe pad (TimeoutRemove user_data flags) = prep_TimeoutRemove user_data flags"
| "prep_sqe pad (Accept fd addr addrlen flags) = prep_Accept fd addr addrlen flags"
| "prep_sqe pad (AsyncCancel user_data flags) = prep_AsyncCancel user_data flags"
| "prep_sqe pad (LinkTimeout timespec flags) = prep_LinkTimeout timespec flags"
| "prep_sqe pad (Connect fd addr addrlen) = prep_Connect fd addr addrlen"
| "prep_sqe pad (Fallocate fd len offset mode) = prep_Fallocate fd len offset mode"
| "prep_sqe pad (Fadvise fd len advice offset) = prep_Fadvise fd len advice offset"
| "prep_sqe pad (Madvise addr len advice) = prep_Madvise addr len advice"
| "prep_sqe pad (OpenAt dirfd pathname flags mode) = prep_OpenAt dirfd pathname flags mode"
| "prep_sqe pad (OpenAt2 dirfd pathname how len) = prep_OpenAt2 dirfd pathname how len"
| "prep_sqe pad (Close fd) = prep_Close fd"
| "prep_sqe pad (Statx dirfd pathname statxbuf flags msk) = prep_Statx dirfd pathname statxbuf flags msk"
| "prep_sqe pad (Read fd buf len offset ioprio rw_flags) = prep_Read fd buf len offset ioprio rw_flags"
| "prep_sqe pad (Write fd buf len offset ioprio rw_flags) = prep_Write fd buf len offset ioprio rw_flags"
| "prep_sqe pad (Send fd buf len flags) = prep_Send fd buf len flags"
| "prep_sqe pad (Recv fd buf len flags) = prep_Recv fd buf len flags"
| "prep_sqe pad (EpollCtl epfd fd op ev) = prep_EpollCtl epfd fd op ev"
| "prep_sqe pad (Splice fd_in off_in fd_out off_out len flags) = prep_Splice fd_in off_in fd_out off_out len flags"
| "prep_sqe pad (Tee fd_in fd_out len flags) = prep_Tee fd_in fd_out len flags"
| "prep_sqe pad (FilesUpdate fds len offset) = prep_FilesUpdate fds len offset"
| "prep_sqe pad (ProvideBuffers addr len nbufs buf_group bid) = prep_ProvideBuffers addr len nbufs buf_group bid"
| "prep_sqe pad (RemoveBuffers nbufs buf_group) = prep_RemoveBuffers nbufs buf_group"

lemmas prep_defs =
  prep_Nop_def prep_ReadVectored_def prep_WriteVectored_def prep_ReadFixed_def prep_WriteFixed_def
  prep_PollAdd_def prep_PollRemove_def prep_SyncFileRange_def prep_SendMsg_def prep_RecvMsg_def
  prep_Timeout_def prep_TimeoutRemove_def prep_Accept_def prep_AsyncCancel_def prep_LinkTimeout_def
  prep_Connect_def prep_Fallocate_def prep_Fadvise_def prep_Madvise_def prep_OpenAt_def
  prep_OpenAt2_def prep_Close_def prep_Statx_def prep_Read_def prep_Write_def
  prep_Send_def prep_Recv_def prep_EpollCtl_def prep_Splice_def prep_Tee_def
  prep_FilesUpdate_def prep_ProvideBuffers_def prep_RemoveBuffers_def

definition target_of :: "bool \<Rightarrow> 32 word \<Rightarrow> target" where
  "target_of fixed raw = (if fixed then Fixed raw else Fd raw)"

definition splice_flags :: "target \<Rightarrow> u32 \<Rightarrow> u32" where
  "splice_flags fd_in flags = (if is_fixed fd_in then flags OR SPLICE_F_FD_IN_FIXED else flags)"

section \<open>Reading an entry back\<close>

text \<open>What an entry carries of an operation: the fields that \<open>prep_sqe\<close> never reads are gone,
  and the length of \<open>Fadvise\<close> and \<open>Madvise\<close> is clamped.\<close>

definition carried :: "sqe_op \<Rightarrow> sqe_op" where
  "carried op = (case op of
      ReadVectored fd iovec len ioprio offset rw_flags \<Rightarrow> ReadVectored fd iovec len ioprio offset 0
    | WriteVectored fd iovec len ioprio offset rw_flags \<Rightarrow> WriteVectored fd iovec len ioprio offset 0
    | ReadFixed fd buf len buf_index offset ioprio rw_flags \<Rightarrow> ReadFixed fd buf len buf_index offset ioprio 0
    | WriteFixed fd buf len buf_index ioprio offset rw_flags \<Rightarrow> WriteFixed fd buf len buf_index ioprio offset 0
    | SendMsg fd msg ioprio flags \<Rightarrow> SendMsg fd msg 0 flags
    | RecvMsg fd msg ioprio flags \<Rightarrow> RecvMsg fd msg 0 flags
    | Fadvise fd len advice offset \<Rightarrow> Fadvise fd (ucast (off_to_u32 len)) advice offset
    | Madvise addr len advice \<Rightarrow> Madvise addr (ucast (off_to_u32 len)) advice
    | Splice fd_in off_in fd_out off_out len flags \<Rightarrow> Splice (target_of (contains (splice_flags fd_in flags) SPLICE_F_FD_IN_FIXED) (into_raw fd_in)) off_in fd_out off_out len (splice_flags fd_in flags)
    | Tee fd_in fd_out len flags \<Rightarrow> Tee (target_of (contains (splice_flags fd_in flags) SPLICE_F_FD_IN_FIXED) (into_raw fd_in)) fd_out len (splice_flags fd_in flags)
    | _ \<Rightarrow> op)"

text \<open>The operation an entry stands for, by its opcode.\<close>

definition unprep_op :: "IoRingOp \<Rightarrow> sqe \<Rightarrow> sqe_op option" where
  "unprep_op c s = (case c of
      IORING_OP_NOP \<Rightarrow> Some Nop
    | IORING_OP_READV \<Rightarrow> Some (ReadVectored (target_of (contains (sqe_flags s) IOSQE_FIXED_FILE) (sqe_fd s)) (sqe_addr s) (sqe_len s) (sqe_ioprio s) (sqe_off_addr2 s) 0)
    | IORING_OP_WRITEV \<Rightarrow> Some (WriteVectored (target_of (contains (sqe_flags s) IOSQE_FIXED_FILE) (sqe_fd s)) (sqe_addr s) (sqe_len s) (sqe_ioprio s) (sqe_off_addr2 s) 0)
    | IORING_OP_READ_FIXED \<Rightarrow> Some (ReadFixed (target_of (contains (sqe_flags s) IOSQE_FIXED_FILE) (sqe_fd s)) (sqe_addr s) (sqe_len s) (sqe_buf_info s) (sqe_off_addr2 s) (sqe_ioprio s) 0)
    | IORING_OP_WRITE_FIXED \<Rightarrow> Some (WriteFixed (target_of (contains (sqe_flags s) IOSQE_FIXED_FILE) (sqe_fd s)) (sqe_addr s) (sqe_len s) (sqe_buf_info s) (sqe_ioprio s) (sqe_off_addr2 s) 0)
    | IORING_OP_POLL_ADD \<Rightarrow> Some (PollAdd (target_of (contains (sqe_flags s) IOSQE_FIXED_FILE) (sqe_fd s)) (ucast (sqe_op_flags s)))
    | IORING_OP_POLL_REMOVE \<Rightarrow> Some (PollRemove (sqe_addr s))
    | IORING_OP_SYNC_FILE_RANGE \<Rightarrow> Some (SyncFileRange (target_of (contains (sqe_flags s) IOSQE_FIXED_FILE) (sqe_fd s)) (sqe_len s) (sqe_off_addr2 s) (sqe_op_flags s))
    | IORING_OP_SENDMSG \<Rightarrow> Some (SendMsg (target_of (contains (sqe_flags s) IOSQE_FIXED_FILE) (sqe_fd s)) (sqe_addr s) 0 (sqe_op_flags s))
    | IORING_OP_RECVMSG \<Rightarrow> Some (RecvMsg (target_of (contains (sqe_flags s) IOSQE_FIXED_FILE) (sqe_fd s)) (sqe_addr s) 0 (sqe_op_flags s))
    | IORING_OP_TIMEOUT \<Rightarrow> Some (Timeout (sqe_addr s) (ucast (sqe_off_addr2 s)) (sqe_op_flags s))
    | IORING_OP_TIMEOUT_REMOVE \<Rightarrow> Some (TimeoutRemove (sqe_addr s) (sqe_op_flags s))
    | IORING_OP_ACCEPT \<Rightarrow> Some (Accept (target_of (contains (sqe_flags s) IOSQE_FIXED_FILE) (sqe_fd s)) (sqe_addr s) (sqe_off_addr2 s) (sqe_op_flags s))
    | IORING_OP_ASYNC_CANCEL \<Rightarrow> Some (AsyncCancel (sqe_addr s) (sqe_op_flags s))
    | IORING_OP_LINK_TIMEOUT \<Rightarrow> Some (LinkTimeout (sqe_addr s) (sqe_op_flags s))
    | IORING_OP_CONNECT \<Rightarrow> Some (Connect (target_of (contains (sqe_flags s) IOSQE_FIXED_FILE) (sqe_fd s)) (sqe_addr s) (sqe_off_addr2 s))
    | IORING_OP_FALLOCATE \<Rightarrow> Some (Fallocate (target_of (contains (sqe_flags s) IOSQE_FIXED_FILE) (sqe_fd s)) (ucast (sqe_addr s)) (sqe_off_addr2 s) (sqe_len s))
    | IORING_OP_FADVISE \<Rightarrow> Some (Fadvise (target_of (contains (sqe_flags s) IOSQE_FIXED_FILE) (sqe_fd s)) (ucast (sqe_len s)) (sqe_op_flags s) (sqe_off_addr2 s))
    | IORING_OP_MADVISE \<Rightarrow> Some (Madvise (sqe_addr s) (ucast (sqe_len s)) (sqe_op_flags s))
    | IORING_OP_OPENAT \<Rightarrow> Some (OpenAt (sqe_fd s) (sqe_addr s) (sqe_op_flags s) (sqe_len s))
    | IORING_OP_OPENAT2 \<Rightarrow> Some (OpenAt2 (sqe_fd s) (sqe_addr s) (sqe_off_addr2 s) (sqe_len s))
    | IORING_OP_CLOSE \<Rightarrow> Some (Close (sqe_fd s))
    | IORING_OP_STATX \<Rightarrow> Some (Statx (sqe_fd s) (sqe_addr s) (sqe_off_addr2 s) (sqe_op_flags s) (sqe_len s))
    | IORING_OP_READ \<Rightarrow> Some (Read (target_of (contains (sqe_flags s) IOSQE_FIXED_FILE) (sqe_fd s)) (sqe_addr s) (sqe_len s) (sqe_off_addr2 s) (sqe_ioprio s) (sqe_op_flags s))
    | IORING_OP_WRITE \<Rightarrow> Some (Write (target_of (contains (sqe_flags s) IOSQE_FIXED_FILE) (sqe_fd s)) (sqe_addr s) (sqe_len s) (sqe_off_addr2 s) (sqe_ioprio s) (sqe_op_flags s))
    | IORING_OP_SEND \<Rightarrow> Some (Send (target_of (contains (sqe_flags s) IOSQE_FIXED_FILE) (sqe_fd s)) (sqe_addr s) (sqe_len s) (sqe_op_flags s))
    | IORING_OP_RECV \<Rightarrow> Some (Recv (target_of (contains (sqe_flags s) IOSQE_FIXED_FILE) (sqe_fd s)) (sqe_addr s) (sqe_len s) (sqe_op_flags s))
    | IORING_OP_EPOLL_CTL \<Rightarrow> Some (EpollCtl (target_of (contains (sqe_flags s) IOSQE_FIXED_FILE) (sqe_fd s)) (ucast (sqe_off_addr2 s)) (sqe_len s) (sqe_addr s))
    | IORING_OP_SPLICE \<Rightarrow> Some (Splice (target_of (contains (sqe_op_flags s) SPLICE_F_FD_IN_FIXED) (sqe_splice_fd_in s)) (sqe_addr s) (target_of (contains (sqe_flags s) IOSQE_FIXED_FILE) (sqe_fd s)) (sqe_off_addr2 s) (sqe_len s) (sqe_op_flags s))
    | IORING_OP_TEE \<Rightarrow> Some (Tee (target_of (contains (sqe_op_flags s) SPLICE_F_FD_IN_FIXED) (sqe_splice_fd_in s)) (target_of (contains (sqe_flags s) IOSQE_FIXED_FILE) (sqe_fd s)) (sqe_len s) (sqe_op_flags s))
    | IORING_OP_FILES_UPDATE \<Rightarrow> Some (FilesUpdate (sqe_addr s) (sqe_len s) (ucast (sqe_off_addr2 s)))
    | IORING_OP_PROVIDE_BUFFERS \<Rightarrow> Some (ProvideBuffers (sqe_addr s) (sqe_len s) (ucast (sqe_fd s)) (sqe_buf_info s) (ucast (sqe_off_addr2 s)))
    | IORING_OP_REMOVE_BUFFERS \<Rightarrow> Some (RemoveBuffers (ucast (sqe_fd s)) (sqe_buf_info s))
    | _ \<Rightarrow> None)"

definition unprep :: "sqe \<Rightarrow> sqe_op option" where
  "unprep s = (case op_of_code (sqe_opcode s) of None \<Rightarrow> None | Some c \<Rightarrow> unprep_op c s)"

section \<open>What every entry has\<close>

lemma ucast_ucast_up:
  "LENGTH('a) \<le> LENGTH('b) \<Longrightarrow> (ucast (ucast x :: 'b::len word) :: 'a::len word) = x"
  by (rule bit_word_eqI) (simp add: bit_simps)

lemma ucast_scast_up:
  "LENGTH('a) < LENGTH('b) \<Longrightarrow> (ucast (scast x :: 'b::len word) :: 'a::len word) = x"
  by (rule bit_word_eqI) (auto simp: bit_simps)

lemma prep_opcode: "sqe_opcode (prep_sqe pad op s) = op_code (OPCODE op)"
  by (cases op) (simp_all add: prep_defs ev_simps ev_clear_def Let_def)

text \<open>The target that decides about \<open>FIXED_FILE\<close>.\<close>

definition op_target :: "sqe_op \<Rightarrow> target option" where
  "op_target op = (case op of
      ReadVectored fd _ _ _ _ _ \<Rightarrow> Some fd | WriteVectored fd _ _ _ _ _ \<Rightarrow> Some fd
    | ReadFixed fd _ _ _ _ _ _ \<Rightarrow> Some fd | WriteFixed fd _ _ _ _ _ _ \<Rightarrow> Some fd
    | PollAdd fd _ \<Rightarrow> Some fd | SyncFileRange fd _ _ _ \<Rightarrow> Some fd
    | SendMsg fd _ _ _ \<Rightarrow> Some fd | RecvMsg fd _ _ _ \<Rightarrow> Some fd
    | Accept fd _ _ _ \<Rightarrow> Some fd | Connect fd _ _ \<Rightarrow> Some fd
    | Fallocate fd _ _ _ \<Rightarrow> Some fd | Fadvise fd _ _ _ \<Rightarrow> Some fd
    | Read fd _ _ _ _ _ \<Rightarrow> Some fd | Write fd _ _ _ _ _ \<Rightarrow> Some fd
    | Send fd _ _ _ \<Rightarrow> Some fd | Recv fd _ _ _ \<Rightarrow> Some fd
    | EpollCtl fd _ _ _ \<Rightarrow> Some fd | Splice _ _ fd _ _ _ \<Rightarrow> Some fd | Tee _ fd _ _ \<Rightarrow> Some fd
    | _ \<Rightarrow> None)"

theorem prep_flags:
  "sqe_flags (prep_sqe pad op s) =
    (case op_target op of Some (Fixed _) \<Rightarrow> IOSQE_FIXED_FILE | _ \<Rightarrow> 0)"
  by (cases op rule: sqe_op.exhaust)
     (auto simp: op_target_def prep_defs ev_simps ev_clear_def Let_def sqe_zeroed_def split: target.splits)

text \<open>Entries are made from scratch: nothing of the slot's old content survives.\<close>

lemma prep_fresh:
  "prep_sqe pad op s = prep_sqe pad op t" and
  "sqe_user_data (prep_sqe pad op s) = 0" and "sqe_personality (prep_sqe pad op s) = 0"
  by (cases op; simp add: prep_defs ev_simps ev_clear_def Let_def sqe_zeroed_def)+

lemma contains_or [simp]: "contains (a OR b) b"
  by (rule contains_def [THEN iffD2]) (rule bit_word_eqI, auto simp: bit_simps)

lemma fixed_flag_values [simp]:
  "contains IOSQE_FIXED_FILE IOSQE_FIXED_FILE" "\<not> contains 0 IOSQE_FIXED_FILE"
  "\<not> contains 0 SPLICE_F_FD_IN_FIXED"
  by (simp_all add: contains_def IOSQE_FIXED_FILE_def SPLICE_F_FD_IN_FIXED_def)

lemma poll_events_low [simp]:
  "ucast (push_bit 16 (ucast (pad :: u16)) OR ucast (x :: u16) :: u32) = x"
  by (rule bit_word_eqI) (auto simp: bit_simps)

lemma target_raw [simp]:
  "is_fixed t \<Longrightarrow> Fixed (into_raw t) = t" "\<not> is_fixed t \<Longrightarrow> Fd (into_raw t) = t"
  by (cases t; simp)+

lemmas up_casts [simp] =
  ucast_ucast_up [where 'a = 32 and 'b = 64, simplified]
  ucast_ucast_up [where 'a = 16 and 'b = 64, simplified]
  ucast_ucast_up [where 'a = 16 and 'b = 32, simplified]
  ucast_scast_up [where 'a = 32 and 'b = 64, simplified]

lemma unprep_prep: "unprep (prep_sqe pad op s) = Some (carried op)"
proof -
  have "unprep_op (OPCODE op) (prep_sqe pad op s) = Some (carried op)"
    by (cases op)
       (auto simp: unprep_op_def carried_def prep_defs ev_simps ev_clear_def Let_def sqe_zeroed_def
          splice_flags_def target_of_def split: target.splits)
  then show ?thesis by (simp add: unprep_def prep_opcode)
qed


end
