(* ===== verification/Completion.thy ===== *)
theory Completion
  imports Io_Context Sqe_Types
begin

text \<open>
  \<open>hamerkop/src/executor/future.rs\<close>: the future that waits for one completion.  Its state
  is an index into the table of completion events.  \<open>CURRENT_TASK\<close> is the argument
  \<open>current\<close>.
\<close>

record cfut =
  cf_cqid :: nat
  cf_must_wait :: bool

definition cf_from_ctx :: "('f, 'k) ioctx \<Rightarrow> ((cfut \<times> nat) \<times> ('f, 'k) ioctx) outcome" where
  "cf_from_ctx ctx =
     and_then (sm_insert (io_completions ctx) (completion_event_new NO_TASK_SENTINEL)) (\<lambda>(cqid, comps).
       Done ((\<lparr>cf_cqid = cqid, cf_must_wait = False\<rparr>, cqid), ctx\<lparr>io_completions := comps\<rparr>))"

definition cf_set_must_wait :: "bool \<Rightarrow> cfut \<Rightarrow> cfut" where
  "cf_set_must_wait b fut = fut\<lparr>cf_must_wait := b\<rparr>"

definition cf_poll :: "nat option \<Rightarrow> cfut \<Rightarrow> ('f, 'k) ioctx \<Rightarrow> (cqe poll \<times> ('f, 'k) ioctx) outcome" where
  "cf_poll current fut ctx =
     (case sm_get (io_completions ctx) (cf_cqid fut) of
        None \<Rightarrow> Panic
      | Some ce \<Rightarrow>
          (case current of
             None \<Rightarrow> Panic
           | Some t \<Rightarrow>
               Done (case cev_cqe ce of Some cqe \<Rightarrow> Ready cqe | None \<Rightarrow> Pending,
                     ctx\<lparr>io_completions :=
                       sm_set (io_completions ctx) (cf_cqid fut) (ce\<lparr>cev_task := t\<rparr>)\<rparr>)))"

section \<open>Dropping\<close>

text \<open>The first loop of \<open>drop\<close>: submits until there is a free slot, then writes the
  cancellation into it.\<close>

definition cancel_entry :: "nat \<Rightarrow> sqe \<Rightarrow> sqe" where
  "cancel_entry cqid sqe =
     ev_set_user_data (- 1) (prep_sqe 0 (new_AsyncCancel (of_nat cqid)) sqe)"

partial_function (option) cancel_loop ::
  "bool \<Rightarrow> 'k enter \<Rightarrow> nat \<Rightarrow> ('f, 'k) ioctx \<Rightarrow> ('f, 'k) ioctx outcome option" where
  "cancel_loop dbg enter cqid ctx =
     obind (Some (sq_modify dbg 0 (cancel_entry cqid) (io_sq ctx))) (\<lambda>r.
       case r of
         Some sq \<Rightarrow> Some (Done (ctx\<lparr>io_ring := (io_ring ctx)\<lparr>u_sq := sq\<rparr>\<rparr>))
       | None \<Rightarrow> obind (io_submit dbg enter 0 ctx) (\<lambda>(_, ctx'). cancel_loop dbg enter cqid ctx'))"

text \<open>The second loop: waits until the event has its completion.\<close>

partial_function (option) drop_loop ::
  "bool \<Rightarrow> 'k enter \<Rightarrow> nat \<Rightarrow> ('f, 'k) ioctx \<Rightarrow> ('f, 'k) ioctx outcome option" where
  "drop_loop dbg enter cqid ctx =
     obind (io_submit dbg enter 1 ctx) (\<lambda>(_, ctx').
       case sm_get (io_completions ctx') cqid of
         None \<Rightarrow> Some Panic
       | Some ce \<Rightarrow> if cev_cqe ce \<noteq> None then Some (Done ctx') else drop_loop dbg enter cqid ctx')"

definition cf_drop :: "bool \<Rightarrow> 'k enter \<Rightarrow> cfut \<Rightarrow> ('f, 'k) ioctx \<Rightarrow> ('f, 'k) ioctx outcome option" where
  "cf_drop dbg enter fut ctx =
     (case sm_get (io_completions ctx) (cf_cqid fut) of
        None \<Rightarrow> Some Panic
      | Some ce \<Rightarrow>
          if cev_cqe ce \<noteq> None
          then Some (Done (ctx\<lparr>io_completions := snd (sm_remove (io_completions ctx) (cf_cqid fut))\<rparr>))
          else if \<not> cf_must_wait fut
          then Some (Done (ctx\<lparr>io_completions :=
                 sm_set (io_completions ctx) (cf_cqid fut) (ce\<lparr>cev_task := DEAD_TASK_SENTINEL\<rparr>)\<rparr>))
          else obind (cancel_loop dbg enter (cf_cqid fut)
                  (ctx\<lparr>io_completions :=
                    sm_set (io_completions ctx) (cf_cqid fut) (ce\<lparr>cev_task := NO_TASK_SENTINEL\<rparr>)\<rparr>))
                (\<lambda>ctx'. drop_loop dbg enter (cf_cqid fut) ctx'))"

section \<open>The life of a completion\<close>

lemma cf_from_ctx_spec:
  assumes inv: "io_inv ctx" and room: "sm_len (io_completions ctx) < sm_cap"
  shows "\<exists>fut ctx'. cf_from_ctx ctx = Done ((fut, cf_cqid fut), ctx') \<and> io_inv ctx' \<and>
    \<not> cf_must_wait fut \<and> sm_get (io_completions ctx) (cf_cqid fut) = None \<and>
    sm_get (io_completions ctx') =
      (sm_get (io_completions ctx))(cf_cqid fut \<mapsto> completion_event_new NO_TASK_SENTINEL) \<and>
    ctx' = ctx\<lparr>io_completions := io_completions ctx'\<rparr>"
proof -
  have C: "sm_inv (io_completions ctx)" using inv by (simp add: io_inv_def)
  obtain i comps where i: "sm_insert (io_completions ctx) (completion_event_new NO_TASK_SENTINEL) = Done (i, comps)"
    "sm_inv comps" "sm_get (io_completions ctx) i = None"
    "sm_get comps = (sm_get (io_completions ctx))(i \<mapsto> completion_event_new NO_TASK_SENTINEL)"
    using sm.ins_law [OF C room] by blast
  then show ?thesis using inv
    by (intro exI [of _ "\<lparr>cf_cqid = i, cf_must_wait = False\<rparr>"] exI [of _ "ctx\<lparr>io_completions := comps\<rparr>"])
      (simp add: cf_from_ctx_def io_inv_def)
qed

lemma cf_poll_spec:
  assumes inv: "io_inv ctx" and e: "sm_get (io_completions ctx) (cf_cqid fut) = Some ce"
  shows "\<exists>ctx'. cf_poll (Some t) fut ctx =
      Done (case cev_cqe ce of Some c \<Rightarrow> Ready c | None \<Rightarrow> Pending, ctx') \<and> io_inv ctx' \<and>
    sm_get (io_completions ctx') = (sm_get (io_completions ctx))(cf_cqid fut \<mapsto> ce\<lparr>cev_task := t\<rparr>) \<and>
    ctx' = ctx\<lparr>io_completions := io_completions ctx'\<rparr>"
proof -
  have C: "sm_inv (io_completions ctx)" using inv by (simp add: io_inv_def)
  show ?thesis using inv e sm.put_inv [OF C] sm.put_get [OF C, of "cf_cqid fut"]
    by (simp add: cf_poll_def io_inv_def)
qed

lemma cf_drop_ready:
  assumes inv: "io_inv ctx" and e: "sm_get (io_completions ctx) (cf_cqid fut) = Some ce"
    and c: "cev_cqe ce = Some c"
  shows "\<exists>ctx'. cf_drop dbg enter fut ctx = Some (Done ctx') \<and> io_inv ctx' \<and>
    sm_get (io_completions ctx') = (sm_get (io_completions ctx))(cf_cqid fut := None)"
proof -
  have C: "sm_inv (io_completions ctx)" using inv by (simp add: io_inv_def)
  show ?thesis using inv e c sm.del_inv [OF C] sm.del_get [OF C]
    by (simp add: cf_drop_def io_inv_def)
qed

lemma cf_drop_pending:
  assumes inv: "io_inv ctx" and e: "sm_get (io_completions ctx) (cf_cqid fut) = Some ce"
    and c: "cev_cqe ce = None" and w: "\<not> cf_must_wait fut"
  shows "\<exists>ctx'. cf_drop dbg enter fut ctx = Some (Done ctx') \<and> io_inv ctx' \<and> io_ring ctx' = io_ring ctx \<and>
    io_buffers ctx' = io_buffers ctx \<and>
    sm_get (io_completions ctx') =
      (sm_get (io_completions ctx))(cf_cqid fut \<mapsto> ce\<lparr>cev_task := DEAD_TASK_SENTINEL\<rparr>)"
proof -
  have C: "sm_inv (io_completions ctx)" using inv by (simp add: io_inv_def)
  show ?thesis using inv e c w sm.put_inv [OF C] sm.put_get [OF C, of "cf_cqid fut"]
    by (simp add: cf_drop_def io_inv_def)
qed

section \<open>Waiting in drop\<close>

text \<open>A kernel whose \<open>io_uring_enter\<close> succeeds on every call.\<close>

definition kernel_never_fails :: "'k enter \<Rightarrow> bool" where
  "kernel_never_fails enter \<longleftrightarrow> (\<forall>fd n w fl u. case enter fd n w fl u of (ret, errno, u') \<Rightarrow> 0 \<le> ret)"

lemma io_submit_no_failure:
  assumes k: "kernel_never_fails enter"
  shows "\<exists>n u. io_submit False enter w ctx = Some (Done (n, ctx\<lparr>io_ring := u\<rparr>))"
proof (cases "sq_call_flags (io_ring ctx) w")
  case None
  then show ?thesis
    by (subst io_submit.simps) (auto simp: sq_submit_and_wait_eq Let_def must_retry_def)
next
  case (Some fl)
  let ?u = "io_ring ctx"
  let ?n = "sq_ktail (u_sq ?u) - sq_sqe_tail (u_sq ?u)"
  obtain ret errno u1 where e: "enter (u_fd ?u) ?n w fl ?u = (ret, errno, u1)"
    by (cases "enter (u_fd ?u) ?n w fl ?u") auto
  have "case enter (u_fd ?u) ?n w fl ?u of (ret, errno, u') \<Rightarrow> 0 \<le> ret"
    by (rule k [unfolded kernel_never_fails_def, THEN spec, THEN spec, THEN spec, THEN spec, THEN spec])
  with e have "\<not> ret < 0" by simp
  with Some e show ?thesis
    by (subst io_submit.simps) (auto simp: sq_submit_and_wait_eq Let_def must_retry_def)
qed

text \<open>The second loop never processes completions: it only ends through the retry path.\<close>

lemma drop_loop_diverges:
  assumes k: "kernel_never_fails enter"
    and e: "sm_get (io_completions ctx) cqid = Some ce" and c: "cev_cqe ce = None"
  shows "drop_loop False enter cqid ctx = None"
proof (rule ccontr)
  assume "drop_loop False enter cqid ctx \<noteq> None"
  then obtain y where y: "drop_loop False enter cqid ctx = Some y" by blast
  have "\<not> dbg \<longrightarrow> kernel_never_fails enter' \<longrightarrow> sm_get (io_completions ctx') cqid' = Some ce \<longrightarrow> False"
    if "drop_loop dbg enter' cqid' ctx' = Some y'" for dbg enter' cqid' ctx' and y' :: "('f, 'k) ioctx outcome"
  proof (induction rule: drop_loop.raw_induct [OF _ that])
    case (1 f dbg enter cqid ctx y)
    show ?case
    proof (intro impI)
      assume dbg: "\<not> dbg" and k: "kernel_never_fails enter"
        and e: "sm_get (io_completions ctx) cqid = Some ce"
      obtain n u where s: "io_submit False enter 1 ctx = Some (Done (n, ctx\<lparr>io_ring := u\<rparr>))"
        using io_submit_no_failure [OF k] by blast
      have "f dbg enter cqid (ctx\<lparr>io_ring := u\<rparr>) = Some y"
        using 1(2) dbg s e c by simp
      from 1(1) [OF this] dbg k e show False by simp
    qed
  qed
  from this [OF y] k e show False by simp
qed

section \<open>Delivery\<close>

definition replies :: "nat \<Rightarrow> cqe list \<Rightarrow> cqe list" where
  "replies i cs = filter (\<lambda>c. unat (ce_user_data c) = i) cs"

lemma fold_delivers:
  assumes "C i = Some e" and "cev_task e \<noteq> DEAD_TASK_SENTINEL"
    and "fold (spec_cqe qf) cs (C, B, w, q) = (C', B', w', q')"
  shows "C' i = Some (if replies i cs = [] then e else e\<lparr>cev_cqe := Some (last (replies i cs))\<rparr>)"
  using assms
proof (induction cs arbitrary: C B w q e)
  case Nil
  then show ?case by (simp add: replies_def)
next
  case (Cons c cs)
  obtain C1 B1 w1 q1 where 1: "spec_cqe qf c (C, B, w, q) = (C1, B1, w1, q1)" by (metis prod_cases4)
  then have rest: "fold (spec_cqe qf) cs (C1, B1, w1, q1) = (C', B', w', q')" using Cons.prems(3) by simp
  show ?case
  proof (cases "unat (ce_user_data c) = i")
    case True
    then have "C1 i = Some (e\<lparr>cev_cqe := Some c\<rparr>)"
      using 1 Cons.prems(1,2) by (auto simp: spec_cqe_def Let_def split: if_splits prod.splits)
    from Cons.IH [OF this _ rest] Cons.prems(2) True show ?thesis by (simp add: replies_def)
  next
    case False
    then have "C1 i = Some e"
      using 1 Cons.prems(1)
      by (auto simp: spec_cqe_def Let_def split: option.splits if_splits prod.splits)
    from Cons.IH [OF this Cons.prems(2) rest] False show ?thesis by (simp add: replies_def)
  qed
qed

lemma fold_reclaims:
  assumes "C i = Some e" and "cev_task e = DEAD_TASK_SENTINEL" and "replies i cs \<noteq> []"
    and "fold (spec_cqe qf) cs (C, B, w, q) = (C', B', w', q')"
  shows "C' i = None"
proof -
  have gone: "C' i = None" if "fold (spec_cqe qf) cs (C, B, w, q) = (C', B', w', q')" "C i = None" for cs C B w q
    using that
  proof (induction cs arbitrary: C B w q)
    case Nil
    then show ?case by simp
  next
    case (Cons c cs)
    obtain C1 B1 w1 q1 where 1: "spec_cqe qf c (C, B, w, q) = (C1, B1, w1, q1)" by (metis prod_cases4)
    then have "C1 i = None" using Cons.prems(2)
      by (auto simp: spec_cqe_def Let_def split: option.splits if_splits prod.splits)
    with Cons.IH [of C1 B1 w1 q1] 1 Cons.prems(1) show ?case by simp
  qed
  show ?thesis using assms
  proof (induction cs arbitrary: C B w q)
    case Nil
    then show ?case by (simp add: replies_def)
  next
    case (Cons c cs)
    obtain C1 B1 w1 q1 where 1: "spec_cqe qf c (C, B, w, q) = (C1, B1, w1, q1)" by (metis prod_cases4)
    then have rest: "fold (spec_cqe qf) cs (C1, B1, w1, q1) = (C', B', w', q')" using Cons.prems(4) by simp
    show ?case
    proof (cases "unat (ce_user_data c) = i")
      case True
      then have "C1 i = None"
        using 1 Cons.prems(1,2) by (auto simp: spec_cqe_def Let_def split: if_splits)
      with gone [OF rest] show ?thesis .
    next
      case False
      then have "C1 i = Some e" "replies i cs \<noteq> []"
        using 1 Cons.prems(1,3)
        by (auto simp: spec_cqe_def replies_def Let_def split: option.splits if_splits prod.splits)
      with Cons.IH [of C1 B1 w1 q1] rest Cons.prems(2) show ?thesis by simp
    qed
  qed
qed

section \<open>Properties\<close>

text \<open>C12: When completion entries with the identifier of a live future are pending, processing
  the ring, polling the future and dropping it delivers the last of these entries to the
  future and then frees its identifier.\<close>

theorem completion_delivered:
  assumes inv: "io_inv ctx" and e: "sm_get (io_completions ctx) (cf_cqid fut) = Some e"
    and live: "cev_task e \<noteq> DEAD_TASK_SENTINEL"
    and c: "replies (cf_cqid fut) (cq_window (io_cq ctx)) = cs @ [c]"
  shows "\<exists>q' ctx1 ctx2 ctx3. process_cqes False qf q ctx = Done (q', ctx1) \<and>
    cf_poll (Some t) fut ctx1 = Done (Ready c, ctx2) \<and>
    cf_drop dbg enter fut ctx2 = Some (Done ctx3) \<and> io_inv ctx3 \<and>
    sm_get (io_completions ctx3) = (sm_get (io_completions ctx1))(cf_cqid fut := None)"
proof -
  obtain q' ctx1 where 1: "process_cqes False qf q ctx = Done (q', ctx1)" "io_inv ctx1"
    "io_tables q' ctx1 = fold (spec_cqe qf) (cq_window (io_cq ctx)) (io_tables q ctx)"
    using process_cqes_spec [OF inv, of qf q] by blast
  have "fold (spec_cqe qf) (cq_window (io_cq ctx))
      (sm_get (io_completions ctx), sm_get (io_buffers ctx), io_woken ctx, q)
      = (sm_get (io_completions ctx1), sm_get (io_buffers ctx1), io_woken ctx1, q')"
    using 1(3) by (simp add: io_tables_def)
  from fold_delivers [OF e live this] have e1: "sm_get (io_completions ctx1) (cf_cqid fut) = Some (e\<lparr>cev_cqe := Some c\<rparr>)"
    by (simp add: c)
  obtain ctx2 where 2: "cf_poll (Some t) fut ctx1 = Done (Ready c, ctx2)" "io_inv ctx2"
    "sm_get (io_completions ctx2) = (sm_get (io_completions ctx1))
      (cf_cqid fut \<mapsto> e\<lparr>cev_cqe := Some c, cev_task := t\<rparr>)"
    using cf_poll_spec [OF 1(2) e1, of t] by auto
  then have e2: "sm_get (io_completions ctx2) (cf_cqid fut) = Some (e\<lparr>cev_cqe := Some c, cev_task := t\<rparr>)"
    by simp
  from cf_drop_ready [OF 2(2) e2, of c dbg enter] 1(1) 2(1,3) show ?thesis by auto
qed


text \<open>A drop that has to wait for a request the kernel has not completed.\<close>

text \<open>C40: Dropping a future that has to wait for a pending request never returns when the kernel
  accepts every call: the loop never looks at the completions it waits for.\<close>

theorem waiting_drop_diverges:
  assumes k: "kernel_never_fails enter" and inv: "io_inv ctx" and sq: "sq_inv (io_sq ctx)"
    and e: "sm_get (io_completions ctx) (cf_cqid fut) = Some e" and pending: "cev_cqe e = None"
    and w: "cf_must_wait fut"
  shows "cf_drop False enter fut ctx = None"
proof -
  let ?C = "sm_set (io_completions ctx) (cf_cqid fut) (e\<lparr>cev_task := NO_TASK_SENTINEL\<rparr>)"
  let ?ctx = "ctx\<lparr>io_completions := ?C\<rparr>"
  have C: "sm_inv (io_completions ctx)" using inv by (simp add: io_inv_def)
  have "0 < sq_free (io_sq ctx)" using sq_size_le [OF sq] sq by (auto simp: sq_free_def sq_inv_def)
  then obtain sq' where "sq_modify False 0 (cancel_entry (cf_cqid fut)) (io_sq ctx) = Done (Some sq')"
    by (simp add: sq_modify_eq [OF sq])
  then have "cancel_loop False enter (cf_cqid fut) ?ctx = Some (Done (?ctx\<lparr>io_ring := (io_ring ctx)\<lparr>u_sq := sq'\<rparr>\<rparr>))"
    by (subst cancel_loop.simps) simp
  moreover have "sm_get ?C (cf_cqid fut) = Some (e\<lparr>cev_task := NO_TASK_SENTINEL\<rparr>)"
    using sm.put_get [OF C, of "cf_cqid fut"] e by simp
  then have "drop_loop False enter (cf_cqid fut) (?ctx\<lparr>io_ring := (io_ring ctx)\<lparr>u_sq := sq'\<rparr>\<rparr>) = None"
    using pending
    by (intro drop_loop_diverges [OF k, where ce = "e\<lparr>cev_task := NO_TASK_SENTINEL\<rparr>"]) simp_all
  ultimately show ?thesis using e pending w by (simp add: cf_drop_def)
qed

section \<open>Witnesses\<close>

text \<open>A context with one pending completion event and its reply in the queue.\<close>

lemma pending_demo:
  "\<exists>(ctx :: (unit, unit) ioctx) (fut :: cfut) (e :: completion_event). io_inv ctx \<and> sq_inv (io_sq ctx) \<and>
    sm_get (io_completions ctx) (cf_cqid fut) = Some e \<and> cev_cqe e = None \<and> \<not> cf_must_wait fut \<and>
    cev_task e \<noteq> DEAD_TASK_SENTINEL \<and>
    replies (cf_cqid fut) (cq_window (io_cq ctx)) = [] @ [cqe_demo (of_nat (cf_cqid fut)) 5 0]"
proof -
  have inv: "sm_inv (sm_new :: completion_event slotmap)" by (rule sm_inv_new)
  have room: "sm_len (sm_new :: completion_event slotmap) < sm_cap"
    by (simp add: sm_len_def sm_new_def sm_cap_def SENTINEL_def SLABSIZE_def USIZE_MAX_def)
  let ?e = "completion_event_new NO_TASK_SENTINEL"
  obtain i comps where 1: "sm_insert sm_new ?e = Done (i, comps)" "sm_inv comps"
    "sm_get comps = (sm_get sm_new)(i \<mapsto> ?e)"
    using sm.ins_law [OF inv room, of ?e] by auto
  have "sm_room (sm_new :: completion_event slotmap)"
    using sm_room_size [OF inv] room by (simp add: sm_len_def)
  then have i: "unat (of_nat i :: u64) = i"
    using sm_insert_slabs [OF inv _ 1(1)] by (simp add: sm_new_def SLABSIZE_def unat_of_nat)
  let ?c = "cqe_demo (of_nat i) 5 0"
  let ?cq = "cq_kernel_post ?c cq_demo"
  have cq: "cq_inv ?cq" "cq_window ?cq = [?c]"
    using cq_post_window [OF cq_demo_inv(1), of ?c] cq_demo_inv
    by (auto simp: length_0_conv [symmetric] simp del: length_0_conv)
  let ?ctx = "ctx_demo\<lparr>io_completions := comps, io_ring := ring_of sq_demo ?cq\<rparr>"
  let ?fut = "\<lparr>cf_cqid = i, cf_must_wait = False\<rparr>"
  have "io_inv ?ctx" using 1(2) cq(1) by (simp add: io_inv_def ring_of_def ctx_demo_def sm_inv_new)
  moreover have "sq_inv (io_sq ?ctx)" using sq_demo_inv(1) by (simp add: ring_of_def)
  moreover have "replies i (cq_window (io_cq ?ctx)) = [] @ [?c]"
    using cq(2) i by (simp add: replies_def ring_of_def cqe_demo_def ce_user_data_def)
  moreover have "sm_get (io_completions ?ctx) i = Some ?e" using 1(3) by simp
  ultimately show ?thesis
    by (intro exI [of _ ?ctx] exI [of _ ?fut] exI [of _ ?e]) (simp add: completion_event_new_def)
qed

theorem completion_delivered_witness:
  "\<exists>(ctx :: (unit, unit) ioctx) (fut :: cfut) q' ctx1 ctx2 ctx3. process_cqes False wake_later () ctx = Done (q', ctx1) \<and>
    cf_poll (Some 7) fut ctx1 = Done (Ready (cqe_demo (of_nat (cf_cqid fut)) 5 0), ctx2) \<and>
    cf_drop True eager_kernel fut ctx2 = Some (Done ctx3) \<and> io_inv ctx3 \<and>
    sm_get (io_completions ctx3) = (sm_get (io_completions ctx1))(cf_cqid fut := None)"
proof -
  obtain ctx :: "(unit, unit) ioctx" and fut :: cfut and e :: completion_event where d: "io_inv ctx"
    "sm_get (io_completions ctx) (cf_cqid fut) = Some e" "cev_task e \<noteq> DEAD_TASK_SENTINEL"
    "replies (cf_cqid fut) (cq_window (io_cq ctx)) = [] @ [cqe_demo (of_nat (cf_cqid fut)) 5 0]"
    using pending_demo by blast
  from completion_delivered [OF d, of wake_later "()" 7 True eager_kernel] show ?thesis by blast
qed


theorem waiting_drop_diverges_witness:
  "\<exists>(ctx :: (unit, unit) ioctx) (fut :: cfut) (e :: completion_event). io_inv ctx \<and>
    sm_get (io_completions ctx) (cf_cqid fut) = Some e \<and> cf_must_wait fut \<and>
    cf_drop False eager_kernel fut ctx = None"
proof -
  obtain ctx :: "(unit, unit) ioctx" and fut :: cfut and e :: completion_event where d: "io_inv ctx" "sq_inv (io_sq ctx)"
    "sm_get (io_completions ctx) (cf_cqid fut) = Some e" "cev_cqe e = None"
    using pending_demo by blast
  have k: "kernel_never_fails eager_kernel" by (simp add: kernel_never_fails_def eager_kernel_def)
  let ?fut = "fut\<lparr>cf_must_wait := True\<rparr>"
  from waiting_drop_diverges [OF k d(1,2), of ?fut e] d show ?thesis
    by (intro exI [of _ ctx] exI [of _ ?fut] exI [of _ e]) simp
qed

end
