(* ===== verification/Io_Handle.thy ===== *)
theory Io_Handle
  imports Completion
begin

text \<open>
  \<open>LinkedSubmitter\<close> and \<open>IOHandle\<close> of \<open>hamerkop/src/executor/handle.rs\<close> and
  \<open>hamerkop/src/error.rs\<close>.  The state of a submitter is the number \<open>cnt\<close> of entries it has
  filled; an asynchronous block is a value of \<open>io_future\<close> with its \<open>poll\<close> function.  The
  address of a buffer's memory, which the allocator chose, is the argument \<open>ptr\<close>.
\<close>

section \<open>Errors that return the buffer\<close>

record provide_error =
  pe_error :: io_error
  pe_buffer :: "u8 fixedvec"

definition pe_new :: "io_error \<Rightarrow> u8 fixedvec \<Rightarrow> provide_error" where
  "pe_new error buffer = \<lparr>pe_error = error, pe_buffer = buffer\<rparr>"

definition pe_take_buffer :: "provide_error \<Rightarrow> u8 fixedvec \<times> provide_error" where
  "pe_take_buffer p = (pe_buffer p, p\<lparr>pe_buffer := fv_with_capacity 0\<rparr>)"

definition pe_into_buffer :: "provide_error \<Rightarrow> u8 fixedvec" where
  "pe_into_buffer p = pe_buffer p"

definition pe_into_error :: "provide_error \<Rightarrow> io_error" where
  "pe_into_error p = pe_error p"

section \<open>Linked submission\<close>

partial_function (option) slot_loop ::
  "bool \<Rightarrow> 'k enter \<Rightarrow> nat \<Rightarrow> (sqe \<Rightarrow> sqe) \<Rightarrow> ('f, 'k) ioctx \<Rightarrow>
    ((io_error + unit) \<times> ('f, 'k) ioctx) outcome option" where
  "slot_loop dbg enter i f ctx =
     obind (Some (sq_modify dbg i f (io_sq ctx))) (\<lambda>r.
       case r of
         Some sq \<Rightarrow> Some (Done (Inr (), ctx\<lparr>io_ring := (io_ring ctx)\<lparr>u_sq := sq\<rparr>\<rparr>))
       | None \<Rightarrow> obind (io_submit dbg enter 0 ctx) (\<lambda>(res, ctx').
           case res of Inl e \<Rightarrow> Some (Done (Inl e, ctx')) | Inr _ \<Rightarrow> slot_loop dbg enter i f ctx'))"

definition link_entry :: "nat \<Rightarrow> (sqe \<Rightarrow> sqe) \<Rightarrow> sqe \<Rightarrow> sqe" where
  "link_entry cqid func sqe = ev_add_flags IOSQE_IO_LINK (ev_set_user_data (of_nat cqid) (func sqe))"

text \<open>The early return on an error of \<open>submit\<close> drops the new future while the submitter still
  holds the borrow of the context that \<open>drop\<close> asks for, which panics.\<close>

definition ls_submit_sqe ::
  "bool \<Rightarrow> 'k enter \<Rightarrow> (sqe \<Rightarrow> sqe) \<Rightarrow> nat \<Rightarrow> ('f, 'k) ioctx \<Rightarrow>
    ((io_error + cfut) \<times> nat \<times> ('f, 'k) ioctx) outcome option" where
  "ls_submit_sqe dbg enter func cnt ctx =
     obind (Some (cf_from_ctx ctx)) (\<lambda>((fut, cqid), ctx).
       if cnt = sq_queue_size (io_sq ctx) then Some Panic
       else obind (slot_loop dbg enter cnt (link_entry cqid func) ctx) (\<lambda>(res, ctx).
              case res of
                Inl e \<Rightarrow> Some Panic
              | Inr _ \<Rightarrow> Some (Done (Inr fut, cnt + 1, ctx))))"

definition ls_submit :: "bool \<Rightarrow> nat \<Rightarrow> ('f, 'k) ioctx \<Rightarrow> ('f, 'k) ioctx outcome" where
  "ls_submit dbg cnt ctx =
     (if cnt \<noteq> 0
      then and_then (sq_modify dbg (cnt - 1) (\<lambda>last. ev_set_flags (ev_flags last AND NOT IOSQE_IO_LINK) last)
             (io_sq ctx)) (\<lambda>r. case r of
               None \<Rightarrow> Panic
             | Some sq \<Rightarrow> and_then (sq_advance dbg (of_nat cnt) sq) (\<lambda>sq'.
                 Done (ctx\<lparr>io_ring := (io_ring ctx)\<lparr>u_sq := sq'\<rparr>, io_queued := io_queued ctx + cnt\<rparr>)))
      else Done ctx)"

section \<open>Operations\<close>

datatype io_future =
  Raw "io_error + cfut"
| ReadPool "io_error + cfut"
| Transfer "io_error + cfut"
| Provide nat "provide_error + cfut \<times> nat"

definition read_entry :: "32 word \<Rightarrow> nat \<Rightarrow> sqe \<Rightarrow> sqe" where
  "read_entry fd size' sqe =
     ev_set_flags (IOSQE_BUFFER_SELECT OR IOSQE_ASYNC)
       (ev_set_buf_group 0 (prep_sqe 0 (new_Read (Fd fd) 0 (of_nat size')) sqe))"

definition ls_read ::
  "bool \<Rightarrow> 'k enter \<Rightarrow> 32 word \<Rightarrow> nat \<Rightarrow> nat \<Rightarrow> ('f, 'k) ioctx \<Rightarrow> (io_future \<times> nat \<times> ('f, 'k) ioctx) outcome option" where
  "ls_read dbg enter fd size' cnt ctx =
     obind (ls_submit_sqe dbg enter (read_entry fd size') cnt ctx) (\<lambda>(cqe, cnt, ctx).
       Some (Done (ReadPool cqe, cnt, ctx)))"

text \<open>The data is given by its address and length.\<close>

definition ls_read_buf ::
  "bool \<Rightarrow> 'k enter \<Rightarrow> 32 word \<Rightarrow> u64 \<Rightarrow> nat \<Rightarrow> nat \<Rightarrow> ('f, 'k) ioctx \<Rightarrow> (io_future \<times> nat \<times> ('f, 'k) ioctx) outcome option" where
  "ls_read_buf dbg enter fd ptr len cnt ctx =
     (if len \<le> 2 ^ 32 - 1
      then obind (ls_submit_sqe dbg enter (prep_sqe 0 (new_Read (Fd fd) ptr (of_nat len))) cnt ctx) (\<lambda>(cqe, cnt, ctx).
             Some (Done (Transfer (map_sum id (cf_set_must_wait True) cqe), cnt, ctx)))
      else Some Panic)"

definition ls_write_buf ::
  "bool \<Rightarrow> 'k enter \<Rightarrow> 32 word \<Rightarrow> u64 \<Rightarrow> nat \<Rightarrow> nat \<Rightarrow> ('f, 'k) ioctx \<Rightarrow> (io_future \<times> nat \<times> ('f, 'k) ioctx) outcome option" where
  "ls_write_buf dbg enter fd ptr len cnt ctx =
     (if len \<le> 2 ^ 32 - 1
      then obind (ls_submit_sqe dbg enter (prep_sqe 0 (new_Write (Fd fd) ptr (of_nat len))) cnt ctx) (\<lambda>(cqe, cnt, ctx).
             Some (Done (Transfer (map_sum id (cf_set_must_wait True) cqe), cnt, ctx)))
      else Some Panic)"

definition provide_entry :: "u64 \<Rightarrow> nat \<Rightarrow> nat \<Rightarrow> sqe \<Rightarrow> sqe" where
  "provide_entry ptr buflen bufid = prep_sqe 0 (new_ProvideBuffers ptr (of_nat buflen) 1 0 (of_nat bufid))"

definition ls_provide_buffer ::
  "bool \<Rightarrow> 'k enter \<Rightarrow> u64 \<Rightarrow> u8 fixedvec \<Rightarrow> nat \<Rightarrow> ('f, 'k) ioctx \<Rightarrow> (io_future \<times> nat \<times> ('f, 'k) ioctx) outcome option" where
  "ls_provide_buffer dbg enter ptr buffer cnt ctx =
     (if io_bufsize ctx \<noteq> fv_capacity buffer then Some Panic
      else let len = fv_len buffer
      in if sm_len (io_buffers ctx) \<ge> 2 ^ 16 - 1
         then Some (Done (Provide len (Inl (pe_new (Custom Other ''No more room for buffers'') buffer)), cnt, ctx))
         else obind (Some (fv_clear False buffer)) (\<lambda>(_, buffer).
           let buflen = fv_capacity buffer
           in obind (Some (sm_insert (io_buffers ctx) buffer)) (\<lambda>(bufid, bufs).
              obind (ls_submit_sqe dbg enter (provide_entry ptr buflen bufid) cnt (ctx\<lparr>io_buffers := bufs\<rparr>))
                (\<lambda>(res, cnt, ctx).
                  case res of
                    Inr fut \<Rightarrow>
                      obind (Some (sm_index (io_completions ctx) (cf_cqid fut))) (\<lambda>ce.
                        Some (Done (Provide len (Inr (fut, bufid)), cnt,
                          ctx\<lparr>io_completions := sm_set (io_completions ctx) (cf_cqid fut)
                                (ce\<lparr>cev_action := DeleteBufferOnError bufid\<rparr>)\<rparr>)))
                  | Inl e \<Rightarrow>
                      (case sm_remove (io_buffers ctx) bufid of
                         (None, _) \<Rightarrow> Some Panic
                       | (Some buffer, bufs) \<Rightarrow>
                           Some (Done (Provide len (Inl (pe_new e buffer)), cnt, ctx\<lparr>io_buffers := bufs\<rparr>)))))))"

section \<open>The handle\<close>

definition h_spawn_dyn :: "'f \<Rightarrow> ('f, 'k) ioctx \<Rightarrow> ('f, 'k) ioctx" where
  "h_spawn_dyn future ctx = ctx\<lparr>io_created := io_created ctx @ [future]\<rparr>"

definition h_buffer_count :: "('f, 'k) ioctx \<Rightarrow> nat" where
  "h_buffer_count ctx = sm_len (io_buffers ctx)"

text \<open>A submitter with one operation, submitted at once.\<close>

definition h_single ::
  "bool \<Rightarrow> (nat \<Rightarrow> ('f, 'k) ioctx \<Rightarrow> ('a \<times> nat \<times> ('f, 'k) ioctx) outcome option) \<Rightarrow> ('f, 'k) ioctx \<Rightarrow>
    ('a \<times> ('f, 'k) ioctx) outcome option" where
  "h_single dbg op ctx =
     obind (op 0 ctx) (\<lambda>(fut, cnt, ctx). obind (Some (ls_submit dbg cnt ctx)) (\<lambda>ctx. Some (Done (fut, ctx))))"

definition h_submit_sqe ::
  "bool \<Rightarrow> 'k enter \<Rightarrow> (sqe \<Rightarrow> sqe) \<Rightarrow> ('f, 'k) ioctx \<Rightarrow> (io_future \<times> ('f, 'k) ioctx) outcome option" where
  "h_submit_sqe dbg enter func ctx =
     obind (h_single dbg (ls_submit_sqe dbg enter func) ctx) (\<lambda>(fut, ctx). Some (Done (Raw fut, ctx)))"

definition h_read ::
  "bool \<Rightarrow> 'k enter \<Rightarrow> 32 word \<Rightarrow> nat \<Rightarrow> ('f, 'k) ioctx \<Rightarrow> (io_future \<times> ('f, 'k) ioctx) outcome option" where
  "h_read dbg enter fd size' ctx = h_single dbg (ls_read dbg enter fd size') ctx"

definition h_read_buf ::
  "bool \<Rightarrow> 'k enter \<Rightarrow> 32 word \<Rightarrow> u64 \<Rightarrow> nat \<Rightarrow> ('f, 'k) ioctx \<Rightarrow> (io_future \<times> ('f, 'k) ioctx) outcome option" where
  "h_read_buf dbg enter fd ptr len ctx = h_single dbg (ls_read_buf dbg enter fd ptr len) ctx"

definition h_write_buf ::
  "bool \<Rightarrow> 'k enter \<Rightarrow> 32 word \<Rightarrow> u64 \<Rightarrow> nat \<Rightarrow> ('f, 'k) ioctx \<Rightarrow> (io_future \<times> ('f, 'k) ioctx) outcome option" where
  "h_write_buf dbg enter fd ptr len ctx = h_single dbg (ls_write_buf dbg enter fd ptr len) ctx"

definition h_provide_buffer ::
  "bool \<Rightarrow> 'k enter \<Rightarrow> u64 \<Rightarrow> u8 fixedvec \<Rightarrow> ('f, 'k) ioctx \<Rightarrow> (io_future \<times> ('f, 'k) ioctx) outcome option" where
  "h_provide_buffer dbg enter ptr buffer ctx =
     (if io_bufsize ctx \<noteq> fv_capacity buffer then Some Panic
      else h_single dbg (ls_provide_buffer dbg enter ptr buffer) ctx)"

section \<open>Polling\<close>

datatype io_result =
  RawDone "io_error + cqe"
| ReadDone "io_error + u8 fixedvec"
| TransferDone "io_error + nat"
| ProvideDone "provide_error + unit"

text \<open>\<open>fut.await\<close>: the awaited future is dropped when it is ready.\<close>

definition await_cf ::
  "bool \<Rightarrow> 'k enter \<Rightarrow> nat option \<Rightarrow> cfut \<Rightarrow> ('f, 'k) ioctx \<Rightarrow> (cqe poll \<times> ('f, 'k) ioctx) outcome option" where
  "await_cf dbg enter current fut ctx =
     obind (Some (cf_poll current fut ctx)) (\<lambda>(p, ctx).
       case p of
         Pending \<Rightarrow> Some (Done (Pending, ctx))
       | Ready c \<Rightarrow> obind (cf_drop dbg enter fut ctx) (\<lambda>ctx. Some (Done (Ready c, ctx))))"

definition read_finish :: "cqe \<Rightarrow> ('f, 'k) ioctx \<Rightarrow> ((io_error + u8 fixedvec) \<times> ('f, 'k) ioctx) outcome" where
  "read_finish c ctx =
     (case ce_result c of
        Inl e \<Rightarrow> Done (Inl e, ctx)
      | Inr n \<Rightarrow>
          (case ce_buf_id c of
             None \<Rightarrow> Panic
           | Some bufid \<Rightarrow>
               (case sm_remove (io_buffers ctx) (unat bufid) of
                  (None, _) \<Rightarrow> Panic
                | (Some buf, bufs) \<Rightarrow> Done (Inr (fv_set_len buf n), ctx\<lparr>io_buffers := bufs\<rparr>))))"

definition provide_finish ::
  "nat \<Rightarrow> nat \<Rightarrow> cqe \<Rightarrow> ('f, 'k) ioctx \<Rightarrow> ((provide_error + unit) \<times> ('f, 'k) ioctx) outcome" where
  "provide_finish len bufid c ctx =
     (case ce_result c of
        Inr _ \<Rightarrow> Done (Inr (), ctx)
      | Inl e \<Rightarrow>
          (case sm_remove (io_buffers ctx) bufid of
             (None, _) \<Rightarrow> Panic
           | (Some buffer, bufs) \<Rightarrow>
               Done (Inl (pe_new e (fv_set_len buffer len)), ctx\<lparr>io_buffers := bufs\<rparr>)))"

fun io_poll ::
  "bool \<Rightarrow> 'k enter \<Rightarrow> nat option \<Rightarrow> io_future \<Rightarrow> ('f, 'k) ioctx \<Rightarrow> (io_result poll \<times> ('f, 'k) ioctx) outcome option" where
  "io_poll dbg enter current (Raw (Inl e)) ctx = Some (Done (Ready (RawDone (Inl e)), ctx))"
| "io_poll dbg enter current (Raw (Inr fut)) ctx =
     obind (await_cf dbg enter current fut ctx) (\<lambda>(p, ctx). case p of
         Pending \<Rightarrow> Some (Done (Pending, ctx))
       | Ready c \<Rightarrow> Some (Done (Ready (RawDone (Inr c)), ctx)))"
| "io_poll dbg enter current (ReadPool (Inl e)) ctx = Some (Done (Ready (ReadDone (Inl e)), ctx))"
| "io_poll dbg enter current (ReadPool (Inr fut)) ctx =
     obind (await_cf dbg enter current fut ctx) (\<lambda>(p, ctx). case p of
         Pending \<Rightarrow> Some (Done (Pending, ctx))
       | Ready c \<Rightarrow> obind (Some (read_finish c ctx)) (\<lambda>(r, ctx). Some (Done (Ready (ReadDone r), ctx))))"
| "io_poll dbg enter current (Transfer (Inl e)) ctx = Some (Done (Ready (TransferDone (Inl e)), ctx))"
| "io_poll dbg enter current (Transfer (Inr fut)) ctx =
     obind (await_cf dbg enter current fut ctx) (\<lambda>(p, ctx). case p of
         Pending \<Rightarrow> Some (Done (Pending, ctx))
       | Ready c \<Rightarrow> Some (Done (Ready (TransferDone (ce_result c)), ctx)))"
| "io_poll dbg enter current (Provide len (Inl e)) ctx = Some (Done (Ready (ProvideDone (Inl e)), ctx))"
| "io_poll dbg enter current (Provide len (Inr (fut, bufid))) ctx =
     obind (await_cf dbg enter current fut ctx) (\<lambda>(p, ctx). case p of
         Pending \<Rightarrow> Some (Done (Pending, ctx))
       | Ready c \<Rightarrow> obind (Some (provide_finish len bufid c ctx)) (\<lambda>(r, ctx). Some (Done (Ready (ProvideDone r), ctx))))"

section \<open>Filling a chain of linked entries\<close>

definition sub_inv :: "('f, 'k) ioctx \<Rightarrow> bool" where
  "sub_inv ctx \<longleftrightarrow> io_inv ctx \<and> sq_inv (io_sq ctx) \<and> sq_queue_size (io_sq ctx) = sq_size (io_sq ctx)"

text \<open>The queued entries and the fill level, which filling a slot does not change.\<close>

definition sq_settled :: "sq_ring \<Rightarrow> sq_ring \<Rightarrow> bool" where
  "sq_settled sq sq' \<longleftrightarrow> sq_inv sq' \<and> sq_window sq' = sq_window sq \<and> sq_in_flight sq' = sq_in_flight sq \<and>
     sq_size sq' = sq_size sq \<and> sq_kentries sq' = sq_kentries sq"

lemma sq_modify_ok:
  assumes inv: "sq_inv sq" and i: "sq_in_flight sq + i < sq_size sq"
  shows "\<exists>sq'. sq_modify dbg i f sq = Done (Some sq') \<and> sq_settled sq sq' \<and>
    (\<forall>c. i < c \<and> c \<le> sq_size sq \<longrightarrow> sq_prepared sq' c = (sq_prepared sq c)[i := f (sq_prepared sq c ! i)])"
proof -
  have "i < sq_free sq" using i by (auto simp: sq_free_def)
  then obtain sq' where m: "sq_modify dbg i f sq = Done (Some sq')" and
    k: "sq_kentries sq' = sq_kentries sq"
    by (simp add: sq_modify_eq [OF inv])
  show ?thesis
    using m k sq_modify_window [OF inv i m] sq_modify_prepared [OF inv _ _ m]
    by (auto simp: sq_settled_def)
qed

lemma ls_submit_sqe_spec:
  assumes inv: "sub_inv ctx" and room: "sm_len (io_completions ctx) < sm_cap"
    and i: "sq_in_flight (io_sq ctx) + cnt < sq_size (io_sq ctx)"
  shows "\<exists>fut ctx'. ls_submit_sqe dbg enter func cnt ctx = Some (Done (Inr fut, cnt + 1, ctx')) \<and>
    sub_inv ctx' \<and> sq_settled (io_sq ctx) (io_sq ctx') \<and> \<not> cf_must_wait fut \<and>
    sm_get (io_completions ctx) (cf_cqid fut) = None \<and>
    sm_get (io_completions ctx') =
      (sm_get (io_completions ctx))(cf_cqid fut \<mapsto> completion_event_new NO_TASK_SENTINEL) \<and>
    io_buffers ctx' = io_buffers ctx \<and> io_bufsize ctx' = io_bufsize ctx \<and> io_queued ctx' = io_queued ctx \<and>
    (\<forall>c. cnt < c \<and> c \<le> sq_size (io_sq ctx) \<longrightarrow> sq_prepared (io_sq ctx') c =
       (sq_prepared (io_sq ctx) c)[cnt := link_entry (cf_cqid fut) func (sq_prepared (io_sq ctx) c ! cnt)])"
proof -
  have io: "io_inv ctx" and sq: "sq_inv (io_sq ctx)" and qs: "sq_queue_size (io_sq ctx) = sq_size (io_sq ctx)"
    using inv by (simp_all add: sub_inv_def)
  obtain fut ctx1 where 1: "cf_from_ctx ctx = Done ((fut, cf_cqid fut), ctx1)" "io_inv ctx1"
    "\<not> cf_must_wait fut" "sm_get (io_completions ctx) (cf_cqid fut) = None"
    "sm_get (io_completions ctx1) =
      (sm_get (io_completions ctx))(cf_cqid fut \<mapsto> completion_event_new NO_TASK_SENTINEL)"
    "ctx1 = ctx\<lparr>io_completions := io_completions ctx1\<rparr>"
    using cf_from_ctx_spec [OF io room] by blast
  have sq1: "io_sq ctx1 = io_sq ctx" "io_buffers ctx1 = io_buffers ctx" "io_queued ctx1 = io_queued ctx"
    "io_bufsize ctx1 = io_bufsize ctx"
    by (subst 1(6), simp)+
  obtain sq' where 2: "sq_modify dbg cnt (link_entry (cf_cqid fut) func) (io_sq ctx) = Done (Some sq')"
    "sq_settled (io_sq ctx) sq'" "\<forall>c. cnt < c \<and> c \<le> sq_size (io_sq ctx) \<longrightarrow> sq_prepared sq' c =
       (sq_prepared (io_sq ctx) c)[cnt := link_entry (cf_cqid fut) func (sq_prepared (io_sq ctx) c ! cnt)]"
    using sq_modify_ok [OF sq i] by blast
  let ?ctx = "ctx1\<lparr>io_ring := (io_ring ctx1)\<lparr>u_sq := sq'\<rparr>\<rparr>"
  have "slot_loop dbg enter cnt (link_entry (cf_cqid fut) func) ctx1 = Some (Done (Inr (), ?ctx))"
    by (subst slot_loop.simps) (simp add: sq1 2)
  then have "ls_submit_sqe dbg enter func cnt ctx = Some (Done (Inr fut, cnt + 1, ?ctx))"
    using i by (simp add: ls_submit_sqe_def 1(1) sq1 qs)
  moreover have "sub_inv ?ctx"
    using 1(2) 2(2) qs by (simp add: sub_inv_def io_inv_def sq_settled_def sq_queue_size_def)
  ultimately show ?thesis using 1 2 sq1 by (intro exI [of _ fut] exI [of _ ?ctx]) simp
qed

text \<open>Several operations on one submitter, then \<open>submit\<close>.\<close>

fun ls_fill ::
  "bool \<Rightarrow> 'k enter \<Rightarrow> (sqe \<Rightarrow> sqe) list \<Rightarrow> nat \<Rightarrow> ('f, 'k) ioctx \<Rightarrow> (cfut list \<times> nat \<times> ('f, 'k) ioctx) outcome option" where
  "ls_fill dbg enter [] cnt ctx = Some (Done ([], cnt, ctx))"
| "ls_fill dbg enter (f # fs) cnt ctx =
     obind (ls_submit_sqe dbg enter f cnt ctx) (\<lambda>(r, cnt, ctx). case r of
         Inl e \<Rightarrow> Some Panic
       | Inr fut \<Rightarrow> obind (ls_fill dbg enter fs cnt ctx) (\<lambda>(futs, cnt, ctx). Some (Done (fut # futs, cnt, ctx))))"

definition ls_chain ::
  "bool \<Rightarrow> 'k enter \<Rightarrow> (sqe \<Rightarrow> sqe) list \<Rightarrow> ('f, 'k) ioctx \<Rightarrow> (cfut list \<times> ('f, 'k) ioctx) outcome option" where
  "ls_chain dbg enter fs ctx =
     obind (ls_fill dbg enter fs 0 ctx) (\<lambda>(futs, cnt, ctx).
       obind (Some (ls_submit dbg cnt ctx)) (\<lambda>ctx. Some (Done (futs, ctx))))"

text \<open>The entries the chain leaves, from what the slots held before.\<close>

definition link_all :: "cfut list \<Rightarrow> (sqe \<Rightarrow> sqe) list \<Rightarrow> sqe list \<Rightarrow> sqe list" where
  "link_all futs fs olds = map2 (\<lambda>(fut, f) old. link_entry (cf_cqid fut) f old) (zip futs fs) olds"

lemma ls_fill_spec:
  assumes "sub_inv ctx" and "sm_len (io_completions ctx) + length fs \<le> sm_cap"
    and "sq_in_flight (io_sq ctx) + cnt + length fs \<le> sq_size (io_sq ctx)"
  shows "\<exists>futs ctx'. ls_fill dbg enter fs cnt ctx = Some (Done (futs, cnt + length fs, ctx')) \<and>
    sub_inv ctx' \<and> sq_settled (io_sq ctx) (io_sq ctx') \<and> io_queued ctx' = io_queued ctx \<and>
    length futs = length fs \<and> distinct (map cf_cqid futs) \<and>
    (\<forall>fut\<in>set futs. sm_get (io_completions ctx) (cf_cqid fut) = None) \<and>
    sm_get (io_completions ctx') = (sm_get (io_completions ctx))
      ((map cf_cqid futs) [\<mapsto>] replicate (length fs) (completion_event_new NO_TASK_SENTINEL)) \<and>
    (\<forall>c. cnt + length fs \<le> c \<and> c \<le> sq_size (io_sq ctx) \<longrightarrow> sq_prepared (io_sq ctx') c =
       take cnt (sq_prepared (io_sq ctx) c) @
       link_all futs fs (take (length fs) (drop cnt (sq_prepared (io_sq ctx) c))) @
       drop (cnt + length fs) (sq_prepared (io_sq ctx) c))"
  using assms
proof (induction fs arbitrary: cnt ctx)
  case Nil
  then show ?case by (auto simp: link_all_def sq_settled_def sub_inv_def)
next
  case (Cons f fs)
  obtain fut ctx1 where 1: "ls_submit_sqe dbg enter f cnt ctx = Some (Done (Inr fut, cnt + 1, ctx1))"
    "sub_inv ctx1" "sq_settled (io_sq ctx) (io_sq ctx1)"
    "sm_get (io_completions ctx) (cf_cqid fut) = None"
    "sm_get (io_completions ctx1) =
      (sm_get (io_completions ctx))(cf_cqid fut \<mapsto> completion_event_new NO_TASK_SENTINEL)"
    "io_queued ctx1 = io_queued ctx"
    "\<forall>c. cnt < c \<and> c \<le> sq_size (io_sq ctx) \<longrightarrow> sq_prepared (io_sq ctx1) c =
       (sq_prepared (io_sq ctx) c)[cnt := link_entry (cf_cqid fut) f (sq_prepared (io_sq ctx) c ! cnt)]"
    using ls_submit_sqe_spec [OF Cons.prems(1), of cnt dbg enter f] Cons.prems(2,3) by auto
  have len: "sm_len (io_completions ctx1) = sm_len (io_completions ctx) + 1"
    using sm.upd_count [OF _ _ 1(4,5)] Cons.prems(1) 1(2) by (simp add: sub_inv_def io_inv_def)
  obtain futs ctx2 where 2: "ls_fill dbg enter fs (cnt + 1) ctx1 = Some (Done (futs, cnt + 1 + length fs, ctx2))"
    "sub_inv ctx2" "sq_settled (io_sq ctx1) (io_sq ctx2)" "io_queued ctx2 = io_queued ctx1"
    "length futs = length fs" "distinct (map cf_cqid futs)"
    "\<forall>fut\<in>set futs. sm_get (io_completions ctx1) (cf_cqid fut) = None"
    "sm_get (io_completions ctx2) = (sm_get (io_completions ctx1))
      ((map cf_cqid futs) [\<mapsto>] replicate (length fs) (completion_event_new NO_TASK_SENTINEL))"
    "\<forall>c. cnt + 1 + length fs \<le> c \<and> c \<le> sq_size (io_sq ctx1) \<longrightarrow> sq_prepared (io_sq ctx2) c =
       take (cnt + 1) (sq_prepared (io_sq ctx1) c) @
       link_all futs fs (take (length fs) (drop (cnt + 1) (sq_prepared (io_sq ctx1) c))) @
       drop (cnt + 1 + length fs) (sq_prepared (io_sq ctx1) c)"
    using Cons.IH [OF 1(2), of "cnt + 1"] Cons.prems(2,3) len 1(3) by (auto simp: sq_settled_def)
  have fresh: "cf_cqid fut \<notin> cf_cqid ` set futs" using 2(7) 1(5) by force
  have old: "\<forall>g\<in>set futs. sm_get (io_completions ctx) (cf_cqid g) = None"
    using 2(7) 1(5) fresh by (auto split: if_splits)
  have prep: "sq_prepared (io_sq ctx2) c =
       take cnt (sq_prepared (io_sq ctx) c) @
       link_all (fut # futs) (f # fs) (take (length (f # fs)) (drop cnt (sq_prepared (io_sq ctx) c))) @
       drop (cnt + length (f # fs)) (sq_prepared (io_sq ctx) c)"
    if c: "cnt + length (f # fs) \<le> c" "c \<le> sq_size (io_sq ctx)" for c
  proof -
    let ?P = "sq_prepared (io_sq ctx) c"
    have "length ?P = c" by (simp add: sq_prepared_def ring_free_def)
    then have lt: "cnt < length ?P" using c by simp
    have e: "sq_prepared (io_sq ctx1) c = ?P[cnt := link_entry (cf_cqid fut) f (?P ! cnt)]"
      using 1(7) c by simp
    have "drop cnt ?P = ?P ! cnt # drop (Suc cnt) ?P" using lt by (simp add: Cons_nth_drop_Suc)
    then have "link_all (fut # futs) (f # fs) (take (length (f # fs)) (drop cnt ?P))
        = link_entry (cf_cqid fut) f (?P ! cnt) # link_all futs fs (take (length fs) (drop (Suc cnt) ?P))"
      by (simp add: link_all_def)
    moreover have "take (cnt + 1) (?P[cnt := x]) = take cnt ?P @ [x]" for x
      using lt by (simp add: take_Suc_conv_app_nth)
    moreover have "sq_size (io_sq ctx1) = sq_size (io_sq ctx)" using 1(3) by (simp add: sq_settled_def)
    then have "sq_prepared (io_sq ctx2) c =
       take (cnt + 1) (sq_prepared (io_sq ctx1) c) @
       link_all futs fs (take (length fs) (drop (cnt + 1) (sq_prepared (io_sq ctx1) c))) @
       drop (cnt + 1 + length fs) (sq_prepared (io_sq ctx1) c)"
      using 2(9) c by simp
    ultimately show ?thesis unfolding e by simp
  qed
  have "sq_settled (io_sq ctx) (io_sq ctx2)" using 1(3) 2(3) by (simp add: sq_settled_def)
  then show ?case using 1 2 fresh old prep
    by (intro exI [of _ "fut # futs"] exI [of _ ctx2]) simp
qed

text \<open>The last entry of a chain loses its link.\<close>

definition unlink_last :: "sqe list \<Rightarrow> sqe list" where
  "unlink_last xs = (if xs = [] then [] else
     butlast xs @ [ev_set_flags (ev_flags (last xs) AND NOT IOSQE_IO_LINK) (last xs)])"

lemma unlink_last_update:
  "xs \<noteq> [] \<Longrightarrow> xs[length xs - 1 := ev_set_flags (ev_flags (xs ! (length xs - 1)) AND NOT IOSQE_IO_LINK) (xs ! (length xs - 1))]
    = unlink_last xs"
  by (simp add: unlink_last_def last_conv_nth butlast_conv_take list_update_append
      upd_conv_take_nth_drop)

lemma ls_submit_spec:
  assumes inv: "sub_inv ctx" and n: "0 < n" and free: "sq_in_flight (io_sq ctx) + n \<le> sq_size (io_sq ctx)"
  shows "\<exists>ctx'. ls_submit False n ctx = Done ctx' \<and> sub_inv ctx' \<and> io_queued ctx' = io_queued ctx + n \<and>
    sq_window (io_sq ctx') = sq_window (io_sq ctx) @ unlink_last (sq_prepared (io_sq ctx) n) \<and>
    sq_size (io_sq ctx') = sq_size (io_sq ctx) \<and>
    io_completions ctx' = io_completions ctx \<and> io_buffers ctx' = io_buffers ctx \<and> io_bufsize ctx' = io_bufsize ctx"
proof -
  have sq: "sq_inv (io_sq ctx)" and last: "sq_in_flight (io_sq ctx) + (n - 1) < sq_size (io_sq ctx)"
    using inv n free by (auto simp: sub_inv_def)
  let ?f = "\<lambda>last. ev_set_flags (ev_flags last AND NOT IOSQE_IO_LINK) last"
  obtain sq' where 2: "sq_modify False (n - 1) ?f (io_sq ctx) = Done (Some sq')" "sq_settled (io_sq ctx) sq'"
    "sq_prepared sq' n = (sq_prepared (io_sq ctx) n)[n - 1 := ?f (sq_prepared (io_sq ctx) n ! (n - 1))]"
    using sq_modify_ok [OF sq last, of False ?f] n free by auto
  have len: "length (sq_prepared (io_sq ctx) n) = n" by (simp add: sq_prepared_def ring_free_def)
  moreover from this have "sq_prepared (io_sq ctx) n \<noteq> []" using n by force
  ultimately have P: "sq_prepared sq' n = unlink_last (sq_prepared (io_sq ctx) n)"
    using unlink_last_update [of "sq_prepared (io_sq ctx) n"] 2(3) by simp
  obtain sq'' where 3: "sq_advance False (of_nat n) sq' = Done sq''" and k: "sq_kentries sq'' = sq_kentries sq'"
    by (simp add: sq_advance_def)
  have "sq_inv sq'' \<and> sq_window sq'' = sq_window sq' @ sq_prepared sq' n \<and> sq_size sq'' = sq_size sq'"
    using sq_advance_window [OF _ _ 3] 2(2) free by (simp add: sq_settled_def)
  moreover have "sq_window sq' = sq_window (io_sq ctx)" "sq_size sq' = sq_size (io_sq ctx)"
    "sq_kentries sq' = sq_kentries (io_sq ctx)"
    using 2(2) by (simp_all add: sq_settled_def)
  ultimately show ?thesis
    using inv n 2(1) 3 k P
    by (simp add: ls_submit_def sub_inv_def io_inv_def sq_queue_size_def)
qed

lemma ls_chain_spec:
  assumes inv: "sub_inv ctx" and fs: "fs \<noteq> []"
    and room: "sm_len (io_completions ctx) + length fs \<le> sm_cap"
    and free: "sq_in_flight (io_sq ctx) + length fs \<le> sq_size (io_sq ctx)"
  shows "\<exists>futs ctx'. ls_chain False enter fs ctx = Some (Done (futs, ctx')) \<and> sub_inv ctx' \<and>
    length futs = length fs \<and> distinct (map cf_cqid futs) \<and>
    (\<forall>fut\<in>set futs. sm_get (io_completions ctx) (cf_cqid fut) = None) \<and>
    sm_get (io_completions ctx') = (sm_get (io_completions ctx))
      ((map cf_cqid futs) [\<mapsto>] replicate (length fs) (completion_event_new NO_TASK_SENTINEL)) \<and>
    io_queued ctx' = io_queued ctx + length fs \<and>
    sq_window (io_sq ctx') = sq_window (io_sq ctx) @
      unlink_last (link_all futs fs (sq_prepared (io_sq ctx) (length fs)))"
proof -
  let ?n = "length fs" and ?P = "sq_prepared (io_sq ctx) (length fs)"
  have n: "0 < ?n" using fs by simp
  have lenP: "length ?P = ?n" by (simp add: sq_prepared_def ring_free_def)
  obtain futs ctx1 where 1: "ls_fill False enter fs 0 ctx = Some (Done (futs, ?n, ctx1))" "sub_inv ctx1"
    "sq_settled (io_sq ctx) (io_sq ctx1)" "io_queued ctx1 = io_queued ctx" "length futs = ?n"
    "distinct (map cf_cqid futs)" "\<forall>fut\<in>set futs. sm_get (io_completions ctx) (cf_cqid fut) = None"
    "sm_get (io_completions ctx1) = (sm_get (io_completions ctx))
      ((map cf_cqid futs) [\<mapsto>] replicate (length fs) (completion_event_new NO_TASK_SENTINEL))"
    "\<forall>c. ?n \<le> c \<and> c \<le> sq_size (io_sq ctx) \<longrightarrow> sq_prepared (io_sq ctx1) c =
       link_all futs fs (take ?n (sq_prepared (io_sq ctx) c)) @ drop ?n (sq_prepared (io_sq ctx) c)"
    using ls_fill_spec [OF inv room, of 0 False enter] free by auto
  have P1: "sq_prepared (io_sq ctx1) ?n = link_all futs fs ?P"
    using 1(9) free lenP by simp
  have "sq_in_flight (io_sq ctx1) + ?n \<le> sq_size (io_sq ctx1)" "sq_window (io_sq ctx1) = sq_window (io_sq ctx)"
    using 1(3) free by (simp_all add: sq_settled_def)
  with ls_submit_spec [OF 1(2) n] 1 P1 show ?thesis by (auto simp: ls_chain_def)
qed

section \<open>The buffer pool\<close>

lemma await_cf_ready:
  assumes inv: "io_inv ctx" and e: "sm_get (io_completions ctx) (cf_cqid fut) = Some ce"
    and c: "cev_cqe ce = Some c"
  shows "\<exists>ctx'. await_cf dbg enter (Some t) fut ctx = Some (Done (Ready c, ctx')) \<and> io_inv ctx' \<and>
    io_buffers ctx' = io_buffers ctx \<and>
    sm_get (io_completions ctx') = (sm_get (io_completions ctx))(cf_cqid fut := None)"
proof -
  obtain ctx1 where 1: "cf_poll (Some t) fut ctx = Done (Ready c, ctx1)" "io_inv ctx1"
    "sm_get (io_completions ctx1) = (sm_get (io_completions ctx))(cf_cqid fut \<mapsto> ce\<lparr>cev_task := t\<rparr>)"
    "ctx1 = ctx\<lparr>io_completions := io_completions ctx1\<rparr>"
    using cf_poll_spec [OF inv e, of t] c by auto
  then have e1: "sm_get (io_completions ctx1) (cf_cqid fut) = Some (ce\<lparr>cev_task := t\<rparr>)" by simp
  have C: "sm_inv (io_completions ctx1)" using 1(2) by (simp add: io_inv_def)
  let ?ctx = "ctx1\<lparr>io_completions := snd (sm_remove (io_completions ctx1) (cf_cqid fut))\<rparr>"
  have "cf_drop dbg enter fut ctx1 = Some (Done ?ctx)" using e1 c by (simp add: cf_drop_def)
  moreover have "io_inv ?ctx" using 1(2) sm.del_inv [OF C] by (simp add: io_inv_def)
  moreover have "io_buffers ctx1 = io_buffers ctx" by (subst 1(4)) simp
  moreover have "sm_get (io_completions ?ctx) = (sm_get (io_completions ctx))(cf_cqid fut := None)"
    using sm.del_get [OF C] 1(3) by simp
  ultimately show ?thesis using 1(1) by (simp add: await_cf_def)
qed

lemma fv_clear_bytes: "fv_clear False v = Done ([], v\<lparr>fsize := 0\<rparr>)"
  by (simp add: fv_clear_def fv_set_len_def Let_def)

lemma sm_remove_present:
  assumes "sm_inv s" and "sm_get s i = Some v"
  shows "\<exists>s'. sm_remove s i = (Some v, s') \<and> sm_inv s' \<and> sm_get s' = (sm_get s)(i := None)"
  using sm.del_value [OF assms(1), of i] sm.del_get [OF assms(1), of i] sm.del_inv [OF assms(1), of i] assms(2)
  by (cases "sm_remove s i") auto

text \<open>The entry that hands a buffer to the kernel, whatever the slot held before.\<close>

definition provided :: "u64 \<Rightarrow> nat \<Rightarrow> nat \<Rightarrow> nat \<Rightarrow> sqe" where
  "provided ptr buflen bufid cqid =
     (prep_sqe 0 (new_ProvideBuffers ptr (of_nat buflen) 1 0 (of_nat bufid)) sqe_zeroed)\<lparr>sqe_user_data := of_nat cqid\<rparr>"

lemma unlink_provided:
  "unlink_last [link_entry cqid (provide_entry ptr buflen bufid) old] = [provided ptr buflen bufid cqid]"
proof -
  have "(IOSQE_IO_LINK AND NOT IOSQE_IO_LINK :: u8) = 0" by simp
  then show ?thesis
    by (simp add: unlink_last_def link_entry_def provide_entry_def provided_def new_ProvideBuffers_def
        prep_ProvideBuffers_def ev_simps ev_clear_def sqe_zeroed_def Let_def)
qed

lemma h_provide_spec:
  assumes inv: "sub_inv ctx" and cap: "io_bufsize ctx = fv_capacity buffer"
    and pool: "sm_len (io_buffers ctx) < 2 ^ 16 - 1" and room: "sm_len (io_completions ctx) < sm_cap"
    and free: "sq_in_flight (io_sq ctx) < sq_size (io_sq ctx)"
  shows "\<exists>fut bufid ctx'. h_provide_buffer False enter ptr buffer ctx =
      Some (Done (Provide (fv_len buffer) (Inr (fut, bufid)), ctx')) \<and> sub_inv ctx' \<and>
    sm_get (io_buffers ctx) bufid = None \<and>
    sm_get (io_buffers ctx') = (sm_get (io_buffers ctx))(bufid \<mapsto> buffer\<lparr>fsize := 0\<rparr>) \<and>
    sm_get (io_completions ctx) (cf_cqid fut) = None \<and>
    sm_get (io_completions ctx') = (sm_get (io_completions ctx))(cf_cqid fut \<mapsto>
      \<lparr>cev_cqe = None, cev_task = NO_TASK_SENTINEL, cev_action = DeleteBufferOnError bufid\<rparr>) \<and>
    \<not> cf_must_wait fut \<and>
    sq_window (io_sq ctx') = sq_window (io_sq ctx) @ [provided ptr (fv_capacity buffer) bufid (cf_cqid fut)] \<and>
    sq_size (io_sq ctx') = sq_size (io_sq ctx) \<and> io_bufsize ctx' = io_bufsize ctx \<and>
    io_queued ctx' = io_queued ctx + 1"
proof -
  have B: "sm_inv (io_buffers ctx)" using inv by (simp add: sub_inv_def io_inv_def)
  have "sm_len (io_buffers ctx) < sm_cap"
    using pool by (simp add: sm_cap_def SENTINEL_def SLABSIZE_def USIZE_MAX_def)
  then obtain bufid bufs where 1: "sm_insert (io_buffers ctx) (buffer\<lparr>fsize := 0\<rparr>) = Done (bufid, bufs)"
    "sm_inv bufs" "sm_get (io_buffers ctx) bufid = None"
    "sm_get bufs = (sm_get (io_buffers ctx))(bufid \<mapsto> buffer\<lparr>fsize := 0\<rparr>)"
    using sm.ins_law [OF B] by blast
  let ?ctx = "ctx\<lparr>io_buffers := bufs\<rparr>" and ?f = "provide_entry ptr (fv_capacity buffer) bufid"
  have inv1: "sub_inv ?ctx" using inv 1(2) by (simp add: sub_inv_def io_inv_def)
  obtain fut ctx1 where 2: "ls_submit_sqe False enter ?f 0 ?ctx = Some (Done (Inr fut, 1, ctx1))"
    "sub_inv ctx1" "sq_settled (io_sq ctx) (io_sq ctx1)" "\<not> cf_must_wait fut"
    "sm_get (io_completions ctx) (cf_cqid fut) = None" "io_buffers ctx1 = bufs"
    "sm_get (io_completions ctx1) =
      (sm_get (io_completions ctx))(cf_cqid fut \<mapsto> completion_event_new NO_TASK_SENTINEL)"
    "io_bufsize ctx1 = io_bufsize ctx" "io_queued ctx1 = io_queued ctx"
    "\<forall>c. 0 < c \<and> c \<le> sq_size (io_sq ctx) \<longrightarrow> sq_prepared (io_sq ctx1) c =
       (sq_prepared (io_sq ctx) c)[0 := link_entry (cf_cqid fut) ?f (sq_prepared (io_sq ctx) c ! 0)]"
    using ls_submit_sqe_spec [OF inv1, of 0 False enter ?f] room free by auto
  have C: "sm_inv (io_completions ctx1)" using 2(2) by (simp add: sub_inv_def io_inv_def)
  let ?e = "(completion_event_new NO_TASK_SENTINEL)\<lparr>cev_action := DeleteBufferOnError bufid\<rparr>"
  let ?ctx2 = "ctx1\<lparr>io_completions := sm_set (io_completions ctx1) (cf_cqid fut) ?e\<rparr>"
  have inv2: "sub_inv ?ctx2" using 2(2) sm.put_inv [OF C] by (simp add: sub_inv_def io_inv_def)
  have get2: "sm_get (io_completions ?ctx2) = (sm_get (io_completions ctx))(cf_cqid fut \<mapsto> ?e)"
    using sm.put_get [OF C, of "cf_cqid fut"] 2(7) by simp
  have "length (sq_prepared (io_sq ctx) 1) = 1" by (simp add: sq_prepared_def ring_free_def)
  then have "sq_prepared (io_sq ctx1) 1 = [link_entry (cf_cqid fut) ?f (sq_prepared (io_sq ctx) 1 ! 0)]"
    using 2(10) free by (cases "sq_prepared (io_sq ctx) 1") auto
  then have last: "unlink_last (sq_prepared (io_sq ctx1) 1) = [provided ptr (fv_capacity buffer) bufid (cf_cqid fut)]"
    by (simp add: unlink_provided)
  obtain ctx' where 3: "ls_submit False 1 ?ctx2 = Done ctx'" "sub_inv ctx'" "io_queued ctx' = io_queued ctx + 1"
    "sq_window (io_sq ctx') = sq_window (io_sq ctx) @ [provided ptr (fv_capacity buffer) bufid (cf_cqid fut)]"
    "sq_size (io_sq ctx') = sq_size (io_sq ctx)" "io_completions ctx' = io_completions ?ctx2"
    "io_buffers ctx' = bufs" "io_bufsize ctx' = io_bufsize ctx"
    using ls_submit_spec [OF inv2, of 1] 2(3,6,8,9) free last by (auto simp: sq_settled_def)
  have idx: "sm_index (io_completions ctx1) (cf_cqid fut) = Done (completion_event_new NO_TASK_SENTINEL)"
    using 2(7) by (simp add: sm_index_def)
  have "h_provide_buffer False enter ptr buffer ctx =
      Some (Done (Provide (fv_len buffer) (Inr (fut, bufid)), ctx'))"
    using cap pool 1(1) 2(1) 3(1) idx
    by (simp add: h_provide_buffer_def h_single_def ls_provide_buffer_def fv_clear_bytes Let_def fv_capacity_def)
  then show ?thesis using 1 2 3 get2
    by (intro exI [of _ fut] exI [of _ bufid] exI [of _ ctx']) (simp add: completion_event_new_def)
qed

section \<open>Properties\<close>


lemma ctx_demo_sub: "sub_inv ctx_demo" "sm_len (io_completions ctx_demo) = 0"
    "sq_size (io_sq ctx_demo) = 2" "sq_in_flight (io_sq ctx_demo) = 0" "2 \<le> sm_cap"
  using ctx_demo_inv sq_demo_inv
  by (simp_all add: sub_inv_def sq_queue_size_def sm_len_def sm_new_def ctx_demo_def ring_of_def sm_cap_def
      SENTINEL_def SLABSIZE_def USIZE_MAX_def) (simp_all add: sq_demo_def)


theorem read_takes_buffer:
  assumes inv: "io_inv ctx" and e: "sm_get (io_completions ctx) (cf_cqid fut) = Some ce"
    and c: "cev_cqe ce = Some c" and n: "ce_result c = Inr n" and b: "ce_buf_id c = Some b"
    and buf: "sm_get (io_buffers ctx) (unat b) = Some buf"
  shows "\<exists>ctx'. io_poll dbg enter (Some t) (ReadPool (Inr fut)) ctx =
      Some (Done (Ready (ReadDone (Inr (fv_set_len buf n))), ctx')) \<and> io_inv ctx' \<and>
    sm_get (io_buffers ctx') = (sm_get (io_buffers ctx))(unat b := None) \<and>
    sm_get (io_completions ctx') = (sm_get (io_completions ctx))(cf_cqid fut := None)"
proof -
  obtain ctx1 where 1: "await_cf dbg enter (Some t) fut ctx = Some (Done (Ready c, ctx1))" "io_inv ctx1"
    "io_buffers ctx1 = io_buffers ctx"
    "sm_get (io_completions ctx1) = (sm_get (io_completions ctx))(cf_cqid fut := None)"
    using await_cf_ready [OF inv e c, of dbg enter t] by blast
  have B: "sm_inv (io_buffers ctx)" using inv by (simp add: io_inv_def)
  obtain bufs where 2: "sm_remove (io_buffers ctx) (unat b) = (Some buf, bufs)" "sm_inv bufs"
    "sm_get bufs = (sm_get (io_buffers ctx))(unat b := None)"
    using sm_remove_present [OF B buf] by blast
  have "io_inv (ctx1\<lparr>io_buffers := bufs\<rparr>)" using 1(2) 2(2) by (simp add: io_inv_def)
  then show ?thesis using 1 2 n b by (simp add: read_finish_def)
qed

text \<open>C20: When the kernel refuses a provided buffer, the future returns the error together with
  the buffer at its original length, and the buffer and completion tables lose their entries.\<close>

theorem provide_error_returns_buffer:
  assumes inv: "io_inv ctx" and e: "sm_get (io_completions ctx) (cf_cqid fut) = Some ce"
    and c: "cev_cqe ce = Some c" and err: "ce_result c = Inl er"
    and buf: "sm_get (io_buffers ctx) bufid = Some (buffer\<lparr>fsize := 0\<rparr>)"
  shows "\<exists>ctx'. io_poll dbg enter (Some t) (Provide (fv_len buffer) (Inr (fut, bufid))) ctx =
      Some (Done (Ready (ProvideDone (Inl (pe_new er buffer))), ctx')) \<and> io_inv ctx' \<and>
    sm_get (io_buffers ctx') = (sm_get (io_buffers ctx))(bufid := None) \<and>
    sm_get (io_completions ctx') = (sm_get (io_completions ctx))(cf_cqid fut := None)"
proof -
  obtain ctx1 where 1: "await_cf dbg enter (Some t) fut ctx = Some (Done (Ready c, ctx1))" "io_inv ctx1"
    "io_buffers ctx1 = io_buffers ctx"
    "sm_get (io_completions ctx1) = (sm_get (io_completions ctx))(cf_cqid fut := None)"
    using await_cf_ready [OF inv e c, of dbg enter t] by blast
  have B: "sm_inv (io_buffers ctx)" using inv by (simp add: io_inv_def)
  obtain bufs where 2: "sm_remove (io_buffers ctx) bufid = (Some (buffer\<lparr>fsize := 0\<rparr>), bufs)" "sm_inv bufs"
    "sm_get bufs = (sm_get (io_buffers ctx))(bufid := None)"
    using sm_remove_present [OF B buf] by blast
  have "io_inv (ctx1\<lparr>io_buffers := bufs\<rparr>)" using 1(2) 2(2) by (simp add: io_inv_def)
  then show ?thesis using 1 2 err by (simp add: provide_finish_def fv_set_len_def fv_len_def)
qed

text \<open>A context in which a request has its reply and the pool holds \<open>buf\<close>.\<close>

lemma replied_demo:
  fixes buf :: "u8 fixedvec" and c :: "nat \<Rightarrow> cqe"
  shows "\<exists>(ctx :: (unit, unit) ioctx) (fut :: cfut) (ce :: completion_event) bufid. io_inv ctx \<and>
    sm_get (io_completions ctx) (cf_cqid fut) = Some ce \<and> cev_cqe ce = Some (c bufid) \<and>
    bufid < 1024 \<and> sm_get (io_buffers ctx) bufid = Some buf"
proof -
  have inv: "sm_inv (sm_new :: completion_event slotmap)" "sm_inv (sm_new :: u8 fixedvec slotmap)"
    by (rule sm_inv_new)+
  have room: "sm_len (sm_new :: completion_event slotmap) < sm_cap" "sm_len (sm_new :: u8 fixedvec slotmap) < sm_cap"
    by (simp_all add: sm_len_def sm_new_def sm_cap_def SENTINEL_def SLABSIZE_def USIZE_MAX_def)
  obtain b bufs where 2: "sm_insert sm_new buf = Done (b, bufs)" "sm_inv bufs" "sm_get bufs = (sm_get sm_new)(b \<mapsto> buf)"
    using sm.ins_law [OF inv(2) room(2), of buf] by auto
  let ?e = "(completion_event_new NO_TASK_SENTINEL)\<lparr>cev_cqe := Some (c b)\<rparr>"
  obtain i comps where 1: "sm_insert sm_new ?e = Done (i, comps)" "sm_inv comps" "sm_get comps = (sm_get sm_new)(i \<mapsto> ?e)"
    using sm.ins_law [OF inv(1) room(1), of ?e] by auto
  have "sm_room (sm_new :: u8 fixedvec slotmap)" using sm_room_size [OF inv(2)] room(2) by (simp add: sm_len_def)
  from sm_insert_slabs [OF inv(2) this 2(1)] have "b < 1024" by (simp add: sm_new_def SLABSIZE_def)
  moreover have "io_inv (ctx_demo\<lparr>io_completions := comps, io_buffers := bufs\<rparr>)"
    using ctx_demo_inv 1(2) 2(2) by (simp add: io_inv_def)
  ultimately show ?thesis using 1(3) 2(3)
    by (intro exI [of _ "ctx_demo\<lparr>io_completions := comps, io_buffers := bufs\<rparr>"]
        exI [of _ "\<lparr>cf_cqid = i, cf_must_wait = False\<rparr>"] exI [of _ ?e] exI [of _ b]) simp
qed

theorem read_takes_buffer_witness:
  "\<exists>(ctx :: (unit, unit) ioctx) (fut :: cfut) ctx' b. io_poll True eager_kernel (Some 7) (ReadPool (Inr fut)) ctx =
      Some (Done (Ready (ReadDone (Inr (fv_set_len (fv_with_capacity 4) 3))), ctx')) \<and> io_inv ctx' \<and>
    sm_get (io_buffers ctx') = (sm_get (io_buffers ctx))(unat (b :: u16) := None)"
proof -
  let ?c = "\<lambda>k. cqe_demo 0 3 (push_bit 16 (ucast (of_nat k :: u16)) OR Completion_BUFFER)"
  obtain ctx :: "(unit, unit) ioctx" and fut :: cfut and ce :: completion_event and k where
    "io_inv ctx" "sm_get (io_completions ctx) (cf_cqid fut) = Some ce" "cev_cqe ce = Some (?c k)"
    "k < 1024" "sm_get (io_buffers ctx) k = Some (fv_with_capacity 4)"
    using replied_demo [of ?c "fv_with_capacity 4"] by blast
  moreover from this have "unat (of_nat k :: u16) = k" by (simp add: unat_of_nat)
  ultimately obtain b :: u16 and ctx :: "(unit, unit) ioctx" and fut :: cfut and ce :: completion_event where d:
    "io_inv ctx" "sm_get (io_completions ctx) (cf_cqid fut) = Some ce"
    "cev_cqe ce = Some (cqe_demo 0 3 (push_bit 16 (ucast b) OR Completion_BUFFER))"
    "sm_get (io_buffers ctx) (unat b) = Some (fv_with_capacity 4)" by metis
  have "ce_result (cqe_demo 0 3 (push_bit 16 (ucast b) OR Completion_BUFFER)) = Inr 3"
    by (simp add: ce_result_def cqe_demo_def resultify_def)
  moreover have "ce_buf_id (cqe_demo 0 3 (push_bit 16 (ucast b) OR Completion_BUFFER)) = Some b"
    by (simp add: ce_buf_id_def cqe_demo_def buf_id_encode)
  ultimately show ?thesis
    using read_takes_buffer [OF d(1-3) _ _ d(4), of 3 True eager_kernel 7] by blast
qed

theorem provide_error_returns_buffer_witness:
  "\<exists>(ctx :: (unit, unit) ioctx) (fut :: cfut) bufid ctx'.
    io_poll True eager_kernel (Some 7) (Provide 1 (Inr (fut, bufid))) ctx =
      Some (Done (Ready (ProvideDone (Inl (pe_new (OsError 22) \<lparr>fdata = [Some 9, None], fsize = 1\<rparr>))), ctx')) \<and> io_inv ctx'"
proof -
  let ?buf = "\<lparr>fdata = [Some 9, None], fsize = 1\<rparr>" and ?c = "cqe_demo 0 (- 22) 0"
  obtain ctx :: "(unit, unit) ioctx" and fut :: cfut and ce :: completion_event and bufid where d:
    "io_inv ctx" "sm_get (io_completions ctx) (cf_cqid fut) = Some ce" "cev_cqe ce = Some ?c"
    "sm_get (io_buffers ctx) bufid = Some (?buf\<lparr>fsize := 0\<rparr>)"
    using replied_demo [of "\<lambda>_. ?c" "?buf\<lparr>fsize := 0\<rparr>"] by blast
  have r: "ce_result ?c = Inl (OsError 22)"
    by (simp add: ce_result_def cqe_demo_def resultify_def)
  from provide_error_returns_buffer [OF d(1-3) r d(4), of True eager_kernel 7] show ?thesis
    by (auto simp: fv_len_def)
qed

end
