(* ===== verification/Dedup.thy ===== *)
theory Dedup
  imports Prelude "HOL-Library.Multiset"
begin

text \<open>
  \<open>hamerkop/src/util/dedup.rs\<close>: best-effort removal of duplicates with a small table of
  pointers into the vector.  The hasher of the \<open>fxhash\<close> crate is the parameter \<open>h\<close>:
  \<open>h seed v\<close> is the state after hashing the seed and then the value.  A pointer into the
  vector is an index; reading one outside the vector is \<open>Undef\<close>.
\<close>

definition SEED1 :: u64 where
  "SEED1 = 4200296977"

definition SEED2 :: u64 where
  "SEED2 = 1109209391370908281"

definition hash1 :: "(u64 \<Rightarrow> 'a \<Rightarrow> nat) \<Rightarrow> 'a \<Rightarrow> nat" where
  "hash1 h value = h SEED1 value"

definition hash2 :: "(u64 \<Rightarrow> 'a \<Rightarrow> nat) \<Rightarrow> 'a \<Rightarrow> nat" where
  "hash2 h value = h SEED2 value"

definition ptr_cmp :: "'a list \<Rightarrow> nat option \<Rightarrow> 'a \<Rightarrow> bool outcome" where
  "ptr_cmp data ptr value =
     (case ptr of None \<Rightarrow> Done False
      | Some k \<Rightarrow> if k < length data then Done (data ! k = value) else Undef)"

text \<open>\<open>Vec::swap_remove\<close>.\<close>

definition vec_swap_remove :: "'a list \<Rightarrow> nat \<Rightarrow> 'a list" where
  "vec_swap_remove data i = butlast (data[i := last data])"

definition table_insert :: "nat option list \<Rightarrow> nat \<Rightarrow> nat \<Rightarrow> nat \<Rightarrow> nat option list" where
  "table_insert table h1 h2 i =
     (if table ! h1 = None then table[h1 := Some i]
      else if table ! h2 = None then table[h2 := Some i]
      else if i mod 2 = 0 then table[h1 := Some i]
      else table[h2 := Some i])"

function dedup_loop :: "(u64 \<Rightarrow> 'a \<Rightarrow> nat) \<Rightarrow> 'a list \<Rightarrow> nat option list \<Rightarrow> nat \<Rightarrow> 'a list outcome" where
  "dedup_loop h data table i =
     (if i < length data
      then let value = data ! i;
               h1 = hash1 h value mod length table;
               h2 = hash2 h value mod length table
           in and_then (ptr_cmp data (table ! h1) value) (\<lambda>a.
              and_then (if a then Done True else ptr_cmp data (table ! h2) value) (\<lambda>b.
                if b then dedup_loop h (vec_swap_remove data i) table i
                else dedup_loop h data (table_insert table h1 h2 i) (i + 1)))
      else Done data)"
  by pat_completeness auto
termination
  by (relation "measure (\<lambda>(h, data, table, i). length data - i)") (auto simp: vec_swap_remove_def)

declare dedup_loop.simps [simp del]

definition dedup_partial :: "(u64 \<Rightarrow> 'a \<Rightarrow> nat) \<Rightarrow> 'a list \<Rightarrow> 'a list outcome" where
  "dedup_partial h data = dedup_loop h data (replicate 128 None) 0"

section \<open>Helper facts\<close>

lemma length_vec_swap_remove [simp]: "length (vec_swap_remove data i) = length data - 1"
  by (simp add: vec_swap_remove_def)

lemma mset_vec_swap_remove:
  assumes "i < length data"
  shows "mset (vec_swap_remove data i) = mset data - {#data ! i#}"
proof -
  let ?ys = "data[i := last data]"
  have ne: "?ys \<noteq> []" "data \<noteq> []" using assms by auto
  then have "last ?ys = last data" by (simp add: last_list_update)
  then have "mset ?ys = mset (butlast ?ys @ [last data])"
    using ne(1) by (metis append_butlast_last_id)
  then show ?thesis using assms by (simp add: vec_swap_remove_def mset_update)
qed

lemma take_vec_swap_remove: "i < length data \<Longrightarrow> take i (vec_swap_remove data i) = take i data"
  by (auto simp: vec_swap_remove_def butlast_conv_take)

lemma length_table_insert [simp]: "length (table_insert table h1 h2 i) = length table"
  by (simp add: table_insert_def)

lemma table_insert_set: "set (table_insert table h1 h2 i) \<subseteq> insert (Some i) (set table)"
  by (auto simp: table_insert_def dest: set_update_subset_insert [THEN subsetD])

lemma table_insert_hit:
  "h1 < length table \<Longrightarrow> h2 < length table \<Longrightarrow>
   table_insert table h1 h2 i ! h1 = Some i \<or> table_insert table h1 h2 i ! h2 = Some i"
  by (simp add: table_insert_def)

section \<open>The loop invariant\<close>

text \<open>
  Every pointer of the table points before \<open>i\<close>, the last value kept is in the table, and no
  two neighbours before \<open>i\<close> are equal.
\<close>

definition dedup_inv :: "(u64 \<Rightarrow> 'a \<Rightarrow> nat) \<Rightarrow> 'a list \<Rightarrow> nat option list \<Rightarrow> nat \<Rightarrow> bool" where
  "dedup_inv h data table i \<longleftrightarrow>
     length table = 128 \<and> i \<le> length data \<and> (\<forall>k. Some k \<in> set table \<longrightarrow> k < i) \<and>
     (0 < i \<longrightarrow> table ! (hash1 h (data ! (i - 1)) mod 128) = Some (i - 1) \<or>
               table ! (hash2 h (data ! (i - 1)) mod 128) = Some (i - 1)) \<and>
     distinct_adj (take i data)"

lemma dedup_inv_remove:
  assumes "dedup_inv h data table i" and "i < length data"
  shows "dedup_inv h (vec_swap_remove data i) table i"
proof -
  have "vec_swap_remove data i ! (i - 1) = data ! (i - 1)" if "0 < i"
    using take_vec_swap_remove [OF assms(2)] that
    by (metis diff_less less_numeral_extra(1) nth_take)
  with assms show ?thesis by (auto simp: dedup_inv_def take_vec_swap_remove)
qed

lemma distinct_adj_snoc:
  "distinct_adj (xs @ [x]) \<longleftrightarrow> distinct_adj xs \<and> (xs \<noteq> [] \<longrightarrow> last xs \<noteq> x)"
  by (auto simp: distinct_adj_append_iff)

lemma dedup_inv_keep:
  assumes inv: "dedup_inv h data table i" and lt: "i < length data"
    and new: "0 < i \<Longrightarrow> data ! (i - 1) \<noteq> data ! i"
  shows "dedup_inv h data
    (table_insert table (hash1 h (data ! i) mod 128) (hash2 h (data ! i) mod 128) i) (i + 1)"
proof -
  have "distinct_adj (take (Suc i) data)"
    using inv lt new by (auto simp: take_Suc_conv_app_nth dedup_inv_def distinct_adj_snoc last_conv_nth)
  moreover have "\<forall>k. Some k \<in> set (table_insert table (hash1 h (data ! i) mod 128)
      (hash2 h (data ! i) mod 128) i) \<longrightarrow> k < Suc i"
    using inv table_insert_set [of table] by (fastforce simp: dedup_inv_def)
  ultimately show ?thesis using inv lt table_insert_hit [of _ table _ i]
    by (simp add: dedup_inv_def)
qed

lemma ptr_cmp_inv:
  assumes "dedup_inv h data table i" and "k < 128"
  shows "\<exists>b. ptr_cmp data (table ! k) x = Done b \<and>
    (b \<longleftrightarrow> (\<exists>j. table ! k = Some j \<and> j < i \<and> data ! j = x))"
proof (cases "table ! k")
  case None
  then show ?thesis by (intro exI [of _ False]) (simp add: ptr_cmp_def)
next
  case (Some j)
  then have "Some j \<in> set table" using assms by (metis dedup_inv_def nth_mem)
  then have "j < i" and "i \<le> length data" using assms(1) by (auto simp: dedup_inv_def)
  with Some show ?thesis by (simp add: ptr_cmp_def)
qed

lemma dedup_loop_result:
  "dedup_inv h data table i \<Longrightarrow>
   \<exists>r. dedup_loop h data table i = Done r \<and> set r = set data \<and> mset r \<subseteq># mset data \<and>
       distinct_adj r \<and> take i r = take i data"
proof (induction h data table i rule: dedup_loop.induct)
  case (1 h data table i)
  note inv = "1.prems"
  have len: "length table = 128" using inv by (simp add: dedup_inv_def)
  show ?case
  proof (cases "i < length data")
    case False
    with inv show ?thesis by (subst dedup_loop.simps) (simp add: dedup_inv_def)
  next
    case lt: True
    let ?x = "data ! i"
    let ?h1 = "hash1 h ?x mod 128" and ?h2 = "hash2 h ?x mod 128"
    obtain a where a: "ptr_cmp data (table ! ?h1) ?x = Done a"
        "a \<longleftrightarrow> (\<exists>j. table ! ?h1 = Some j \<and> j < i \<and> data ! j = ?x)"
      using ptr_cmp_inv [OF inv, of ?h1] by auto
    obtain b where b: "ptr_cmp data (table ! ?h2) ?x = Done b"
        "b \<longleftrightarrow> (\<exists>j. table ! ?h2 = Some j \<and> j < i \<and> data ! j = ?x)"
      using ptr_cmp_inv [OF inv, of ?h2] by auto
    have step: "dedup_loop h data table i =
        (if a \<or> b then dedup_loop h (vec_swap_remove data i) table i
         else dedup_loop h data (table_insert table ?h1 ?h2 i) (i + 1))"
      using lt a(1) b(1) len by (subst dedup_loop.simps) (simp add: Let_def)
    show ?thesis
    proof (cases "a \<or> b")
      case True
      then obtain j where j: "j < i" "data ! j = ?x" using a(2) b(2) by auto
      have "\<exists>r. dedup_loop h (vec_swap_remove data i) table i = Done r \<and>
          set r = set (vec_swap_remove data i) \<and> mset r \<subseteq># mset (vec_swap_remove data i) \<and>
          distinct_adj r \<and> take i r = take i (vec_swap_remove data i)"
        using "1.IH"(1) [OF lt refl refl refl] a(1) b(1) len True dedup_inv_remove [OF inv lt] by auto
      moreover have "?x \<in> set (vec_swap_remove data i)"
        using j lt take_vec_swap_remove [OF lt] by (metis in_set_takeD in_set_conv_nth length_take min.absorb4 nth_take)
      then have "set (vec_swap_remove data i) = set data"
        using mset_vec_swap_remove [OF lt] lt
        by (metis insert_DiffM insert_absorb nth_mem_mset set_mset_add_mset_insert set_mset_mset)
      moreover have "mset (vec_swap_remove data i) \<subseteq># mset data"
        by (simp add: mset_vec_swap_remove [OF lt])
      ultimately show ?thesis using True step take_vec_swap_remove [OF lt]
        by (auto intro: subset_mset.order_trans)
    next
      case False
      have "data ! (i - 1) \<noteq> ?x" if "0 < i"
        using inv False a(2) b(2) that by (auto simp: dedup_inv_def)
      then have "dedup_inv h data (table_insert table ?h1 ?h2 i) (i + 1)"
        by (rule dedup_inv_keep [OF inv lt])
      then obtain r where r: "dedup_loop h data (table_insert table ?h1 ?h2 i) (i + 1) = Done r"
          "set r = set data" "mset r \<subseteq># mset data" "distinct_adj r" "take (i + 1) r = take (i + 1) data"
        using "1.IH"(2) [OF lt refl refl refl, of False False] a(1) b(1) len False by auto
      have "take i r = take i (take (i + 1) r)" by simp
      also have "\<dots> = take i data" unfolding r(5) by simp
      finally show ?thesis using r False step by auto
    qed
  qed
qed

lemma dedup_inv_init: "dedup_inv h data (replicate 128 None) 0"
  by (auto simp: dedup_inv_def in_set_replicate)

section \<open>Properties\<close>

theorem dedup_partial_sound:
  "\<exists>r. dedup_partial h data = Done r \<and> set r = set data \<and> mset r \<subseteq># mset data \<and> distinct_adj r"
  using dedup_loop_result [OF dedup_inv_init, of h data] by (auto simp: dedup_partial_def)

end
