(* ===== verification/Runtime.thy ===== *)
theory Runtime
  imports Io_Handle Dedup
begin

text \<open>
  \<open>hamerkop/src/executor/runtime.rs\<close>: the event loop.  \<open>poll tid f ctx\<close> runs the future
  \<open>f\<close> as task \<open>tid\<close>: it may use the context, finish, stay pending or panic (which
  \<open>catch_unwind\<close> sees), and \<open>None\<close> is a poll that does not return.  \<open>h\<close> is the hasher of
  \<open>dedup_partial\<close>.  \<open>rt_polled_dist\<close> lists the values inserted into \<open>POLL_CNT_DIST\<close>
  and \<open>rt_active\<close> is the value of the gauge \<open>ACTIVE_TASKS\<close>.
\<close>

section \<open>State\<close>

datatype poll_result = PReady | PPending | PPanic

type_synonym ('f, 'k) task_poll =
  "nat \<Rightarrow> 'f \<Rightarrow> ('f, 'k) ioctx \<Rightarrow> (poll_result \<times> 'f \<times> ('f, 'k) ioctx) option"

record ('f, 'k) runtime =
  rt_futures :: "'f slotmap"
  rt_ctx :: "('f, 'k) ioctx"
  rt_runqueue :: "nat list"
  rt_polled_dist :: "nat list"
  rt_active :: int

datatype turn_out = TOk | TErr io_error | TUnwind

definition rt_new :: "'k uring \<Rightarrow> nat \<Rightarrow> int \<Rightarrow> ('f, 'k) runtime outcome" where
  "rt_new ring bufsize active =
     assert_then (bufsize \<noteq> 0)
       (Done \<lparr>rt_futures = sm_new,
          rt_ctx = \<lparr>io_ring = ring, io_created = [], io_completions = sm_new, io_woken = [],
            io_buffers = sm_new, io_bufsize = bufsize, io_queued = 0, io_recv_dist = []\<rparr>,
          rt_runqueue = [], rt_polled_dist = [], rt_active = active\<rparr>)"

text \<open>The closure of \<open>Runtime::process_cqes\<close> pushes onto the run queue.\<close>

definition wake_now :: "nat list queue_fn" where
  "wake_now woken ce q = (woken, q @ [cev_task ce])"

definition rt_process_cqes :: "bool \<Rightarrow> ('f, 'k) runtime \<Rightarrow> ('f, 'k) runtime outcome" where
  "rt_process_cqes dbg rt =
     and_then (process_cqes dbg wake_now (rt_runqueue rt) (rt_ctx rt)) (\<lambda>(q, ctx).
       Done (rt\<lparr>rt_runqueue := q, rt_ctx := ctx\<rparr>))"

section \<open>One iteration\<close>

fun rt_setup :: "'f list \<Rightarrow> ('f, 'k) runtime \<Rightarrow> ('f, 'k) runtime outcome" where
  "rt_setup [] rt = Done rt"
| "rt_setup (f # fs) rt =
     and_then (sm_insert (rt_futures rt) f) (\<lambda>(tid, futs).
       rt_setup fs (rt\<lparr>rt_futures := futs, rt_active := rt_active rt + 1, rt_runqueue := rt_runqueue rt @ [tid]\<rparr>))"

text \<open>The loop over the drained run queue: a panic drops the rest of the queue.\<close>

fun run_tasks :: "('f, 'k) task_poll \<Rightarrow> nat list \<Rightarrow> ('f, 'k) runtime \<Rightarrow> (turn_out \<times> ('f, 'k) runtime) option" where
  "run_tasks poll [] rt = Some (TOk, rt)"
| "run_tasks poll (tid # ids) rt =
     (case sm_get (rt_futures rt) tid of
        None \<Rightarrow> run_tasks poll ids rt
      | Some future \<Rightarrow>
          (case poll tid future (rt_ctx rt) of
             None \<Rightarrow> None
           | Some (result, future', ctx) \<Rightarrow>
               (let rt = rt\<lparr>rt_futures := sm_set (rt_futures rt) tid future', rt_ctx := ctx\<rparr>;
                    gone = rt\<lparr>rt_futures := snd (sm_remove (rt_futures rt) tid), rt_active := rt_active rt - 1\<rparr>
                in case result of
                     PReady \<Rightarrow> run_tasks poll ids gone
                   | PPending \<Rightarrow> run_tasks poll ids rt
                   | PPanic \<Rightarrow> Some (TUnwind, gone))))"

definition rt_wait :: "bool \<Rightarrow> 'k enter \<Rightarrow> ('f, 'k) runtime \<Rightarrow> (turn_out \<times> ('f, 'k) runtime) outcome option" where
  "rt_wait dbg enter rt =
     (let ctx = rt_ctx rt
      in if io_has_queued ctx \<or> (rt_runqueue rt = [] \<and> \<not> cq_has_next (io_cq ctx))
         then (let wait_for = (if cq_has_next (io_cq ctx) \<or> rt_runqueue rt \<noteq> [] then 0 else 1)
               in obind (io_submit dbg enter wait_for ctx) (\<lambda>(res, ctx).
                    case res of
                      Inl e \<Rightarrow> Some (Done (TErr e, rt\<lparr>rt_ctx := ctx\<rparr>))
                    | Inr _ \<Rightarrow> Some (Done (TOk, rt\<lparr>rt_ctx := ctx\<lparr>io_queued := 0\<rparr>\<rparr>))))
         else Some (Done (TOk, rt\<lparr>rt_ctx := ctx\<lparr>io_queued := 0\<rparr>\<rparr>)))"

definition rt_gather :: "('f, 'k) runtime \<Rightarrow> ('f, 'k) runtime outcome" where
  "rt_gather rt =
     and_then (rt_setup (io_created (rt_ctx rt)) (rt\<lparr>rt_ctx := (rt_ctx rt)\<lparr>io_created := []\<rparr>\<rparr>)) (\<lambda>rt.
       Done (rt\<lparr>rt_runqueue := rt_runqueue rt @ io_woken (rt_ctx rt), rt_ctx := (rt_ctx rt)\<lparr>io_woken := []\<rparr>\<rparr>))"

definition rt_turn ::
  "bool \<Rightarrow> 'k enter \<Rightarrow> (u64 \<Rightarrow> nat \<Rightarrow> nat) \<Rightarrow> ('f, 'k) task_poll \<Rightarrow> ('f, 'k) runtime \<Rightarrow>
    (turn_out \<times> ('f, 'k) runtime) outcome option" where
  "rt_turn dbg enter h poll rt =
     obind (Some (rt_gather rt)) (\<lambda>rt.
     obind (rt_wait dbg enter rt) (\<lambda>(res, rt).
       case res of
         TOk \<Rightarrow>
           obind (Some (rt_process_cqes dbg rt)) (\<lambda>rt.
           obind (Some (dedup_partial h (rt_runqueue rt))) (\<lambda>queue.
             map_option Done (run_tasks poll queue
               (rt\<lparr>rt_runqueue := [], rt_polled_dist := rt_polled_dist rt @ [length queue]\<rparr>))))
       | r \<Rightarrow> Some (Done (r, rt))))"

section \<open>Running\<close>

definition rt_is_empty :: "('f, 'k) runtime \<Rightarrow> bool" where
  "rt_is_empty rt \<longleftrightarrow> sm_is_empty (rt_futures rt) \<and> io_created (rt_ctx rt) = []"

definition rt_spawn_dyn :: "'f \<Rightarrow> ('f, 'k) runtime \<Rightarrow> (nat \<times> ('f, 'k) runtime) outcome" where
  "rt_spawn_dyn future rt =
     and_then (sm_insert (rt_futures rt) future) (\<lambda>(tid, futs).
       Done (tid, rt\<lparr>rt_futures := futs, rt_runqueue := rt_runqueue rt @ [tid]\<rparr>))"

partial_function (option) rt_run ::
  "bool \<Rightarrow> 'k enter \<Rightarrow> (u64 \<Rightarrow> nat \<Rightarrow> nat) \<Rightarrow> ('f, 'k) task_poll \<Rightarrow> ('f, 'k) runtime \<Rightarrow>
    (turn_out \<times> ('f, 'k) runtime) outcome option" where
  "rt_run dbg enter h poll rt =
     (if rt_is_empty rt then Some (Done (TOk, rt))
      else obind (rt_turn dbg enter h poll rt) (\<lambda>(res, rt).
             case res of TOk \<Rightarrow> rt_run dbg enter h poll rt | r \<Rightarrow> Some (Done (r, rt))))"

text \<open>\<open>block_on\<close>: the local variable \<open>output\<close>, which the wrapped future writes, is a part of
  the world \<open>'k\<close> that \<open>output\<close> reads.\<close>

partial_function (option) block_loop ::
  "bool \<Rightarrow> 'k enter \<Rightarrow> (u64 \<Rightarrow> nat \<Rightarrow> nat) \<Rightarrow> ('f, 'k) task_poll \<Rightarrow> ('k \<Rightarrow> 't option) \<Rightarrow> ('f, 'k) runtime \<Rightarrow>
    (turn_out \<times> ('f, 'k) runtime) outcome option" where
  "block_loop dbg enter h poll output rt =
     (if output (u_kernel (io_ring (rt_ctx rt))) \<noteq> None then Some (Done (TOk, rt))
      else obind (rt_turn dbg enter h poll rt) (\<lambda>(res, rt).
             case res of TOk \<Rightarrow> block_loop dbg enter h poll output rt | r \<Rightarrow> Some (Done (r, rt))))"

definition rt_block_on ::
  "bool \<Rightarrow> 'k enter \<Rightarrow> (u64 \<Rightarrow> nat \<Rightarrow> nat) \<Rightarrow> ('f, 'k) task_poll \<Rightarrow> ('k \<Rightarrow> 't option) \<Rightarrow> 'f \<Rightarrow> ('f, 'k) runtime \<Rightarrow>
    (turn_out \<times> 't option \<times> ('f, 'k) runtime) outcome option" where
  "rt_block_on dbg enter h poll output future rt =
     obind (Some (rt_spawn_dyn future rt)) (\<lambda>(tid, rt).
     obind (block_loop dbg enter h poll output rt) (\<lambda>(res, rt).
       case res of
         TOk \<Rightarrow> Some (Done (TOk, output (u_kernel (io_ring (rt_ctx rt))), rt))
       | TErr e \<Rightarrow> Some (Done (TErr e, None, rt))
       | TUnwind \<Rightarrow> Some (Done (TUnwind, None,
           rt\<lparr>rt_futures := snd (sm_remove (rt_futures rt) tid), rt_active := rt_active rt - 1\<rparr>))))"

text \<open>\<open>Drop for Runtime\<close>: the gauge after the runtime is gone.\<close>

definition rt_drop :: "('f, 'k) runtime \<Rightarrow> int" where
  "rt_drop rt = rt_active rt - int (sm_len (rt_futures rt))"

section \<open>The invariant of the runtime\<close>

definition rt_inv :: "('f, 'k) runtime \<Rightarrow> bool" where
  "rt_inv rt \<longleftrightarrow> sm_inv (rt_futures rt) \<and> io_inv (rt_ctx rt)"

text \<open>The gauge counts the stored futures, up to a constant.\<close>

definition rt_untracked :: "('f, 'k) runtime \<Rightarrow> int" where
  "rt_untracked rt = int (sm_len (rt_futures rt)) - rt_active rt"

definition poll_keeps :: "('f, 'k) task_poll \<Rightarrow> bool" where
  "poll_keeps poll \<longleftrightarrow> (\<forall>tid f ctx r f' ctx'. io_inv ctx \<longrightarrow> poll tid f ctx = Some (r, f', ctx') \<longrightarrow> io_inv ctx')"

lemma run_tasks_inv:
  assumes "poll_keeps poll" and "rt_inv rt" and "run_tasks poll ids rt = Some (res, rt')"
  shows "rt_inv rt' \<and> rt_untracked rt' = rt_untracked rt \<and> rt_runqueue rt' = rt_runqueue rt \<and>
    rt_polled_dist rt' = rt_polled_dist rt \<and> (\<forall>e. res \<noteq> TErr e)"
  using assms(2,3)
proof (induction ids arbitrary: rt)
  case Nil
  then show ?case by simp
next
  case (Cons tid ids)
  let ?F = "rt_futures rt"
  have F: "sm_inv ?F" and io: "io_inv (rt_ctx rt)" using Cons.prems(1) by (simp_all add: rt_inv_def)
  show ?case
  proof (cases "sm_get ?F tid")
    case None
    with Cons show ?thesis by simp
  next
    case (Some f)
    obtain r f' ctx where p: "poll tid f (rt_ctx rt) = Some (r, f', ctx)"
      using Cons.prems(2) Some by (auto split: option.splits)
    have ctx: "io_inv ctx" using assms(1) io p unfolding poll_keeps_def by blast
    let ?S = "sm_set ?F tid f'"
    let ?rt = "rt\<lparr>rt_futures := ?S, rt_ctx := ctx\<rparr>"
    let ?gone = "rt\<lparr>rt_ctx := ctx, rt_futures := snd (sm_remove ?S tid), rt_active := rt_active rt - 1\<rparr>"
    have S: "sm_inv ?S" "sm_len ?S = sm_len ?F" "sm_get ?S tid = Some f'"
      using sm.put_inv [OF F] sm.put_count [OF F] sm.put_get [OF F, of tid] Some by auto
    have dom: "0 < sm_len ?S" using sm.count_zero [OF S(1)] S(3) by auto
    have 1: "rt_inv ?rt" "rt_untracked ?rt = rt_untracked rt"
      using S ctx by (simp_all add: rt_inv_def rt_untracked_def)
    have 2: "rt_inv ?gone" "rt_untracked ?gone = rt_untracked rt"
      using S ctx dom sm.del_inv [OF S(1)] sm.del_count [OF S(1), of tid]
      by (simp_all add: rt_inv_def rt_untracked_def of_nat_diff)
    show ?thesis
    proof (cases r)
      case PReady
      with Cons.IH [OF 2(1)] Cons.prems(2) Some p 2(2) show ?thesis by (simp add: Let_def)
    next
      case PPending
      with Cons.IH [OF 1(1)] Cons.prems(2) Some p 1(2) show ?thesis by (simp add: Let_def)
    next
      case PPanic
      with Cons.prems(2) Some p 2 show ?thesis by (auto simp: Let_def)
    qed
  qed
qed

lemma rt_setup_inv:
  assumes "rt_inv rt" and "sm_len (rt_futures rt) + length fs \<le> sm_cap"
  shows "\<exists>ids rt'. rt_setup fs rt = Done rt' \<and> rt_inv rt' \<and> rt_untracked rt' = rt_untracked rt \<and>
    rt_ctx rt' = rt_ctx rt \<and> rt_runqueue rt' = rt_runqueue rt @ ids \<and> length ids = length fs \<and>
    distinct ids \<and> (\<forall>i\<in>set ids. sm_get (rt_futures rt) i = None) \<and>
    sm_get (rt_futures rt') = (sm_get (rt_futures rt))(ids [\<mapsto>] fs)"
  using assms
proof (induction fs arbitrary: rt)
  case Nil
  then show ?case by simp
next
  case (Cons f fs)
  have F: "sm_inv (rt_futures rt)" and lt: "sm_len (rt_futures rt) < sm_cap"
    using Cons.prems by (auto simp: rt_inv_def)
  obtain i F1 where 1: "sm_insert (rt_futures rt) f = Done (i, F1)" using sm.ins_law [OF F lt] by blast
  note r = sm.ins_result [OF F lt 1] sm.ins_count [OF F lt 1]
  let ?rt = "rt\<lparr>rt_futures := F1, rt_active := rt_active rt + 1, rt_runqueue := rt_runqueue rt @ [i]\<rparr>"
  have rt1: "rt_inv ?rt" "rt_untracked ?rt = rt_untracked rt" "sm_len (rt_futures ?rt) + length fs \<le> sm_cap"
    using r Cons.prems by (auto simp: rt_inv_def rt_untracked_def)
  obtain ids rt' where 2: "rt_setup fs ?rt = Done rt'" "rt_inv rt'" "rt_untracked rt' = rt_untracked rt"
    "rt_ctx rt' = rt_ctx rt" "rt_runqueue rt' = rt_runqueue rt @ i # ids" "length ids = length fs"
    "distinct ids" "\<forall>j\<in>set ids. sm_get F1 j = None" "sm_get (rt_futures rt') = (sm_get F1)(ids [\<mapsto>] fs)"
    using Cons.IH [OF rt1(1,3)] rt1(2) by auto
  have "i \<notin> set ids" using 2(8) r(3) by auto
  moreover have "\<forall>j\<in>set ids. sm_get (rt_futures rt) j = None" using 2(8) r(3) by (auto split: if_splits)
  ultimately show ?case using 1 2 r
    by (intro exI [of _ "i # ids"] exI [of _ rt']) (simp add: fun_upd_def)
qed

section \<open>Who is woken\<close>

definition live_task :: "nat \<Rightarrow> bool" where
  "live_task t \<longleftrightarrow> t \<noteq> NO_TASK_SENTINEL \<and> t \<noteq> DEAD_TASK_SENTINEL"

text \<open>The tasks that wait for the completions \<open>cs\<close>, in order.\<close>

definition wake_list :: "(nat \<Rightarrow> completion_event option) \<Rightarrow> cqe list \<Rightarrow> nat list" where
  "wake_list C cs = concat (map (\<lambda>c. case C (unat (ce_user_data c)) of
     Some e \<Rightarrow> if live_task (cev_task e) then [cev_task e] else [] | None \<Rightarrow> []) cs)"

text \<open>Processing never changes for whom an event is waiting; only dead events disappear.\<close>

definition same_waiters :: "(nat \<Rightarrow> completion_event option) \<Rightarrow> (nat \<Rightarrow> completion_event option) \<Rightarrow> bool" where
  "same_waiters C D \<longleftrightarrow> (\<forall>i t. live_task t \<longrightarrow>
     (\<exists>e. C i = Some e \<and> cev_task e = t) \<longleftrightarrow> (\<exists>e. D i = Some e \<and> cev_task e = t))"

lemma wake_list_cong:
  assumes "same_waiters C D"
  shows "wake_list C cs = wake_list D cs"
proof -
  have "(case C i of Some e \<Rightarrow> if live_task (cev_task e) then [cev_task e] else [] | None \<Rightarrow> []) =
      (case D i of Some e \<Rightarrow> if live_task (cev_task e) then [cev_task e] else [] | None \<Rightarrow> [])" for i
    using assms unfolding same_waiters_def
    by (cases "C i"; cases "D i") (auto, (metis option.inject option.distinct(1))+)
  then show ?thesis by (simp add: wake_list_def)
qed

lemma spec_cqe_waiters:
  assumes "spec_cqe qf c (C, B, w, q) = (C', B', w', q')"
  shows "same_waiters C C'"
  using assms
  by (auto simp: spec_cqe_def same_waiters_def live_task_def Let_def
      split: option.splits if_splits prod.splits cleanup_action.splits sum.splits)

lemma fold_wake_now:
  "fold (spec_cqe wake_now) cs (C, B, w, q) = (C', B', w', q') \<Longrightarrow> w' = w \<and> q' = q @ wake_list C cs"
proof (induction cs arbitrary: C B w q)
  case Nil
  then show ?case by (simp add: wake_list_def)
next
  case (Cons c cs)
  obtain C1 B1 w1 q1 where 1: "spec_cqe wake_now c (C, B, w, q) = (C1, B1, w1, q1)" by (metis prod_cases4)
  have "w1 = w \<and> q1 = q @ wake_list C [c]"
    using 1 by (auto simp: spec_cqe_def wake_list_def wake_now_def live_task_def Let_def
        split: option.splits if_splits)
  moreover have "wake_list C1 cs = wake_list C cs"
    using wake_list_cong [OF spec_cqe_waiters [OF 1]] by simp
  ultimately show ?case using Cons.IH [of C1 B1 w1 q1] Cons.prems 1
    by (simp add: wake_list_def)
qed

lemma rt_process_cqes_spec:
  assumes "rt_inv rt"
  shows "\<exists>ctx'. rt_process_cqes False rt = Done (rt\<lparr>rt_runqueue := rt_runqueue rt @
        wake_list (sm_get (io_completions (rt_ctx rt))) (cq_window (io_cq (rt_ctx rt))), rt_ctx := ctx'\<rparr>) \<and>
    io_inv ctx' \<and> io_same (rt_ctx rt) ctx' \<and> cq_window (io_cq ctx') = []"
proof -
  have io: "io_inv (rt_ctx rt)" using assms by (simp add: rt_inv_def)
  obtain q' ctx' where 1: "process_cqes False wake_now (rt_runqueue rt) (rt_ctx rt) = Done (q', ctx')"
    "io_inv ctx'" "io_same (rt_ctx rt) ctx'" "cq_window (io_cq ctx') = []"
    "io_tables q' ctx' = fold (spec_cqe wake_now) (cq_window (io_cq (rt_ctx rt))) (io_tables (rt_runqueue rt) (rt_ctx rt))"
    using process_cqes_spec [OF io, of wake_now "rt_runqueue rt"] by auto
  have "q' = rt_runqueue rt @ wake_list (sm_get (io_completions (rt_ctx rt))) (cq_window (io_cq (rt_ctx rt)))"
    using fold_wake_now 1(5) by (metis io_tables_def)
  with 1 show ?thesis by (intro exI [of _ ctx']) (simp add: rt_process_cqes_def)
qed

section \<open>One turn\<close>

lemma rt_gather_spec:
  assumes "rt_inv rt" and "sm_len (rt_futures rt) + length (io_created (rt_ctx rt)) \<le> sm_cap"
  shows "\<exists>ids rt'. rt_gather rt = Done rt' \<and> rt_inv rt' \<and> rt_untracked rt' = rt_untracked rt \<and>
    rt_ctx rt' = (rt_ctx rt)\<lparr>io_created := [], io_woken := []\<rparr> \<and>
    rt_runqueue rt' = rt_runqueue rt @ ids @ io_woken (rt_ctx rt) \<and>
    length ids = length (io_created (rt_ctx rt)) \<and> (\<forall>i\<in>set ids. sm_get (rt_futures rt) i = None) \<and>
    sm_get (rt_futures rt') = (sm_get (rt_futures rt))(ids [\<mapsto>] io_created (rt_ctx rt))"
proof -
  let ?rt = "rt\<lparr>rt_ctx := (rt_ctx rt)\<lparr>io_created := []\<rparr>\<rparr>"
  have 1: "rt_inv ?rt" using assms(1) by (simp add: rt_inv_def io_inv_def)
  obtain ids rt' where 2: "rt_setup (io_created (rt_ctx rt)) ?rt = Done rt'" "rt_inv rt'"
    "rt_untracked rt' = rt_untracked ?rt" "rt_ctx rt' = rt_ctx ?rt" "rt_runqueue rt' = rt_runqueue ?rt @ ids"
    "length ids = length (io_created (rt_ctx rt))" "\<forall>i\<in>set ids. sm_get (rt_futures ?rt) i = None"
    "sm_get (rt_futures rt') = (sm_get (rt_futures ?rt))(ids [\<mapsto>] io_created (rt_ctx rt))"
    using rt_setup_inv [OF 1, of "io_created (rt_ctx rt)"] assms(2) by auto
  let ?rt' = "rt'\<lparr>rt_runqueue := rt_runqueue rt' @ io_woken (rt_ctx rt'), rt_ctx := (rt_ctx rt')\<lparr>io_woken := []\<rparr>\<rparr>"
  have "rt_inv ?rt'" using 2(2) by (simp add: rt_inv_def io_inv_def)
  moreover have "rt_untracked ?rt' = rt_untracked rt" using 2(3) by (simp add: rt_untracked_def)
  ultimately show ?thesis using 2 by (intro exI [of _ ids] exI [of _ ?rt']) (simp add: rt_gather_def)
qed

lemma rt_wait_spec:
  assumes k: "kernel_keeps_cq enter" "kernel_settles m enter" and inv: "rt_inv rt"
  shows "\<exists>res ctx'. rt_wait False enter rt = Some (Done (res, rt\<lparr>rt_ctx := ctx'\<rparr>)) \<and> io_inv ctx' \<and>
    (res = TOk \<and> io_queued ctx' = 0 \<or> (\<exists>e. res = TErr e))"
proof -
  have io: "io_inv (rt_ctx rt)" using inv by (simp add: rt_inv_def)
  have z: "io_inv (ctx\<lparr>io_queued := 0\<rparr>) = io_inv ctx" for ctx by (simp add: io_inv_def)
  show ?thesis
  proof (cases "io_has_queued (rt_ctx rt) \<or> (rt_runqueue rt = [] \<and> \<not> cq_has_next (io_cq (rt_ctx rt)))")
    case False
    then show ?thesis using io by (auto simp: rt_wait_def Let_def z)
  next
    case True
    let ?w = "if cq_has_next (io_cq (rt_ctx rt)) \<or> rt_runqueue rt \<noteq> [] then 0 else 1"
    obtain x ctx' where s: "io_submit False enter ?w (rt_ctx rt) = Some (Done (x, ctx'))" "io_inv ctx'"
      using io_submit_returns [OF k io] by blast
    have "rt_wait False enter rt = (case x of
        Inl e \<Rightarrow> Some (Done (TErr e, rt\<lparr>rt_ctx := ctx'\<rparr>))
      | Inr _ \<Rightarrow> Some (Done (TOk, rt\<lparr>rt_ctx := ctx'\<lparr>io_queued := 0\<rparr>\<rparr>)))"
      using True s(1) unfolding rt_wait_def Let_def by simp
    with s(2) show ?thesis by (cases x) (auto simp: z)
  qed
qed

text \<open>What is polled in a turn: the ids of the run queue.  \<open>dedup_partial\<close> loses none.\<close>

lemma dedup_queue: "\<exists>q. dedup_partial h xs = Done q \<and> set q = set xs \<and> distinct_adj q"
  using dedup_loop_result [OF dedup_inv_init, of h xs] by (auto simp: dedup_partial_def)

lemma rt_turn_cases:
  assumes k: "kernel_keeps_cq enter" "kernel_settles m enter" and inv: "rt_inv rt"
    and room: "sm_len (rt_futures rt) + length (io_created (rt_ctx rt)) \<le> sm_cap"
  shows "(\<exists>e rt'. rt_turn False enter h poll rt = Some (Done (TErr e, rt')) \<and> rt_inv rt' \<and>
      rt_untracked rt' = rt_untracked rt) \<or>
    (\<exists>queue ids rt1. rt_turn False enter h poll rt = map_option Done (run_tasks poll queue rt1) \<and>
      rt_inv rt1 \<and> rt_untracked rt1 = rt_untracked rt \<and> rt_runqueue rt1 = [] \<and>
      set (rt_runqueue rt) \<union> set ids \<union> set (io_woken (rt_ctx rt)) \<subseteq> set queue \<and>
      sm_get (rt_futures rt1) = (sm_get (rt_futures rt))(ids [\<mapsto>] io_created (rt_ctx rt)) \<and>
      cq_window (io_cq (rt_ctx rt1)) = [])"
proof -
  obtain ids rt0 where 0: "rt_gather rt = Done rt0" "rt_inv rt0" "rt_untracked rt0 = rt_untracked rt"
    "rt_runqueue rt0 = rt_runqueue rt @ ids @ io_woken (rt_ctx rt)"
    "sm_get (rt_futures rt0) = (sm_get (rt_futures rt))(ids [\<mapsto>] io_created (rt_ctx rt))"
    using rt_gather_spec [OF inv room] by blast
  obtain res ctx1 where 1: "rt_wait False enter rt0 = Some (Done (res, rt0\<lparr>rt_ctx := ctx1\<rparr>))" "io_inv ctx1"
    "res = TOk \<or> (\<exists>e. res = TErr e)"
    using rt_wait_spec [OF k 0(2)] by blast
  let ?rt1 = "rt0\<lparr>rt_ctx := ctx1\<rparr>"
  have inv1: "rt_inv ?rt1" "rt_untracked ?rt1 = rt_untracked rt"
    using 0(2,3) 1(2) by (simp_all add: rt_inv_def rt_untracked_def)
  show ?thesis
  proof (cases "\<exists>e. res = TErr e")
    case True
    then obtain e where "rt_turn False enter h poll rt = Some (Done (TErr e, ?rt1))"
      using 0(1) 1(1) by (auto simp: rt_turn_def)
    with inv1 show ?thesis by blast
  next
    case False
    with 1(3) have res: "res = TOk" by simp
    obtain q ctx2 where 2: "rt_process_cqes False ?rt1 = Done (?rt1\<lparr>rt_runqueue := rt_runqueue rt0 @ q, rt_ctx := ctx2\<rparr>)"
      "io_inv ctx2" "cq_window (io_cq ctx2) = []"
      using rt_process_cqes_spec [OF inv1(1)] by auto
    obtain queue where 3: "dedup_partial h (rt_runqueue rt0 @ q) = Done queue"
      "set queue = set (rt_runqueue rt0 @ q)"
      using dedup_queue [of h "rt_runqueue rt0 @ q"] by blast
    let ?rt2 = "rt0\<lparr>rt_ctx := ctx2, rt_runqueue := [], rt_polled_dist := rt_polled_dist rt0 @ [length queue]\<rparr>"
    have "rt_turn False enter h poll rt = map_option Done (run_tasks poll queue ?rt2)"
      using 0(1) 1(1) 2(1) 3(1) by (simp add: rt_turn_def res)
    moreover have "rt_inv ?rt2" "rt_untracked ?rt2 = rt_untracked rt"
      using 0(2,3) 2(2) by (simp_all add: rt_inv_def rt_untracked_def)
    ultimately show ?thesis using 0(4,5) 2(3) 3(2)
      by (intro disjI2 exI [of _ queue] exI [of _ ids] exI [of _ ?rt2]) auto
  qed
qed

definition poll_returns :: "('f, 'k) task_poll \<Rightarrow> bool" where
  "poll_returns poll \<longleftrightarrow> (\<forall>tid f ctx. poll tid f ctx \<noteq> None)"

lemma run_tasks_returns: "poll_returns poll \<Longrightarrow> \<exists>res rt'. run_tasks poll ids rt = Some (res, rt')"
proof (induction ids arbitrary: rt)
  case Nil
  then show ?case by simp
next
  case (Cons tid ids)
  show ?case
  proof (cases "sm_get (rt_futures rt) tid")
    case None
    with Cons show ?thesis by simp
  next
    case (Some f)
    obtain r f' ctx where "poll tid f (rt_ctx rt) = Some (r, f', ctx)"
      using Cons.prems unfolding poll_returns_def by (metis option.exhaust prod_cases3)
    with Some Cons show ?thesis by (cases r) (simp_all add: Let_def)
  qed
qed

lemma rt_turn_result:
  assumes k: "kernel_keeps_cq enter" "kernel_settles m enter" and p: "poll_keeps poll" "poll_returns poll"
    and inv: "rt_inv rt" and room: "sm_len (rt_futures rt) + length (io_created (rt_ctx rt)) \<le> sm_cap"
  shows "\<exists>res rt'. rt_turn False enter h poll rt = Some (Done (res, rt')) \<and> rt_inv rt' \<and>
    rt_untracked rt' = rt_untracked rt \<and> (res = TOk \<longrightarrow> rt_runqueue rt' = [])"
  using rt_turn_cases [OF k inv room, of h poll]
proof
  assume "\<exists>e rt'. rt_turn False enter h poll rt = Some (Done (TErr e, rt')) \<and> rt_inv rt' \<and>
      rt_untracked rt' = rt_untracked rt"
  then show ?thesis by auto
next
  assume "\<exists>queue ids rt1. rt_turn False enter h poll rt = map_option Done (run_tasks poll queue rt1) \<and>
      rt_inv rt1 \<and> rt_untracked rt1 = rt_untracked rt \<and> rt_runqueue rt1 = [] \<and>
      set (rt_runqueue rt) \<union> set ids \<union> set (io_woken (rt_ctx rt)) \<subseteq> set queue \<and>
      sm_get (rt_futures rt1) = (sm_get (rt_futures rt))(ids [\<mapsto>] io_created (rt_ctx rt)) \<and>
      cq_window (io_cq (rt_ctx rt1)) = []"
  then obtain queue rt1 where 1: "rt_turn False enter h poll rt = map_option Done (run_tasks poll queue rt1)"
    "rt_inv rt1" "rt_untracked rt1 = rt_untracked rt" "rt_runqueue rt1 = []" by blast
  obtain res rt' where 2: "run_tasks poll queue rt1 = Some (res, rt')"
    using run_tasks_returns [OF p(2)] by blast
  from run_tasks_inv [OF p(1) 1(2) 2] 1 2 show ?thesis by simp
qed

text \<open>\<open>Runtime::spawn_dyn\<close> does not count the future it stores.\<close>

lemma rt_spawn_dyn_spec:
  assumes "rt_inv rt" and "sm_len (rt_futures rt) < sm_cap"
  shows "\<exists>tid rt'. rt_spawn_dyn f rt = Done (tid, rt') \<and> rt_inv rt' \<and>
    sm_get (rt_futures rt) tid = None \<and> sm_get (rt_futures rt') = (sm_get (rt_futures rt))(tid \<mapsto> f) \<and>
    rt_runqueue rt' = rt_runqueue rt @ [tid] \<and> rt_untracked rt' = rt_untracked rt + 1"
proof -
  have F: "sm_inv (rt_futures rt)" using assms(1) by (simp add: rt_inv_def)
  obtain i F' where 1: "sm_insert (rt_futures rt) f = Done (i, F')" using sm.ins_law [OF F assms(2)] by blast
  with sm.ins_result [OF F assms(2) 1] sm.ins_count [OF F assms(2) 1] assms(1) show ?thesis
    by (simp add: rt_spawn_dyn_def rt_inv_def rt_untracked_def)
qed

text \<open>What holds when \<open>run\<close> or \<open>block_on\<close> return.\<close>

lemma rt_run_empty:
  assumes "rt_run dbg enter h poll rt = Some (Done (TOk, rt'))"
  shows "rt_is_empty rt'"
proof -
  have "y = Done (TOk, rt') \<longrightarrow> rt_is_empty rt'"
    if "rt_run dbg enter h poll rt = Some y" for dbg and enter :: "'b enter" and h and
      poll :: "('a, 'b) task_poll" and rt y
  proof (induction rule: rt_run.raw_induct [OF _ that])
    case (1 f dbg enter h poll rt y)
    from 1(2) 1(1) show ?case
      by (auto simp: obind_def split: if_splits option.splits outcome.splits prod.splits turn_out.splits
          Option.bind_splits)
  qed
  with assms show ?thesis by blast
qed

section \<open>Properties\<close>

text \<open>C2: One turn of the executor returns, keeps the invariant of the runtime and the difference
  between the active-task counter and the futures stored, and leaves an empty run queue when
  it ends without an error.\<close>

theorem turn_keeps_runtime:
  assumes "kernel_keeps_cq enter" "kernel_settles m enter" and "poll_keeps poll" "poll_returns poll"
    and "rt_inv rt" and "sm_len (rt_futures rt) + length (io_created (rt_ctx rt)) \<le> sm_cap"
  shows "\<exists>res rt'. rt_turn False enter h poll rt = Some (Done (res, rt')) \<and> rt_inv rt' \<and>
    rt_untracked rt' = rt_untracked rt \<and> (res = TOk \<longrightarrow> rt_runqueue rt' = [])"
  by (rule rt_turn_result [OF assms])


theorem completions_wake_waiters:
  assumes "rt_inv rt"
  shows "\<exists>ctx'. rt_process_cqes False rt = Done (rt\<lparr>rt_runqueue := rt_runqueue rt @
        wake_list (sm_get (io_completions (rt_ctx rt))) (cq_window (io_cq (rt_ctx rt))), rt_ctx := ctx'\<rparr>) \<and>
    io_inv ctx' \<and> io_same (rt_ctx rt) ctx' \<and> cq_window (io_cq ctx') = []"
  by (rule rt_process_cqes_spec [OF assms])

theorem spawn_dyn_uncounted:
  assumes "rt_inv rt" and "sm_len (rt_futures rt) < sm_cap"
  shows "\<exists>tid rt'. rt_spawn_dyn f rt = Done (tid, rt') \<and> rt_inv rt' \<and>
    sm_get (rt_futures rt) tid = None \<and> sm_get (rt_futures rt') = (sm_get (rt_futures rt))(tid \<mapsto> f) \<and>
    rt_runqueue rt' = rt_runqueue rt @ [tid] \<and> rt_untracked rt' = rt_untracked rt + 1"
  by (rule rt_spawn_dyn_spec [OF assms])

section \<open>Witnesses\<close>

definition rt_demo :: "(unit, unit) runtime" where
  "rt_demo = \<lparr>rt_futures = sm_new, rt_ctx = ctx_demo\<lparr>io_created := [(), ()]\<rparr>, rt_runqueue = [],
     rt_polled_dist = [], rt_active = 0\<rparr>"

definition poll_demo :: "(unit, unit) task_poll" where
  "poll_demo tid f ctx = Some (if tid = 0 then PReady else PPending, f, ctx)"

lemma rt_demo_inv: "rt_inv rt_demo"
  "sm_len (rt_futures rt_demo) + length (io_created (rt_ctx rt_demo)) \<le> sm_cap"
proof -
  show "rt_inv rt_demo" using ctx_demo_inv by (simp add: rt_inv_def rt_demo_def sm_inv_new io_inv_def)
  show "sm_len (rt_futures rt_demo) + length (io_created (rt_ctx rt_demo)) \<le> sm_cap"
    by (simp add: rt_demo_def sm_len_def sm_new_def sm_cap_def SENTINEL_def SLABSIZE_def USIZE_MAX_def)
qed

theorem turn_keeps_runtime_witness:
  "\<exists>res rt'. rt_turn False eager_kernel (\<lambda>seed v. v) poll_demo rt_demo = Some (Done (res, rt')) \<and> rt_inv rt' \<and>
    rt_untracked rt' = rt_untracked rt_demo \<and> (res = TOk \<longrightarrow> rt_runqueue rt' = [])"
proof (rule turn_keeps_runtime [OF eager_kernel_keeps_cq eager_kernel_settles [of "\<lambda>_. 0"] _ _ rt_demo_inv])
  show "poll_keeps poll_demo" "poll_returns poll_demo"
    by (simp_all add: poll_keeps_def poll_returns_def poll_demo_def)
qed


theorem completions_wake_waiters_witness:
  "\<exists>ctx'. rt_process_cqes False rt_demo = Done (rt_demo\<lparr>rt_runqueue := rt_runqueue rt_demo @
        wake_list (sm_get (io_completions (rt_ctx rt_demo))) (cq_window (io_cq (rt_ctx rt_demo))), rt_ctx := ctx'\<rparr>) \<and>
    io_inv ctx' \<and> io_same (rt_ctx rt_demo) ctx' \<and> cq_window (io_cq ctx') = []"
  by (rule completions_wake_waiters [OF rt_demo_inv(1)])

theorem spawn_dyn_uncounted_witness:
  "\<exists>tid rt'. rt_spawn_dyn () rt_demo = Done (tid, rt') \<and> rt_inv rt' \<and>
    sm_get (rt_futures rt_demo) tid = None \<and> sm_get (rt_futures rt') = (sm_get (rt_futures rt_demo))(tid \<mapsto> ()) \<and>
    rt_runqueue rt' = rt_runqueue rt_demo @ [tid] \<and> rt_untracked rt' = rt_untracked rt_demo + 1"
proof (rule spawn_dyn_uncounted [OF rt_demo_inv(1)])
  show "sm_len (rt_futures rt_demo) < sm_cap" using rt_demo_inv(2) by (simp add: rt_demo_def)
qed

end
