(* ===== verification/Chunks.thy ===== *)
theory Chunks
  imports Prelude
begin

text \<open>
  \<open>hamerkop/src/util/disjoint_chunks.rs\<close>: fixed-size chunks of two slices read as one.
  \<open>slices\<close> is the array vector of the source, its last element the slice read next.
\<close>

record 'a chunks =
  slices :: "'a list list"

definition chunks_new :: "'a list \<Rightarrow> 'a list \<Rightarrow> 'a chunks" where
  "chunks_new a b = \<lparr>slices = [b, a]\<rparr>"

text \<open>The loop of \<open>next\<close>: \<open>tmp\<close> is the uninitialised array being filled; \<open>None\<close> is
  the early return of \<open>last_mut()?\<close>.\<close>

function chunk_loop :: "nat \<Rightarrow> nat \<Rightarrow> 'a cells \<Rightarrow> 'a list list \<Rightarrow> ('a cells option \<times> 'a list list) outcome" where
  "chunk_loop N remaining tmp ss =
     (if remaining > 0
      then (if ss = [] then Done (None, ss)
            else let first = last ss;
                     cnt = min (length first) remaining
                 in and_then (ptr_copy_from (map Some first) 0 tmp (N - remaining) cnt) (\<lambda>tmp'.
                      let first' = drop cnt first;
                          ss' = (if first' = [] then butlast ss else butlast ss @ [first'])
                      in chunk_loop N (remaining - cnt) tmp' ss'))
      else Done (Some tmp, ss))"
  by pat_completeness auto
termination
  by (relation "measure (\<lambda>(N, remaining, tmp, ss). remaining + length ss)")
    (auto simp: min_def length_greater_0_conv [symmetric] simp del: length_greater_0_conv split: if_splits)

declare chunk_loop.simps [simp del]

definition chunks_next :: "nat \<Rightarrow> 'a chunks \<Rightarrow> ('a list option \<times> 'a chunks) outcome" where
  "chunks_next N c =
     and_then (chunk_loop N N (replicate N None) (slices c)) (\<lambda>(r, ss).
       case r of None \<Rightarrow> Done (None, \<lparr>slices = ss\<rparr>)
       | Some tmp \<Rightarrow> and_then (read_cells tmp [0..<N]) (\<lambda>xs. Done (Some xs, \<lparr>slices = ss\<rparr>)))"

text \<open>What is still to be read.\<close>

definition chunks_rest :: "'a list list \<Rightarrow> 'a list" where
  "chunks_rest ss = concat (rev ss)"

lemma chunks_rest_last: "ss \<noteq> [] \<Longrightarrow> chunks_rest ss = last ss @ chunks_rest (butlast ss)"
  by (cases ss rule: rev_cases) (auto simp: chunks_rest_def)

lemma chunks_rest_snoc [simp]: "chunks_rest (ss @ [s]) = s @ chunks_rest ss"
  by (simp add: chunks_rest_def)

lemma chunk_loop_result:
  assumes "length done + remaining = N"
  shows "if remaining \<le> length (chunks_rest ss)
    then \<exists>ss'. chunk_loop N remaining (map Some done @ replicate remaining None) ss
           = Done (Some (map Some (done @ take remaining (chunks_rest ss))), ss') \<and>
         chunks_rest ss' = drop remaining (chunks_rest ss)
    else chunk_loop N remaining (map Some done @ replicate remaining None) ss = Done (None, [])"
  using assms
proof (induction "remaining + length ss" arbitrary: remaining ss "done" rule: less_induct)
  case less
  show ?case
  proof (cases "remaining = 0")
    case True
    then show ?thesis by (subst chunk_loop.simps) simp
  next
    case rem: False
    show ?thesis
    proof (cases "ss = []")
      case True
      with rem show ?thesis by (subst chunk_loop.simps) (simp add: chunks_rest_def)
    next
      case ne: False
      let ?first = "last ss"
      let ?cnt = "min (length ?first) remaining"
      let ?ss = "if drop ?cnt ?first = [] then butlast ss else butlast ss @ [drop ?cnt ?first]"
      let ?done = "done @ take ?cnt ?first"
      let ?rem = "remaining - ?cnt"
      have pos: "N - remaining = length done" using less.prems by simp
      have copy: "ptr_copy_from (map Some ?first) 0 (map Some done @ replicate remaining None) (N - remaining) ?cnt
          = Done (map Some ?done @ replicate ?rem None)"
        unfolding pos ptr_copy_from_def using less.prems by (simp add: take_map)
      have step: "chunk_loop N remaining (map Some done @ replicate remaining None) ss
          = chunk_loop N ?rem (map Some ?done @ replicate ?rem None) ?ss"
        using rem ne copy by (subst chunk_loop.simps) (simp add: Let_def)
      have rest: "chunks_rest ?ss = drop ?cnt (chunks_rest ss)"
        using ne by (simp add: chunks_rest_last [of ss])
      have rest2: "chunks_rest ss = take ?cnt ?first @ chunks_rest ?ss"
        using ne by (simp add: chunks_rest_last [of ss])
      have smaller: "?rem + length ?ss < remaining + length ss"
      proof -
        obtain n where "length ss = Suc n" using ne by (cases ss) auto
        then show ?thesis using rem by (cases "length ?first = 0") (auto simp: min_def)
      qed
      have sum: "length ?done + ?rem = N" using less.prems by simp
      note IH = less.hyps [OF smaller sum]
      have cond: "?rem \<le> length (chunks_rest ?ss) \<longleftrightarrow> remaining \<le> length (chunks_rest ss)"
        unfolding rest2 by simp arith
      have tk: "take remaining (chunks_rest ss) = take ?cnt ?first @ take ?rem (chunks_rest ?ss)"
        unfolding rest2 by simp
      have dr: "drop remaining (chunks_rest ss) = drop ?rem (chunks_rest ?ss)"
        unfolding rest by simp
      show ?thesis
        using IH unfolding step cond tk dr append_assoc by simp
    qed
  qed
qed

lemma chunks_next_result:
  "if N \<le> length (chunks_rest (slices c))
   then \<exists>c'. chunks_next N c = Done (Some (take N (chunks_rest (slices c))), c') \<and>
          chunks_rest (slices c') = drop N (chunks_rest (slices c))
   else \<exists>c'. chunks_next N c = Done (None, c') \<and> chunks_rest (slices c') = []"
proof -
  have "read_cells (map Some (take N (chunks_rest (slices c)))) [0..<N] = Done (take N (chunks_rest (slices c)))"
    if "N \<le> length (chunks_rest (slices c))"
    using that read_cells_range [of 0 N "take N (chunks_rest (slices c))" "[]"] by simp
  then show ?thesis
    using chunk_loop_result [of "[]" N N "slices c"]
    by (auto simp: chunks_next_def chunks_rest_def)
qed

text \<open>Asking the iterator \<open>k\<close> times.\<close>

fun chunks_ask :: "nat \<Rightarrow> nat \<Rightarrow> 'a chunks \<Rightarrow> 'a list option list outcome" where
  "chunks_ask N 0 c = Done []"
| "chunks_ask N (Suc k) c =
     and_then (chunks_next N c) (\<lambda>(r, c'). and_then (chunks_ask N k c') (\<lambda>rs. Done (r # rs)))"

lemma chunks_ask_empty:
  "0 < N \<Longrightarrow> chunks_rest (slices c) = [] \<Longrightarrow> chunks_ask N k c = Done (replicate k None)"
proof (induction k arbitrary: c)
  case 0
  then show ?case by simp
next
  case (Suc k)
  then obtain c' where "chunks_next N c = Done (None, c')" "chunks_rest (slices c') = []"
    using chunks_next_result [of N c] by auto
  with Suc show ?case by simp
qed

lemma chunks_ask_rest:
  assumes "0 < N"
  shows "chunks_ask N k c = Done (map (\<lambda>j. if (j + 1) * N \<le> length (chunks_rest (slices c))
      then Some (take N (drop (j * N) (chunks_rest (slices c)))) else None) [0..<k])"
proof (induction k arbitrary: c)
  case 0
  then show ?case by simp
next
  case (Suc k)
  let ?xs = "chunks_rest (slices c)"
  have upt: "[0..<Suc k] = 0 # map Suc [0..<k]" by (simp add: map_Suc_upt upt_conv_Cons)
  show ?case
  proof (cases "N \<le> length ?xs")
    case True
    then obtain c' where c': "chunks_next N c = Done (Some (take N ?xs), c')"
        "chunks_rest (slices c') = drop N ?xs"
      using chunks_next_result [of N c] by auto
    have "(j + 1) * N \<le> length (drop N ?xs) \<longleftrightarrow> (Suc j + 1) * N \<le> length ?xs" for j
      using True by (simp add: le_diff_conv2 algebra_simps)
    moreover have "take N (drop (j * N) (drop N ?xs)) = take N (drop (Suc j * N) ?xs)" for j
      by (simp add: algebra_simps)
    ultimately show ?thesis unfolding upt
      using True c' Suc.IH [of c'] by (simp add: comp_def)
  next
    case False
    then obtain c' where c': "chunks_next N c = Done (None, c')" "chunks_rest (slices c') = []"
      using chunks_next_result [of N c] by auto
    have "\<not> (Suc j + 1) * N \<le> length ?xs" for j using False by (auto simp: algebra_simps)
    then show ?thesis unfolding upt
      using False c' chunks_ask_empty [OF assms c'(2), of k]
      by (simp add: comp_def map_replicate_const)
  qed
qed

section \<open>Properties\<close>

text \<open>C37: The iterator over two slices yields the successive full chunks of their concatenation,
  including those that straddle the border, and then nothing.\<close>

theorem chunks_split_concatenation:
  assumes "0 < N"
  shows "chunks_ask N k (chunks_new a b) = Done (map (\<lambda>j. if (j + 1) * N \<le> length (a @ b)
      then Some (take N (drop (j * N) (a @ b))) else None) [0..<k])"
  using chunks_ask_rest [OF assms, of k "chunks_new a b"] by (simp add: chunks_new_def chunks_rest_def)

theorem chunks_split_concatenation_witness:
  "chunks_ask 2 4 (chunks_new [1, 2, 3] [4, 5, 6, (7 :: nat)]) = Done [Some [1, 2], Some [3, 4], Some [5, 6], None]"
  using chunks_split_concatenation [of 2 4 "[1, 2, 3]" "[4, 5, 6, (7 :: nat)]"] by (simp add: upt_rec)

end
