(* ===== verification/Join.thy ===== *)
theory Join
  imports Prelude
begin

text \<open>
  \<open>hamerkop/src/util/join.rs\<close>: waits for the next of a vector of futures.  A future is a
  value of type \<open>'f\<close>; \<open>poll\<close> is its \<open>Future::poll\<close>, which also changes the rest of the
  world \<open>'w\<close>.
\<close>

type_synonym ('f, 'w, 'r) poll_fn = "'f \<Rightarrow> 'w \<Rightarrow> 'r poll \<times> 'f \<times> 'w"

record 'f join =
  futures :: "'f list"
  state :: "bool list"

definition join_new :: "'f list \<Rightarrow> 'f join" where
  "join_new fs = \<lparr>futures = fs, state = replicate (length fs) False\<rparr>"

text \<open>The loop over the futures that are not finished; \<open>polled\<close> is the flag of the source.\<close>

fun join_scan :: "('f, 'w, 'r) poll_fn \<Rightarrow> bool \<Rightarrow> 'f list \<Rightarrow> bool list \<Rightarrow> 'w \<Rightarrow>
    'r option poll \<times> 'f list \<times> bool list \<times> 'w" where
  "join_scan poll polled (fut # futs) (st # sts) w =
     (if st then (case join_scan poll polled futs sts w of
                    (r, futs', sts', w') \<Rightarrow> (r, fut # futs', st # sts', w'))
      else (case poll fut w of
              (Ready res, fut', w') \<Rightarrow> (Ready (Some res), fut' # futs, True # sts, w')
            | (Pending, fut', w') \<Rightarrow>
                (case join_scan poll True futs sts w' of
                   (r, futs', sts', w'') \<Rightarrow> (r, fut' # futs', st # sts', w''))))"
| "join_scan poll polled futs sts w = (if polled then Pending else Ready None, futs, sts, w)"

definition join_poll :: "('f, 'w, 'r) poll_fn \<Rightarrow> 'f join \<Rightarrow> 'w \<Rightarrow> 'r option poll \<times> 'f join \<times> 'w" where
  "join_poll poll j w =
     (case join_scan poll False (futures j) (state j) w of
        (r, fs, sts, w') \<Rightarrow> (r, \<lparr>futures = fs, state = sts\<rparr>, w'))"

section \<open>One poll\<close>

definition unfinished :: "bool list \<Rightarrow> nat" where
  "unfinished sts = length (filter Not sts)"

lemma unfinished_simps [simp]:
  "unfinished [] = 0"
  "unfinished (s # sts) = (if s then unfinished sts else Suc (unfinished sts))"
  by (simp_all add: unfinished_def)

lemma unfinished_zero: "unfinished sts = 0 \<longleftrightarrow> (\<forall>s\<in>set sts. s)"
  by (induction sts) auto

lemma join_scan_result:
  assumes "join_scan poll polled fs sts w = (r, fs', sts', w')" and "length sts = length fs"
  shows "length fs' = length fs \<and> length sts' = length sts \<and>
     (\<forall>k<length fs. sts ! k \<longrightarrow> sts' ! k \<and> fs' ! k = fs ! k) \<and>
     (case r of Pending \<Rightarrow> sts' = sts \<and> (polled \<or> unfinished sts \<noteq> 0)
      | Ready None \<Rightarrow> \<not> polled \<and> unfinished sts = 0 \<and> fs' = fs \<and> sts' = sts \<and> w' = w
      | Ready (Some x) \<Rightarrow> \<exists>k<length fs. \<not> sts ! k \<and> sts' = sts[k := True] \<and>
          (\<exists>wk wk' f'. poll (fs ! k) wk = (Ready x, f', wk') \<and> w' = wk' \<and> fs' ! k = f'))"
  using assms
proof (induction poll polled fs sts w arbitrary: r fs' sts' w' rule: join_scan.induct)
  case (1 poll polled f fs s sts w)
  show ?case
  proof (cases s)
    case True
    obtain r1 fs1 sts1 w1 where rec: "join_scan poll polled fs sts w = (r1, fs1, sts1, w1)"
      by (metis prod_cases4)
    with "1.prems"(1) True have eq: "r = r1" "fs' = f # fs1" "sts' = s # sts1" "w' = w1" by auto
    from "1.IH"(1) [OF True rec] "1.prems"(2) show ?thesis unfolding eq
      using True by (auto simp: nth_Cons less_Suc_eq_0_disj split: nat.splits poll.splits option.splits)
  next
    case False
    obtain p f1 w1 where poll: "poll f w = (p, f1, w1)" by (metis prod_cases3)
    show ?thesis
    proof (cases p)
      case (Ready x)
      with "1.prems"(1) False poll have "r = Ready (Some x)" "fs' = f1 # fs" "sts' = True # sts" "w' = w1" by auto
      with poll Ready False "1.prems"(2) show ?thesis
        by (auto simp: nth_Cons split: nat.splits intro!: exI [of _ 0])
    next
      case Pending
      obtain r2 fs2 sts2 w2 where rec: "join_scan poll True fs sts w1 = (r2, fs2, sts2, w2)"
        by (metis prod_cases4)
      with "1.prems"(1) False poll Pending have eq: "r = r2" "fs' = f1 # fs2" "sts' = s # sts2" "w' = w2" by auto
      have "length sts = length fs" using "1.prems"(2) by simp
      from "1.IH"(2) [OF False poll [symmetric] Pending refl rec this] show ?thesis unfolding eq
        using False by (auto simp: nth_Cons less_Suc_eq_0_disj split: nat.splits poll.splits option.splits)
    qed
  qed
qed auto

text \<open>When polling keeps \<open>I\<close> and does not change the futures, and \<open>rdy\<close> says which of them are
  ready, a scan stops at the first unfinished one that is.\<close>

lemma join_scan_first:
  assumes "join_scan poll polled fs sts w = (r, fs', sts', w')" and "length sts = length fs" and "I w"
    and "\<And>i w r f' w'. i < length fs \<Longrightarrow> \<not> sts ! i \<Longrightarrow> I w \<Longrightarrow> poll (fs ! i) w = (r, f', w') \<Longrightarrow>
      f' = fs ! i \<and> (if rdy i then r \<noteq> Pending else r = Pending \<and> I w')"
  shows "fs' = fs \<and>
    ((\<exists>k<length fs. \<not> sts ! k \<and> rdy k \<and> (\<forall>i<k. \<not> sts ! i \<longrightarrow> \<not> rdy i) \<and> sts' = sts[k := True] \<and>
       (\<exists>wk x. I wk \<and> poll (fs ! k) wk = (Ready x, fs ! k, w') \<and> r = Ready (Some x))) \<or>
     ((\<forall>i<length fs. \<not> sts ! i \<longrightarrow> \<not> rdy i) \<and> I w' \<and> sts' = sts \<and>
       r = (if polled \<or> (\<exists>i<length fs. \<not> sts ! i) then Pending else Ready None)))"
  using assms
proof (induction poll polled fs sts w arbitrary: r fs' sts' w' rdy rule: join_scan.induct)
  case (1 poll polled f fs s sts w)
  have tl: "\<And>i w r f' w'. i < length fs \<Longrightarrow> \<not> sts ! i \<Longrightarrow> I w \<Longrightarrow> poll (fs ! i) w = (r, f', w') \<Longrightarrow>
      f' = fs ! i \<and> (if rdy (Suc i) then r \<noteq> Pending else r = Pending \<and> I w')"
    using "1.prems"(4) [of "Suc _"] by simp
  have shift: "(\<forall>i<Suc k. P i) \<longleftrightarrow> P 0 \<and> (\<forall>i<k. P (Suc i))" "(\<exists>i<Suc k. P i) \<longleftrightarrow> P 0 \<or> (\<exists>i<k. P (Suc i))"
    for P :: "nat \<Rightarrow> bool" and k
    by (auto simp: less_Suc_eq_0_disj)
  show ?case
  proof (cases s)
    case True
    obtain r1 fs1 sts1 w1 where rec: "join_scan poll polled fs sts w = (r1, fs1, sts1, w1)"
      by (metis prod_cases4)
    with "1.prems"(1) True have eq: "r = r1" "fs' = f # fs1" "sts' = s # sts1" "w' = w1" by auto
    from "1.IH"(1) [OF True rec _ "1.prems"(3) tl] "1.prems"(2) show ?thesis unfolding eq
      using True by (auto simp: shift intro: exI [of _ "Suc _"])
  next
    case False
    obtain p f1 w1 where poll: "poll f w = (p, f1, w1)" by (metis prod_cases3)
    have hd: "f1 = f" "if rdy 0 then p \<noteq> Pending else p = Pending \<and> I w1"
      using "1.prems"(4) [of 0 w p f1 w1] "1.prems"(3) poll False by auto
    show ?thesis
    proof (cases p)
      case (Ready x)
      with "1.prems"(1) False poll have eq: "r = Ready (Some x)" "fs' = f1 # fs" "sts' = True # sts" "w' = w1"
        by auto
      have "rdy 0" using hd(2) Ready by (auto split: if_splits)
      with eq False Ready poll hd(1) "1.prems"(3) show ?thesis by (auto intro!: exI [of _ 0])
    next
      case Pending
      then have w1: "\<not> rdy 0" "I w1" using hd(2) by (auto split: if_splits)
      obtain r2 fs2 sts2 w2 where rec: "join_scan poll True fs sts w1 = (r2, fs2, sts2, w2)"
        by (metis prod_cases4)
      with "1.prems"(1) False poll Pending hd(1)
      have eq: "r = r2" "fs' = f # fs2" "sts' = s # sts2" "w' = w2" by auto
      from "1.IH"(2) [OF False poll [symmetric] Pending refl rec _ w1(2) tl] "1.prems"(2)
      show ?thesis unfolding eq using False w1(1)
        by (auto simp: shift intro: exI [of _ "Suc _"])
    qed
  qed
qed auto

section \<open>Polling until nothing is left\<close>

text \<open>The results that \<open>n\<close> polls of \<open>next\<close> deliver.\<close>

fun join_drive :: "('f, 'w, 'r) poll_fn \<Rightarrow> nat \<Rightarrow> 'f join \<Rightarrow> 'w \<Rightarrow> 'r option poll list \<times> 'f join \<times> 'w" where
  "join_drive poll 0 j w = ([], j, w)"
| "join_drive poll (Suc n) j w =
     (case join_poll poll j w of (r, j', w') \<Rightarrow>
      case join_drive poll n j' w' of (rs, j'', w'') \<Rightarrow> (r # rs, j'', w''))"

fun is_result :: "'r option poll \<Rightarrow> bool" where
  "is_result (Ready (Some _)) = True"
| "is_result _ = False"

lemma join_poll_count:
  assumes "join_poll poll j w = (r, j', w')" and "length (state j) = length (futures j)"
  shows "length (state j') = length (futures j')" and "length (futures j') = length (futures j)"
    and "unfinished (state j') + (if is_result r then 1 else 0) = unfinished (state j)"
    and "r = Ready None \<longleftrightarrow> unfinished (state j) = 0"
proof -
  obtain fs sts where rec: "join_scan poll False (futures j) (state j) w = (r, fs, sts, w')"
      and j': "j' = \<lparr>futures = fs, state = sts\<rparr>"
    using assms(1) by (auto simp: join_poll_def split: prod.splits)
  note res = join_scan_result [OF rec assms(2)]
  have upd: "unfinished (xs[k := True]) + 1 = unfinished xs" if "k < length xs" "\<not> xs ! k" for xs k
    using that by (induction xs arbitrary: k) (auto simp: nth_Cons split: nat.splits)
  show "length (state j') = length (futures j')" "length (futures j') = length (futures j)"
    using res assms(2) j' by auto
  show "unfinished (state j') + (if is_result r then 1 else 0) = unfinished (state j)"
    using res j' upd assms(2) by (auto split: poll.splits option.splits)
  have "unfinished (state j) \<noteq> 0" if "k < length (state j)" "\<not> state j ! k" for k
    using upd [OF that] by simp
  then show "r = Ready None \<longleftrightarrow> unfinished (state j) = 0"
    using res assms(2) by (cases r) (auto split: option.splits)
qed

lemma join_drive_count:
  "join_drive poll n j w = (rs, j', w') \<Longrightarrow> length (state j) = length (futures j) \<Longrightarrow>
   length (filter is_result rs) + unfinished (state j') = unfinished (state j) \<and>
   (Ready None \<in> set rs \<longrightarrow> unfinished (state j') = 0)"
proof (induction n arbitrary: j w rs)
  case 0
  then show ?case by simp
next
  case (Suc n)
  obtain r j1 w1 where p: "join_poll poll j w = (r, j1, w1)" by (metis prod_cases3)
  obtain rs1 where d: "join_drive poll n j1 w1 = (rs1, j', w')" and rs: "rs = r # rs1"
    using Suc.prems(1) p by (auto split: prod.splits)
  note one = join_poll_count [OF p Suc.prems(2)]
  from Suc.IH [OF d one(1)] show ?case using one(3,4) rs by auto
qed

section \<open>Properties\<close>



end
