(* ===== verification/Registrar.thy ===== *)
theory Registrar
  imports Uring_Raw
begin

text \<open>
  \<open>uring/src/registrar.rs\<close>: the calls of \<open>io_uring_register\<close>, the probe of the supported
  operations and the table of operation names; and the conversions of results at the end of
  \<open>uring/src/sqe_types.rs\<close>.  The system call is a parameter: it takes the descriptor of the
  ring, the opcode, what the argument points to and the number of elements, and gives its return
  value, the error number, what it wrote to a probe buffer (if it was handed one and wrote it) and
  the new state of the kernel.
\<close>

section \<open>Calls\<close>

record probe_op =
  po_op :: u8
  po_flags :: u16

record probe =
  pb_last_op :: u8
  pb_ops_len :: u8
  pb_ops :: "probe_op cells"

datatype register_arg =
    NullArg
  | Buffers "(u64 \<times> nat) list"
  | Files "32 word list"
  | FilesUpdate u32 "32 word list"
  | EventFd "32 word"
  | ProbeBuffer

type_synonym 'k register =
  "u32 \<Rightarrow> u32 \<Rightarrow> register_arg \<Rightarrow> u32 \<Rightarrow> 'k \<Rightarrow> int \<times> int \<times> probe option \<times> 'k"

text \<open>The pattern shared by the calls that return nothing.\<close>

definition reg_unit :: "'k register \<Rightarrow> u32 \<Rightarrow> u32 \<Rightarrow> register_arg \<Rightarrow> u32 \<Rightarrow> 'k \<Rightarrow> (io_error + unit) \<times> 'k" where
  "reg_unit reg fd opcode arg nr k =
     (case reg fd opcode arg nr k of (ret, errno, _, k) \<Rightarrow> (map_sum id (\<lambda>_. ()) (sysresult ret errno), k))"

definition register_slice :: "'k register \<Rightarrow> u32 \<Rightarrow> u32 \<Rightarrow> register_arg \<Rightarrow> nat \<Rightarrow> 'k \<Rightarrow> (io_error + unit) \<times> 'k" where
  "register_slice reg fd opcode arg len k = reg_unit reg fd opcode arg (of_nat len) k"

definition unregister :: "'k register \<Rightarrow> u32 \<Rightarrow> u32 \<Rightarrow> 'k \<Rightarrow> (io_error + unit) \<times> 'k" where
  "unregister reg fd opcode k = reg_unit reg fd opcode NullArg 0 k"

definition register_buffers :: "'k register \<Rightarrow> u32 \<Rightarrow> (u64 \<times> nat) list \<Rightarrow> 'k \<Rightarrow> (io_error + unit) \<times> 'k" where
  "register_buffers reg fd buffers k =
     register_slice reg fd IORING_REGISTER_BUFFERS (Buffers buffers) (length buffers) k"

definition unregister_buffers :: "'k register \<Rightarrow> u32 \<Rightarrow> 'k \<Rightarrow> (io_error + unit) \<times> 'k" where
  "unregister_buffers reg fd k = unregister reg fd IORING_UNREGISTER_BUFFERS k"

definition register_files :: "'k register \<Rightarrow> u32 \<Rightarrow> 32 word list \<Rightarrow> 'k \<Rightarrow> (io_error + unit) \<times> 'k" where
  "register_files reg fd files k =
     register_slice reg fd IORING_REGISTER_FILES (Files files) (length files) k"

definition unregister_files :: "'k register \<Rightarrow> u32 \<Rightarrow> 'k \<Rightarrow> (io_error + unit) \<times> 'k" where
  "unregister_files reg fd k = unregister reg fd IORING_UNREGISTER_FILES k"

record file_update =
  fu_offset :: u32
  fu_fds :: "32 word list"

definition file_update_new :: "u32 \<Rightarrow> 32 word list \<Rightarrow> file_update" where
  "file_update_new offset fds = \<lparr>fu_offset = offset, fu_fds = fds\<rparr>"

definition update_files :: "'k register \<Rightarrow> u32 \<Rightarrow> file_update \<Rightarrow> 'k \<Rightarrow> ((io_error + unit) \<times> 'k) outcome" where
  "update_files reg fd upd k =
     assert_then (length (fu_fds upd) \<le> 2 ^ 32 - 1)
       (Done (reg_unit reg fd IORING_REGISTER_FILES_UPDATE (FilesUpdate (fu_offset upd) (fu_fds upd))
          (of_nat (length (fu_fds upd))) k))"

definition register_eventfd :: "'k register \<Rightarrow> u32 \<Rightarrow> 32 word \<Rightarrow> 'k \<Rightarrow> (io_error + unit) \<times> 'k" where
  "register_eventfd reg fd efd k = reg_unit reg fd IORING_REGISTER_EVENTFD (EventFd efd) 1 k"

definition register_eventfd_async :: "'k register \<Rightarrow> u32 \<Rightarrow> 32 word \<Rightarrow> 'k \<Rightarrow> (io_error + unit) \<times> 'k" where
  "register_eventfd_async reg fd efd k = reg_unit reg fd IORING_REGISTER_EVENTFD_ASYNC (EventFd efd) 1 k"

definition unregister_eventfd :: "'k register \<Rightarrow> u32 \<Rightarrow> 'k \<Rightarrow> (io_error + unit) \<times> 'k" where
  "unregister_eventfd reg fd k = unregister reg fd IORING_UNREGISTER_EVENTFD k"

text \<open>The number of operations this version knows, and the probe, whose buffer starts out
  uninitialised.\<close>

definition NUM_OPS :: nat where "NUM_OPS = unat (op_code IORING_OP_LAST)"

definition reg_probe :: "'k register \<Rightarrow> u32 \<Rightarrow> 'k \<Rightarrow> ((io_error + probe) \<times> 'k) outcome" where
  "reg_probe reg fd k =
     (case reg fd IORING_REGISTER_PROBE ProbeBuffer (of_nat NUM_OPS) k of (ret, errno, buf, k) \<Rightarrow>
      case sysresult ret errno of
        Inl e \<Rightarrow> Done (Inl e, k)
      | Inr _ \<Rightarrow> (case buf of None \<Rightarrow> Undef | Some p \<Rightarrow> Done (Inr p, k)))"

definition register_personality :: "'k register \<Rightarrow> u32 \<Rightarrow> 'k \<Rightarrow> (io_error + u32) \<times> 'k" where
  "register_personality reg fd k =
     (case reg fd IORING_REGISTER_PERSONALITY NullArg 0 k of (ret, errno, _, k) \<Rightarrow>
        (map_sum id word_of_int (sysresult ret errno), k))"

definition unregister_personality :: "'k register \<Rightarrow> u32 \<Rightarrow> u32 \<Rightarrow> 'k \<Rightarrow> (io_error + unit) \<times> 'k" where
  "unregister_personality reg fd personality k =
     reg_unit reg fd IORING_UNREGISTER_PERSONALITY NullArg personality k"

section \<open>Probes\<close>

definition probe_last_op :: "probe \<Rightarrow> u8" where
  "probe_last_op p = pb_last_op p"

text \<open>The slice over the entries the kernel says it filled.\<close>

definition probe_ops :: "probe \<Rightarrow> probe_op list outcome" where
  "probe_ops p = read_cells (pb_ops p) [0..<unat (pb_ops_len p)]"

definition probe_op_op :: "probe_op \<Rightarrow> u8" where "probe_op_op o' = po_op o'"
definition probe_op_flags :: "probe_op \<Rightarrow> u16" where "probe_op_flags o' = po_flags o'"

section \<open>Names\<close>

text \<open>\<open>static_max!\<close>: the maximum without a branch.\<close>

fun static_max :: "u64 list \<Rightarrow> u64" where
  "static_max [] = 0"
| "static_max [x] = x"
| "static_max (first # rest') =
     (let rest = static_max rest'; bit = (if first < rest then 1 else 0); m = bit - 1
      in (first AND m) OR (rest AND NOT m))"

text \<open>\<open>filled_array!\<close>: an array with one place for each key.\<close>

definition filled_array :: "(u64 \<times> 'a) list \<Rightarrow> 'a \<Rightarrow> 'a list" where
  "filled_array entries def =
     fold (\<lambda>(k, v) arr. arr[unat k := v]) entries (replicate (unat (static_max (map fst entries)) + 1) def)"

definition idents :: "(IoRingOp \<times> string) list" where
  "idents =
     [(IORING_OP_NOP, ''nop''),
      (IORING_OP_READV, ''readv''),
      (IORING_OP_WRITEV, ''writev''),
      (IORING_OP_FSYNC, ''fsync''),
      (IORING_OP_READ_FIXED, ''read_fixed''),
      (IORING_OP_WRITE_FIXED, ''write_fixed''),
      (IORING_OP_POLL_ADD, ''poll_add''),
      (IORING_OP_POLL_REMOVE, ''poll_remove''),
      (IORING_OP_SYNC_FILE_RANGE, ''sync_file_range''),
      (IORING_OP_SENDMSG, ''sendmsg''),
      (IORING_OP_RECVMSG, ''recvmsg''),
      (IORING_OP_TIMEOUT, ''timeout''),
      (IORING_OP_TIMEOUT_REMOVE, ''timeout_remove''),
      (IORING_OP_ACCEPT, ''accept''),
      (IORING_OP_ASYNC_CANCEL, ''async_cancel''),
      (IORING_OP_LINK_TIMEOUT, ''link_timeout''),
      (IORING_OP_CONNECT, ''connect''),
      (IORING_OP_FALLOCATE, ''fallocate''),
      (IORING_OP_OPENAT, ''openat''),
      (IORING_OP_CLOSE, ''close''),
      (IORING_OP_FILES_UPDATE, ''files_update''),
      (IORING_OP_STATX, ''statx''),
      (IORING_OP_READ, ''read''),
      (IORING_OP_WRITE, ''write''),
      (IORING_OP_FADVISE, ''fadvise''),
      (IORING_OP_MADVISE, ''madvise''),
      (IORING_OP_SEND, ''send''),
      (IORING_OP_RECV, ''recv''),
      (IORING_OP_OPENAT2, ''openat2''),
      (IORING_OP_EPOLL_CTL, ''epoll_ctl''),
      (IORING_OP_SPLICE, ''splice''),
      (IORING_OP_PROVIDE_BUFFERS, ''provide_buffers''),
      (IORING_OP_REMOVE_BUFFERS, ''remove_buffers''),
      (IORING_OP_TEE, ''tee'')]"

definition IDENTS :: "string list" where
  "IDENTS = filled_array (map (\<lambda>(c, s). (ucast (op_code c), s)) idents) ''unknown''"

definition op_ident :: "u8 \<Rightarrow> string" where
  "op_ident n = (if unat n < length IDENTS then IDENTS ! unat n else ''unknown'')"

text \<open>The formatter prints the name and the number in decimal.\<close>

fun decimal :: "nat \<Rightarrow> string" where
  "decimal n = (if n < 10 then [char_of (48 + n)] else decimal (n div 10) @ [char_of (48 + n mod 10)])"

definition op_format :: "u8 \<Rightarrow> string" where
  "op_format n = op_ident n @ '' ('' @ decimal (unat n) @ '')''"

section \<open>Results\<close>

text \<open>\<open>Resultify::from_result\<close> for the unit type, \<open>usize\<close> and file descriptors: the error is
  the error number of the thread, not the one in the result.\<close>

definition from_result_unit :: "int \<Rightarrow> int \<Rightarrow> io_error + unit" where
  "from_result_unit res errno = map_sum id (\<lambda>_. ()) (sysresult res errno)"

definition from_result_usize :: "int \<Rightarrow> int \<Rightarrow> io_error + nat" where
  "from_result_usize res errno = map_sum id nat (sysresult res errno)"

definition from_result_fd :: "int \<Rightarrow> int \<Rightarrow> io_error + int" where
  "from_result_fd res errno = sysresult res errno"

section \<open>Lemmas\<close>

lemma static_max_Max: "xs \<noteq> [] \<Longrightarrow> static_max xs = Max (set xs)"
proof (induction xs rule: static_max.induct)
  case (3 first second rest)
  let ?r = "static_max (second # rest)"
  have "Max (set (first # second # rest)) = max first ?r" using 3 by simp
  moreover have "static_max (first # second # rest) = max first ?r"
    by (cases "first < ?r") (auto simp: Let_def max_def not_less)
  ultimately show ?case by simp
qed simp_all

lemma IDENTS_eq:
  "IDENTS =
     [''nop'', ''readv'', ''writev'', ''fsync'', ''read_fixed'', ''write_fixed'', ''poll_add'',
      ''poll_remove'', ''sync_file_range'', ''sendmsg'', ''recvmsg'', ''timeout'',
      ''timeout_remove'', ''accept'', ''async_cancel'', ''link_timeout'', ''connect'',
      ''fallocate'', ''openat'', ''close'', ''files_update'', ''statx'', ''read'', ''write'',
      ''fadvise'', ''madvise'', ''send'', ''recv'', ''openat2'', ''epoll_ctl'', ''splice'',
      ''provide_buffers'', ''remove_buffers'', ''tee'']"
  by code_simp

lemma IDENTS_length: "length IDENTS = NUM_OPS"
  by (simp add: IDENTS_eq NUM_OPS_def)

lemma IDENTS_distinct: "distinct (''unknown'' # IDENTS)"
  by (simp add: IDENTS_eq)

lemma IDENTS_known: "list_all (\<lambda>(c, s). op_ident (op_code c) = s) idents"
  by (simp add: idents_def op_ident_def IDENTS_eq)

lemma reg_unit_result:
  "reg_unit reg fd opcode arg nr k = (r, k') \<Longrightarrow>
     \<exists>ret errno buf. reg fd opcode arg nr k = (ret, errno, buf, k') \<and> (r = Inr () \<longleftrightarrow> 0 \<le> ret) \<and>
       (ret < 0 \<longrightarrow> r = Inl (OsError errno))"
  by (auto simp: reg_unit_def sysresult_def split: prod.splits if_splits)

lemma probe_ops_filled:
  assumes "pb_ops p = map Some xs @ ys" and "unat (pb_ops_len p) \<le> length xs"
  shows "probe_ops p = Done (take (unat (pb_ops_len p)) xs)"
  using read_cells_range [of 0 "unat (pb_ops_len p)" xs ys] assms by (simp add: probe_ops_def)

lemma op_ident_unknown: "op_ident n = ''unknown'' \<longleftrightarrow> NUM_OPS \<le> unat n"
  using IDENTS_distinct by (auto simp: op_ident_def IDENTS_length [symmetric] dest: nth_mem)

theorem op_names_identify:
  "length IDENTS = NUM_OPS \<and> (op_ident n = ''unknown'' \<longleftrightarrow> NUM_OPS \<le> unat n) \<and>
    (op_ident n = op_ident m \<longleftrightarrow> n = m \<or> NUM_OPS \<le> unat n \<and> NUM_OPS \<le> unat m) \<and>
    map (\<lambda>(c, s). op_ident (op_code c)) idents = map snd idents"
proof -
  have "op_ident n = op_ident m \<longleftrightarrow> n = m \<or> NUM_OPS \<le> unat n \<and> NUM_OPS \<le> unat m"
  proof (cases "NUM_OPS \<le> unat n \<or> NUM_OPS \<le> unat m")
    case True
    then show ?thesis by (metis op_ident_unknown)
  next
    case False
    then have "op_ident n = op_ident m \<longleftrightarrow> unat n = unat m"
      using IDENTS_distinct by (simp add: op_ident_def IDENTS_length nth_eq_iff_index_eq)
    with False show ?thesis by (simp add: word_unat_eq_iff)
  qed
  moreover have "map (\<lambda>(c, s). op_ident (op_code c)) idents = map snd idents"
    using IDENTS_known by (auto simp: list_all_iff)
  ultimately show ?thesis using IDENTS_length op_ident_unknown by simp
qed

end
