(* ===== verification/Uring_Setup.thy ===== *)
theory Uring_Setup
  imports Sub_Queue "HOL-Library.Multiset"
begin

text \<open>
  Making and dropping a ring: \<open>IoUring::with_params\<close> and \<open>Drop\<close> of \<open>uring/src/lib.rs\<close>,
  \<open>mmap_queues\<close> and \<open>unmap_queues\<close> of \<open>uring/src/detail.rs\<close>, and the parameter structures of
  \<open>uring/src/raw.rs\<close>.  Pointers are 64-bit words.  The operating system is a record of the
  system calls and of the accesses to the memory it shares with the program, over a state of its
  own; \<open>os_laws\<close> states what the manual pages promise of them, for two observations of that
  state: the mapped regions and the open descriptors.
\<close>

section \<open>Parameters\<close>

record io_sqring_offsets =
  so_head :: u32
  so_tail :: u32
  so_ring_mask :: u32
  so_ring_entries :: u32
  so_flags :: u32
  so_dropped :: u32
  so_array :: u32

record io_cqring_offsets =
  co_head :: u32
  co_tail :: u32
  co_ring_mask :: u32
  co_ring_entries :: u32
  co_overflow :: u32
  co_cqes :: u32
  co_flags :: u32

record io_uring_params =
  pr_sq_entries :: u32
  pr_cq_entries :: u32
  pr_flags :: u32
  pr_sq_thread_cpu :: u32
  pr_sq_thread_idle :: u32
  pr_features :: u32
  pr_sq_off :: io_sqring_offsets
  pr_cq_off :: io_cqring_offsets

record uring_params =
  up_flags :: u32
  up_cq_entries :: u32
  up_sq_thread_cpu :: u32
  up_sq_thread_idle :: u32

definition params_of :: "uring_params \<Rightarrow> io_uring_params" where
  "params_of p =
     \<lparr>pr_sq_entries = 0, pr_cq_entries = up_cq_entries p, pr_flags = up_flags p,
      pr_sq_thread_cpu = up_sq_thread_cpu p, pr_sq_thread_idle = up_sq_thread_idle p, pr_features = 0,
      pr_sq_off = \<lparr>so_head = 0, so_tail = 0, so_ring_mask = 0, so_ring_entries = 0, so_flags = 0,
        so_dropped = 0, so_array = 0\<rparr>,
      pr_cq_off = \<lparr>co_head = 0, co_tail = 0, co_ring_mask = 0, co_ring_entries = 0, co_overflow = 0,
        co_cqes = 0, co_flags = 0\<rparr>\<rparr>"

section \<open>The operating system\<close>

text \<open>System calls return their value and the error number.\<close>

record 's os =
  os_setup :: "u32 \<Rightarrow> io_uring_params \<Rightarrow> 's \<Rightarrow> int \<times> int \<times> io_uring_params \<times> 's"
  os_mmap :: "nat \<Rightarrow> int \<Rightarrow> nat \<Rightarrow> 's \<Rightarrow> u64 \<times> int \<times> 's"
  os_munmap :: "u64 \<Rightarrow> nat \<Rightarrow> 's \<Rightarrow> 's"
  os_close :: "int \<Rightarrow> 's \<Rightarrow> 's"
  os_load :: "u64 \<Rightarrow> 's \<Rightarrow> u32"
  os_store :: "u64 \<Rightarrow> u32 \<Rightarrow> 's \<Rightarrow> 's"

section \<open>Mapping the queues\<close>

record sq_map =
  sp_khead :: u64
  sp_ktail :: u64
  sp_kring_mask :: u64
  sp_kring_entries :: u64
  sp_kflags :: u64
  sp_kdropped :: u64
  sp_array :: u64
  sp_sqes :: u64
  sp_sqe_head :: u32
  sp_sqe_tail :: u32
  sp_ring_sz :: nat
  sp_ring_ptr :: u64

record cq_map =
  cp_khead :: u64
  cp_ktail :: u64
  cp_kring_mask :: u64
  cp_kring_entries :: u64
  cp_kflags :: u64
  cp_koverflow :: u64
  cp_cqes :: u64
  cp_ring_sz :: nat
  cp_ring_ptr :: u64

definition MAP_FAILED :: u64 where "MAP_FAILED = NOT 0"

definition raw_offset :: "u64 \<Rightarrow> u32 \<Rightarrow> u64" where
  "raw_offset ptr off = ptr + ucast off"

definition sq_ring_size :: "io_uring_params \<Rightarrow> nat" where
  "sq_ring_size p = unat (so_array (pr_sq_off p)) + unat (pr_sq_entries p) * 4"

definition cq_ring_size :: "io_uring_params \<Rightarrow> nat" where
  "cq_ring_size p = unat (co_cqes (pr_cq_off p)) + unat (pr_cq_entries p) * 16"

definition sq_map_at :: "u64 \<Rightarrow> nat \<Rightarrow> u64 \<Rightarrow> io_uring_params \<Rightarrow> sq_map" where
  "sq_map_at ptr sz sqes p =
     \<lparr>sp_khead = raw_offset ptr (so_head (pr_sq_off p)), sp_ktail = raw_offset ptr (so_tail (pr_sq_off p)),
      sp_kring_mask = raw_offset ptr (so_ring_mask (pr_sq_off p)),
      sp_kring_entries = raw_offset ptr (so_ring_entries (pr_sq_off p)),
      sp_kflags = raw_offset ptr (so_flags (pr_sq_off p)),
      sp_kdropped = raw_offset ptr (so_dropped (pr_sq_off p)),
      sp_array = raw_offset ptr (so_array (pr_sq_off p)), sp_sqes = sqes, sp_sqe_head = 0, sp_sqe_tail = 0,
      sp_ring_sz = sz, sp_ring_ptr = ptr\<rparr>"

definition cq_map_at :: "u64 \<Rightarrow> nat \<Rightarrow> io_uring_params \<Rightarrow> cq_map" where
  "cq_map_at ptr sz p =
     \<lparr>cp_khead = raw_offset ptr (co_head (pr_cq_off p)), cp_ktail = raw_offset ptr (co_tail (pr_cq_off p)),
      cp_kring_mask = raw_offset ptr (co_ring_mask (pr_cq_off p)),
      cp_kring_entries = raw_offset ptr (co_ring_entries (pr_cq_off p)),
      cp_kflags = (if co_flags (pr_cq_off p) = 0 then 0 else raw_offset ptr (co_flags (pr_cq_off p))),
      cp_koverflow = raw_offset ptr (co_overflow (pr_cq_off p)),
      cp_cqes = raw_offset ptr (co_cqes (pr_cq_off p)), cp_ring_sz = sz, cp_ring_ptr = ptr\<rparr>"

definition single_mmap :: "io_uring_params \<Rightarrow> bool" where
  "single_mmap p \<longleftrightarrow> contains (pr_features p AND Features_all) Features_SINGLE_MMAP"

definition mmap_queues ::
  "'s os \<Rightarrow> int \<Rightarrow> io_uring_params \<Rightarrow> 's \<Rightarrow> (io_error + sq_map \<times> cq_map) \<times> 's" where
  "mmap_queues os fd p s =
     (let sq_ring_sz = (if single_mmap p then max (sq_ring_size p) (cq_ring_size p) else sq_ring_size p);
          cq_ring_sz = (if single_mmap p then max sq_ring_sz (cq_ring_size p) else cq_ring_size p)
      in case os_mmap os sq_ring_sz fd IORING_OFF_SQ_RING s of (sq_ring_ptr, errno, s) \<Rightarrow>
        if sq_ring_ptr = MAP_FAILED then (Inl (OsError errno), s)
        else case (if single_mmap p then (sq_ring_ptr, errno, s)
                   else os_mmap os cq_ring_sz fd IORING_OFF_CQ_RING s) of (cq_ring_ptr, errno, s) \<Rightarrow>
        if \<not> single_mmap p \<and> cq_ring_ptr = MAP_FAILED
        then (Inl (OsError errno), os_munmap os sq_ring_ptr sq_ring_sz s)
        else case os_mmap os (unat (pr_sq_entries p) * 64) fd IORING_OFF_SQES s of (sqes, errno, s) \<Rightarrow>
        if sqes = MAP_FAILED
        then (Inl (OsError errno),
              os_munmap os cq_ring_ptr cq_ring_sz (os_munmap os sq_ring_ptr sq_ring_sz s))
        else (Inr (sq_map_at sq_ring_ptr sq_ring_sz sqes p, cq_map_at cq_ring_ptr cq_ring_sz p), s))"

definition unmap_queues :: "'s os \<Rightarrow> sq_map \<Rightarrow> cq_map \<Rightarrow> 's \<Rightarrow> 's" where
  "unmap_queues os sq cq s =
     (let s = os_munmap os (sp_ring_ptr sq) (sp_ring_sz sq) s
      in if cp_ring_ptr cq \<noteq> 0 \<and> cp_ring_ptr cq \<noteq> sp_ring_ptr sq
         then os_munmap os (cp_ring_ptr cq) (cp_ring_sz cq) s else s)"

section \<open>Rings\<close>

record io_ring =
  ir_cq :: cq_map
  ir_sq :: sq_map
  ir_flags :: u32
  ir_fd :: int

text \<open>The loop that writes the indirection array, from index \<open>i\<close> on.\<close>

fun fill_array :: "'s os \<Rightarrow> u64 \<Rightarrow> nat list \<Rightarrow> 's \<Rightarrow> 's" where
  "fill_array os array [] s = s"
| "fill_array os array (i # is) s =
     fill_array os array is (os_store os (array + 4 * of_nat i) (of_nat i) s)"

definition with_params ::
  "bool \<Rightarrow> 's os \<Rightarrow> u32 \<Rightarrow> uring_params \<Rightarrow> 's \<Rightarrow> ((io_error + io_ring) \<times> 's) outcome" where
  "with_params dbg os entries params s =
     (case os_setup os entries (params_of params) s of (ret, errno, p, s) \<Rightarrow>
      case sysresult ret errno of
        Inl e \<Rightarrow> Done (Inl e, s)
      | Inr fd \<Rightarrow>
          (case mmap_queues os fd p s of
             (Inl e, s) \<Rightarrow> Done (Inl e, os_close os fd s)
           | (Inr (sq, cq), s) \<Rightarrow>
               and_then (u32_add dbg (os_load os (sp_kring_mask sq) s) 1) (\<lambda>n.
                 Done (Inr \<lparr>ir_cq = cq, ir_sq = sq, ir_flags = up_flags params, ir_fd = fd\<rparr>,
                       fill_array os (sp_array sq) [0..<unat n] s))))"

definition with_flags :: "bool \<Rightarrow> 's os \<Rightarrow> u32 \<Rightarrow> u32 \<Rightarrow> 's \<Rightarrow> ((io_error + io_ring) \<times> 's) outcome" where
  "with_flags dbg os entries flags s =
     with_params dbg os entries
       \<lparr>up_flags = flags, up_cq_entries = 0, up_sq_thread_cpu = 0, up_sq_thread_idle = 0\<rparr> s"

definition uring_new :: "bool \<Rightarrow> 's os \<Rightarrow> u32 \<Rightarrow> 's \<Rightarrow> ((io_error + io_ring) \<times> 's) outcome" where
  "uring_new dbg os entries s = with_flags dbg os entries 0 s"

definition drop_ring :: "'s os \<Rightarrow> io_ring \<Rightarrow> 's \<Rightarrow> 's" where
  "drop_ring os r s = os_close os (ir_fd r) (unmap_queues os (ir_sq r) (ir_cq r) s)"

text \<open>The submission queue that the mapped memory holds; the entries stay apart.\<close>

definition sq_ring_at :: "'s os \<Rightarrow> sq_map \<Rightarrow> sqe list \<Rightarrow> 's \<Rightarrow> sq_ring" where
  "sq_ring_at os q sqes s =
     \<lparr>sq_khead = os_load os (sp_khead q) s, sq_ktail = os_load os (sp_ktail q) s,
      sq_kmask = os_load os (sp_kring_mask q) s, sq_kentries = os_load os (sp_kring_entries q) s,
      sq_kflags = os_load os (sp_kflags q) s,
      sq_array = map (\<lambda>i. os_load os (sp_array q + 4 * of_nat i) s) [0..<unat (os_load os (sp_kring_mask q) s) + 1],
      sq_sqes = sqes, sq_sqe_head = sp_sqe_head q, sq_sqe_tail = sp_sqe_tail q\<rparr>"

section \<open>What the system promises\<close>

text \<open>Two words that do not overlap.\<close>

definition apart :: "u64 \<Rightarrow> u64 \<Rightarrow> bool" where
  "apart a b \<longleftrightarrow> 4 \<le> unat (a - b) \<and> 4 \<le> unat (b - a)"

definition setup_law :: "('s \<Rightarrow> (u64 \<times> nat) multiset) \<Rightarrow> ('s \<Rightarrow> int set) \<Rightarrow> 's os \<Rightarrow> bool" where
  "setup_law maps fds os \<longleftrightarrow>
     (\<forall>n p s ret errno p' s'. os_setup os n p s = (ret, errno, p', s') \<longrightarrow> maps s' = maps s \<and>
        (if ret < 0 then fds s' = fds s else ret \<notin> fds s \<and> fds s' = insert ret (fds s)))"

definition mmap_law :: "('s \<Rightarrow> (u64 \<times> nat) multiset) \<Rightarrow> ('s \<Rightarrow> int set) \<Rightarrow> 's os \<Rightarrow> bool" where
  "mmap_law maps fds os \<longleftrightarrow>
     (\<forall>n fd off s ptr errno s'. os_mmap os n fd off s = (ptr, errno, s') \<longrightarrow> fds s' = fds s \<and>
        (if ptr = MAP_FAILED then maps s' = maps s
         else ptr \<noteq> 0 \<and> ptr \<notin># image_mset fst (maps s) \<and> maps s' = add_mset (ptr, n) (maps s)))"

definition munmap_law :: "('s \<Rightarrow> (u64 \<times> nat) multiset) \<Rightarrow> ('s \<Rightarrow> int set) \<Rightarrow> 's os \<Rightarrow> bool" where
  "munmap_law maps fds os \<longleftrightarrow>
     (\<forall>ptr n s. fds (os_munmap os ptr n s) = fds s \<and>
        ((ptr, n) \<in># maps s \<longrightarrow> maps (os_munmap os ptr n s) = maps s - {#(ptr, n)#}))"

definition close_law :: "('s \<Rightarrow> (u64 \<times> nat) multiset) \<Rightarrow> ('s \<Rightarrow> int set) \<Rightarrow> 's os \<Rightarrow> bool" where
  "close_law maps fds os \<longleftrightarrow>
     (\<forall>fd s. maps (os_close os fd s) = maps s \<and> fds (os_close os fd s) = fds s - {fd})"

definition store_law :: "('s \<Rightarrow> (u64 \<times> nat) multiset) \<Rightarrow> ('s \<Rightarrow> int set) \<Rightarrow> 's os \<Rightarrow> bool" where
  "store_law maps fds os \<longleftrightarrow>
     (\<forall>a v s. maps (os_store os a v s) = maps s \<and> fds (os_store os a v s) = fds s \<and>
        os_load os a (os_store os a v s) = v \<and>
        (\<forall>b. apart a b \<longrightarrow> os_load os b (os_store os a v s) = os_load os b s))"

definition os_laws :: "('s \<Rightarrow> (u64 \<times> nat) multiset) \<Rightarrow> ('s \<Rightarrow> int set) \<Rightarrow> 's os \<Rightarrow> bool" where
  "os_laws maps fds os \<longleftrightarrow> setup_law maps fds os \<and> mmap_law maps fds os \<and> munmap_law maps fds os \<and>
     close_law maps fds os \<and> store_law maps fds os"

lemma os_setup_law:
  "os_laws maps fds os \<Longrightarrow> os_setup os n p s = (ret, errno, p', s') \<Longrightarrow> maps s' = maps s \<and>
     (if ret < 0 then fds s' = fds s else ret \<notin> fds s \<and> fds s' = insert ret (fds s))"
  unfolding os_laws_def setup_law_def by meson

lemma os_mmap_law:
  "os_laws maps fds os \<Longrightarrow> os_mmap os n fd off s = (ptr, errno, s') \<Longrightarrow> fds s' = fds s \<and>
     (if ptr = MAP_FAILED then maps s' = maps s
      else ptr \<noteq> 0 \<and> ptr \<notin># image_mset fst (maps s) \<and> maps s' = add_mset (ptr, n) (maps s))"
  unfolding os_laws_def mmap_law_def by meson

lemma os_munmap_law:
  "os_laws maps fds os \<Longrightarrow> fds (os_munmap os ptr n s) = fds s \<and>
     ((ptr, n) \<in># maps s \<longrightarrow> maps (os_munmap os ptr n s) = maps s - {#(ptr, n)#})"
  unfolding os_laws_def munmap_law_def by meson

lemma os_close_law:
  "os_laws maps fds os \<Longrightarrow> maps (os_close os fd s) = maps s \<and> fds (os_close os fd s) = fds s - {fd}"
  unfolding os_laws_def close_law_def by meson

lemma os_store_law:
  "os_laws maps fds os \<Longrightarrow> maps (os_store os a v s) = maps s \<and> fds (os_store os a v s) = fds s \<and>
     os_load os a (os_store os a v s) = v \<and>
     (\<forall>b. apart a b \<longrightarrow> os_load os b (os_store os a v s) = os_load os b s)"
  unfolding os_laws_def store_law_def by meson

section \<open>Mapping\<close>

definition ring_maps :: "io_ring \<Rightarrow> (u64 \<times> nat) multiset" where
  "ring_maps r = add_mset (sp_ring_ptr (ir_sq r), sp_ring_sz (ir_sq r))
     (if cp_ring_ptr (ir_cq r) = sp_ring_ptr (ir_sq r) then {#}
      else {#(cp_ring_ptr (ir_cq r), cp_ring_sz (ir_cq r))#})"

lemma mmap_queues_Inr:
  assumes laws: "os_laws maps fds os" and m: "mmap_queues os fd p s = (Inr (sq, cq), s')"
  shows "fds s' = fds s \<and> cp_ring_ptr cq \<noteq> 0 \<and>
    maps s' = add_mset (sp_sqes sq, unat (pr_sq_entries p) * 64)
      (maps s + ring_maps \<lparr>ir_cq = cq, ir_sq = sq, ir_flags = f, ir_fd = d\<rparr>)"
proof -
  define z where "z = (if single_mmap p then max (sq_ring_size p) (cq_ring_size p) else sq_ring_size p)"
  define c where "c = (if single_mmap p then max z (cq_ring_size p) else cq_ring_size p)"
  obtain p1 e1 s1 where 1: "os_mmap os z fd IORING_OFF_SQ_RING s = (p1, e1, s1)" by (metis prod.exhaust)
  obtain p2 e2 s2 where 2: "os_mmap os c fd IORING_OFF_CQ_RING s1 = (p2, e2, s2)" by (metis prod.exhaust)
  let ?s = "if single_mmap p then s1 else s2"
  obtain p3 e3 s3 where 3: "os_mmap os (unat (pr_sq_entries p) * 64) fd IORING_OFF_SQES ?s = (p3, e3, s3)"
    by (metis prod.exhaust)
  note l = os_mmap_law [OF laws 1] os_mmap_law [OF laws 2] os_mmap_law [OF laws 3]
  show ?thesis
  proof (cases "single_mmap p")
    case True
    with 3 have 3: "os_mmap os (unat (pr_sq_entries p) * 64) fd IORING_OFF_SQES s1 = (p3, e3, s3)" by simp
    from m True have "p1 \<noteq> MAP_FAILED" "p3 \<noteq> MAP_FAILED" "sq = sq_map_at p1 z p3 p" "cq = cq_map_at p1 c p" "s' = s3"
      unfolding mmap_queues_def z_def [symmetric] c_def [symmetric] Let_def
      by (simp_all add: 1 3 split: if_splits)
    with l(1,3) True show ?thesis by (simp add: ring_maps_def sq_map_at_def cq_map_at_def)
  next
    case False
    with 3 have 3: "os_mmap os (unat (pr_sq_entries p) * 64) fd IORING_OFF_SQES s2 = (p3, e3, s3)" by simp
    from m False have "p1 \<noteq> MAP_FAILED" "p2 \<noteq> MAP_FAILED" "p3 \<noteq> MAP_FAILED"
      "sq = sq_map_at p1 z p3 p" "cq = cq_map_at p2 c p" "s' = s3"
      unfolding mmap_queues_def z_def [symmetric] c_def [symmetric] Let_def
      by (simp_all add: 1 2 3 split: if_splits)
    moreover from this l(1,2) have "p2 \<noteq> p1" by auto
    ultimately show ?thesis using l False by (simp add: ring_maps_def sq_map_at_def cq_map_at_def)
  qed
qed

lemma mmap_queues_Inl:
  assumes laws: "os_laws maps fds os" and m: "mmap_queues os fd p s = (Inl e, s')"
  shows "fds s' = fds s \<and> (maps s' = maps s \<or>
    (single_mmap p \<and> (\<exists>ptr n t. s' = os_munmap os ptr n t \<and> maps t = maps s \<and> ptr \<notin># image_mset fst (maps s))))"
proof -
  define z where "z = (if single_mmap p then max (sq_ring_size p) (cq_ring_size p) else sq_ring_size p)"
  define c where "c = (if single_mmap p then max z (cq_ring_size p) else cq_ring_size p)"
  obtain p1 e1 s1 where 1: "os_mmap os z fd IORING_OFF_SQ_RING s = (p1, e1, s1)" by (metis prod.exhaust)
  obtain p2 e2 s2 where 2: "os_mmap os c fd IORING_OFF_CQ_RING s1 = (p2, e2, s2)" by (metis prod.exhaust)
  let ?s = "if single_mmap p then s1 else s2"
  obtain p3 e3 s3 where 3: "os_mmap os (unat (pr_sq_entries p) * 64) fd IORING_OFF_SQES ?s = (p3, e3, s3)"
    by (metis prod.exhaust)
  note l = os_mmap_law [OF laws 1] os_mmap_law [OF laws 2] os_mmap_law [OF laws 3]
  note u = os_munmap_law [OF laws, of p1 z s2] os_munmap_law [OF laws, of p1 z s3]
    os_munmap_law [OF laws, of p2 c "os_munmap os p1 z s3"]
  show ?thesis
  proof (cases "p1 = MAP_FAILED")
    case True
    with m l(1) show ?thesis
      unfolding mmap_queues_def z_def [symmetric] c_def [symmetric] Let_def by (auto simp: 1)
  next
    case p1: False
    show ?thesis
    proof (cases "single_mmap p")
      case True
      with 3 have 3: "os_mmap os (unat (pr_sq_entries p) * 64) fd IORING_OFF_SQES s1 = (p3, e3, s3)" by simp
      from m p1 True have "p3 = MAP_FAILED" and "s' = os_munmap os p1 c (os_munmap os p1 z s3)"
        unfolding mmap_queues_def z_def [symmetric] c_def [symmetric] Let_def
        by (simp_all add: 1 3 split: if_splits)
      moreover from this l(1,3) p1 True u(2) have "maps (os_munmap os p1 z s3) = maps s"
        and "fds (os_munmap os p1 z s3) = fds s" by auto
      ultimately show ?thesis using True l(1) p1 os_munmap_law [OF laws, of p1 c "os_munmap os p1 z s3"]
        by auto
    next
      case False
      show ?thesis
      proof (cases "p2 = MAP_FAILED")
        case True
        with m p1 False have "s' = os_munmap os p1 z s2"
          unfolding mmap_queues_def z_def [symmetric] c_def [symmetric] Let_def by (auto simp: 1 2)
        with l(1,2) p1 True u(1) show ?thesis by auto
      next
        case p2: False
        from 3 False have 3: "os_mmap os (unat (pr_sq_entries p) * 64) fd IORING_OFF_SQES s2 = (p3, e3, s3)" by simp
        from m p1 p2 False have "p3 = MAP_FAILED" and "s' = os_munmap os p2 c (os_munmap os p1 z s3)"
          unfolding mmap_queues_def z_def [symmetric] c_def [symmetric] Let_def
          by (simp_all add: 1 2 3 split: if_splits)
        with l p1 p2 False u(2,3) show ?thesis by auto
      qed
    qed
  qed
qed

section \<open>The indirection array\<close>

lemma apart_words:
  assumes "i < 2 ^ 32" and "j < 2 ^ 32" and "i \<noteq> j"
  shows "apart (a + 4 * of_nat i) (a + 4 * of_nat j)"
proof -
  have u: "unat (4 * of_nat k :: u64) = 4 * k" if "k < 2 ^ 32" for k
    using that by (simp add: unat_word_ariths unat_of_nat)
  have "a + 4 * of_nat k - (a + 4 * of_nat l) = 4 * of_nat k - (4 * of_nat l :: u64)" for k l by simp
  then show ?thesis using assms unfolding apart_def
    by (auto simp: unat_sub_if' u)
qed

lemma fill_array_maps:
  "os_laws maps fds os \<Longrightarrow> maps (fill_array os a is s) = maps s \<and> fds (fill_array os a is s) = fds s"
  by (induction "is" arbitrary: s) (simp_all add: os_store_law)

lemma fill_array_other:
  "os_laws maps fds os \<Longrightarrow> \<forall>i\<in>set is. apart (a + 4 * of_nat i) b \<Longrightarrow>
     os_load os b (fill_array os a is s) = os_load os b s"
  by (induction "is" arbitrary: s) (simp_all add: os_store_law)

lemma fill_array_entry:
  assumes laws: "os_laws maps fds os"
  shows "distinct is \<Longrightarrow> \<forall>i\<in>set is. i < 2 ^ 32 \<Longrightarrow> j \<in> set is \<Longrightarrow>
     os_load os (a + 4 * of_nat j) (fill_array os a is s) = of_nat j"
proof (induction "is" arbitrary: s)
  case (Cons i "is")
  show ?case
  proof (cases "j = i")
    case True
    have "\<forall>k\<in>set is. apart (a + 4 * of_nat k) (a + 4 * of_nat i)"
      using Cons.prems apart_words by auto
    with True show ?thesis by (simp add: fill_array_other [OF laws] os_store_law [OF laws])
  next
    case False
    with Cons show ?thesis by simp
  qed
qed simp

section \<open>A ring from set-up to drop\<close>

lemma with_params_Inr:
  assumes laws: "os_laws maps fds os" and w: "with_params dbg os entries params s = Done (Inr r, s')"
  shows "\<exists>sz t n. maps s' = add_mset (sp_sqes (ir_sq r), sz) (maps s + ring_maps r) \<and>
    fds s' = insert (ir_fd r) (fds s) \<and> ir_fd r \<notin> fds s \<and> cp_ring_ptr (ir_cq r) \<noteq> 0 \<and>
    n = os_load os (sp_kring_mask (ir_sq r)) t + 1 \<and>
    s' = fill_array os (sp_array (ir_sq r)) [0..<unat n] t"
proof -
  obtain ret errno p s1 where 1: "os_setup os entries (params_of params) s = (ret, errno, p, s1)"
    by (metis prod.exhaust)
  with w have ret: "\<not> ret < 0" by (auto simp: with_params_def sysresult_def)
  obtain res t where 2: "mmap_queues os ret p s1 = (res, t)" by (metis prod.exhaust)
  with w 1 ret obtain sq cq where res: "res = Inr (sq, cq)"
    by (cases res) (auto simp: with_params_def sysresult_def)
  with w 1 2 ret obtain n where n: "u32_add dbg (os_load os (sp_kring_mask sq) t) 1 = Done n"
    and r: "r = \<lparr>ir_cq = cq, ir_sq = sq, ir_flags = up_flags params, ir_fd = ret\<rparr>"
    and s': "s' = fill_array os (sp_array sq) [0..<unat n] t"
    by (auto simp: with_params_def sysresult_def and_then_Done_iff)
  have "maps s' = maps t" and "fds s' = fds t" using fill_array_maps [OF laws] s' by metis+
  with os_setup_law [OF laws 1] mmap_queues_Inr [OF laws 2 [unfolded res], of "up_flags params" ret] ret
    s' r u32_add_Done [OF n] show ?thesis by auto
qed

definition header_apart :: "sq_map \<Rightarrow> bool" where
  "header_apart q \<longleftrightarrow> (\<forall>h\<in>{sp_khead q, sp_ktail q, sp_kring_mask q, sp_kring_entries q, sp_kflags q}.
     \<forall>i<2 ^ 32. apart (sp_array q + 4 * of_nat i) h)"

lemma with_params_ring:
  assumes laws: "os_laws maps fds os" and w: "with_params dbg os entries params s = Done (Inr r, s')"
    and mask: "ring_mask_ok (os_load os (sp_kring_mask (ir_sq r)) s')"
    and header: "header_apart (ir_sq r)"
    and sqes: "length sqes = unat (os_load os (sp_kring_mask (ir_sq r)) s') + 1"
    and empty: "os_load os (sp_khead (ir_sq r)) s' = os_load os (sp_ktail (ir_sq r)) s'"
  shows "sq_inv (sq_ring_at os (ir_sq r) sqes s') \<and> sq_window (sq_ring_at os (ir_sq r) sqes s') = [] \<and>
    fds s' = insert (ir_fd r) (fds s) \<and>
    (\<exists>sz. maps s' = add_mset (sp_sqes (ir_sq r), sz) (maps s + ring_maps r))"
proof -
  let ?q = "ir_sq r"
  obtain sz t n where o: "maps s' = add_mset (sp_sqes ?q, sz) (maps s + ring_maps r)"
    "fds s' = insert (ir_fd r) (fds s)" and n: "n = os_load os (sp_kring_mask ?q) t + 1"
    and s': "s' = fill_array os (sp_array ?q) [0..<unat n] t"
    using with_params_Inr [OF laws w] by blast
  have n32: "unat n < 2 ^ 32" using unsigned_less [of n, where 'a = nat] by simp
  then have "\<forall>i\<in>set [0..<unat n]. apart (sp_array ?q + 4 * of_nat i) (sp_kring_mask ?q)"
    using header by (simp add: header_apart_def)
  from fill_array_other [OF laws this] have m: "os_load os (sp_kring_mask ?q) s' = os_load os (sp_kring_mask ?q) t"
    by (simp add: s')
  let ?m = "os_load os (sp_kring_mask ?q) s'"
  have un: "unat n = unat ?m + 1"
    using mask by (simp add: n m [symmetric] ring_mask_ok_def unat_word_ariths)
  have "os_load os (sp_array ?q + 4 * of_nat i) s' = of_nat i" if "i < unat ?m + 1" for i
    unfolding s' by (rule fill_array_entry [OF laws]) (use that n32 un in auto)
  then have "map unat (map (\<lambda>i. os_load os (sp_array ?q + 4 * of_nat i) s') [0..<unat ?m + 1]) = [0..<unat ?m + 1]"
    using n32 un by (intro nth_equalityI) (auto simp: unat_of_nat simp del: upt_Suc)
  with mask sqes empty o show ?thesis
    by (auto simp: sq_inv_def sq_ring_at_def sq_defs ring_window_def simp del: upt_Suc)
qed


text \<open>C35: When with\_params fails the descriptor it opened is closed, and all mappings it made
  are undone, except that one path unmaps a region that was already unmapped.\<close>

theorem failed_setup_restores:
  assumes laws: "os_laws maps fds os" and w: "with_params dbg os entries params s = Done (Inl e, s')"
  shows "fds s' = fds s \<and> (maps s' = maps s \<or>
    (\<exists>fd ptr n t. s' = os_close os fd (os_munmap os ptr n t) \<and> maps t = maps s \<and> ptr \<notin># image_mset fst (maps s)))"
proof -
  obtain ret errno p s1 where 1: "os_setup os entries (params_of params) s = (ret, errno, p, s1)"
    by (metis prod.exhaust)
  note l = os_setup_law [OF laws 1]
  show ?thesis
  proof (cases "ret < 0")
    case True
    with w 1 l show ?thesis by (auto simp: with_params_def sysresult_def)
  next
    case False
    obtain res t where 2: "mmap_queues os ret p s1 = (res, t)" by (metis prod.exhaust)
    with w 1 False obtain e where res: "res = Inl e" and s': "s' = os_close os ret t"
      by (cases res) (auto simp: with_params_def sysresult_def and_then_Done_iff)
    from mmap_queues_Inl [OF laws 2 [unfolded res]] l False os_close_law [OF laws, of ret t] s'
    show ?thesis by auto
  qed
qed

theorem drop_leaves_entries_mapped:
  assumes laws: "os_laws maps fds os" and w: "with_params dbg os entries params s = Done (Inr r, s')"
    and later: "maps t = maps s'" "fds t = fds s'"
  shows "fds (drop_ring os r t) = fds s \<and>
    (\<exists>sz. maps (drop_ring os r t) = add_mset (sp_sqes (ir_sq r), sz) (maps s))"
proof -
  obtain sz where o: "maps s' = add_mset (sp_sqes (ir_sq r), sz) (maps s + ring_maps r)"
    "fds s' = insert (ir_fd r) (fds s)" "ir_fd r \<notin> fds s" "cp_ring_ptr (ir_cq r) \<noteq> 0"
    using with_params_Inr [OF laws w] by blast
  let ?a = "(sp_ring_ptr (ir_sq r), sp_ring_sz (ir_sq r))" and ?c = "(cp_ring_ptr (ir_cq r), cp_ring_sz (ir_cq r))"
  let ?t = "os_munmap os (sp_ring_ptr (ir_sq r)) (sp_ring_sz (ir_sq r)) t"
  have 1: "fds ?t = fds s'" "maps ?t = maps s' - {#?a#}"
    using os_munmap_law [OF laws, of "sp_ring_ptr (ir_sq r)" "sp_ring_sz (ir_sq r)" t] later o(1)
    by (simp_all add: ring_maps_def)
  have "maps (unmap_queues os (ir_sq r) (ir_cq r) t) = add_mset (sp_sqes (ir_sq r), sz) (maps s) \<and>
    fds (unmap_queues os (ir_sq r) (ir_cq r) t) = fds s'"
  proof (cases "cp_ring_ptr (ir_cq r) = sp_ring_ptr (ir_sq r)")
    case True
    with 1 o(1) show ?thesis by (simp add: unmap_queues_def ring_maps_def)
  next
    case False
    with 1 o(1) have "maps ?t = add_mset ?c (add_mset (sp_sqes (ir_sq r), sz) (maps s))"
      by (simp add: ring_maps_def)
    with os_munmap_law [OF laws, of "cp_ring_ptr (ir_cq r)" "cp_ring_sz (ir_cq r)" ?t]
    have "maps (os_munmap os (cp_ring_ptr (ir_cq r)) (cp_ring_sz (ir_cq r)) ?t) =
        add_mset (sp_sqes (ir_sq r), sz) (maps s)" and
      "fds (os_munmap os (cp_ring_ptr (ir_cq r)) (cp_ring_sz (ir_cq r)) ?t) = fds ?t" by simp_all
    with False o(4) 1(1) show ?thesis by (simp add: unmap_queues_def)
  qed
  with o(2,3) os_close_law [OF laws] show ?thesis by (auto simp: drop_ring_def)
qed

section \<open>Witnesses\<close>

text \<open>A small system with one address per mapping.\<close>

record toy =
  ty_maps :: "(u64 \<times> nat) multiset"
  ty_fds :: "int set"
  ty_ptr :: u64
  ty_fd :: int
  ty_mem :: "u64 \<Rightarrow> u32"

definition toy_os :: "nat \<Rightarrow> toy os" where
  "toy_os limit =
     \<lparr>os_setup = (\<lambda>n p s. if ty_fd s < 0 \<or> ty_fd s \<in> ty_fds s then (-1, 24, p, s)
        else (ty_fd s, 0, p\<lparr>pr_sq_entries := 2, pr_cq_entries := 4,
            pr_sq_off := \<lparr>so_head = 0, so_tail = 4, so_ring_mask = 8, so_ring_entries = 12, so_flags = 16,
              so_dropped = 20, so_array = 24\<rparr>\<rparr>, s\<lparr>ty_fds := insert (ty_fd s) (ty_fds s)\<rparr>)),
      os_mmap = (\<lambda>n fd off s. if ty_ptr s \<in> {0, MAP_FAILED} \<or> ty_ptr s \<in># image_mset fst (ty_maps s) \<or>
          limit \<le> size (ty_maps s)
        then (MAP_FAILED, 12, s)
        else (ty_ptr s, 0, s\<lparr>ty_maps := add_mset (ty_ptr s, n) (ty_maps s), ty_ptr := ty_ptr s + 4096\<rparr>)),
      os_munmap = (\<lambda>ptr n s. s\<lparr>ty_maps := ty_maps s - {#(ptr, n)#}\<rparr>),
      os_close = (\<lambda>fd s. s\<lparr>ty_fds := ty_fds s - {fd}\<rparr>),
      os_load = (\<lambda>a s. ty_mem s a),
      os_store = (\<lambda>a v s. s\<lparr>ty_mem := (ty_mem s)(a := v)\<rparr>)\<rparr>"

definition toy_start :: toy where
  "toy_start = \<lparr>ty_maps = {#}, ty_fds = {0, 1, 2}, ty_ptr = 4096, ty_fd = 3,
     ty_mem = (\<lambda>a. if a = 4104 then 1 else if a = 4108 then 2 else 0)\<rparr>"

lemma toy_laws: "os_laws ty_maps ty_fds (toy_os limit)"
  by (auto simp: os_laws_def setup_law_def mmap_law_def munmap_law_def close_law_def store_law_def
      toy_os_def apart_def split: if_splits)

definition toy_ring :: io_ring where
  "toy_ring = (let p = (params_of \<lparr>up_flags = 0, up_cq_entries = 0, up_sq_thread_cpu = 0, up_sq_thread_idle = 0\<rparr>)
        \<lparr>pr_sq_entries := 2, pr_cq_entries := 4,
            pr_sq_off := \<lparr>so_head = 0, so_tail = 4, so_ring_mask = 8, so_ring_entries = 12, so_flags = 16,
              so_dropped = 20, so_array = 24\<rparr>\<rparr>
     in \<lparr>ir_cq = cq_map_at 8192 64 p, ir_sq = sq_map_at 4096 32 12288 p, ir_flags = 0, ir_fd = 3\<rparr>)"

lemma upt_0_2: "[0..<2] = [0, 1 :: nat]"
  by (simp add: upt_rec)

lemma toy_setup:
  "\<exists>s'. uring_new True (toy_os 8) 2 toy_start = Done (Inr toy_ring, s') \<and> ty_mem s' 4104 = 1 \<and>
     ty_mem s' 4096 = 0 \<and> ty_mem s' 4100 = 0"
  by (simp add: uring_new_def with_flags_def with_params_def toy_os_def toy_start_def sysresult_def
      mmap_queues_def single_mmap_def params_of_def contains_def Features_SINGLE_MMAP_def
      IORING_FEAT_SINGLE_MMAP_def MAP_FAILED_def sq_map_at_def cq_map_at_def raw_offset_def u32_add_def
      toy_ring_def sq_ring_size_def cq_ring_size_def Let_def upt_0_2)

lemma toy_setup':
  obtains s' where "with_params True (toy_os 8) 2
      \<lparr>up_flags = 0, up_cq_entries = 0, up_sq_thread_cpu = 0, up_sq_thread_idle = 0\<rparr> toy_start = Done (Inr toy_ring, s')"
    and "ty_mem s' 4104 = 1" "ty_mem s' 4096 = 0" "ty_mem s' 4100 = 0"
  using toy_setup by (auto simp: uring_new_def with_flags_def)

lemma apart_near:
  assumes "4 \<le> x" and "x \<le> 2 ^ 64 - 4"
  shows "apart (h + of_nat x) h"
proof -
  have u: "unat (of_nat x :: u64) = x" using assms(2) by (simp add: unat_of_nat)
  moreover have "unat (- of_nat x :: u64) = 2 ^ 64 - x"
    using assms unat_sub_if' [of 0 "of_nat x :: u64"] u by simp
  ultimately show ?thesis using assms by (simp add: apart_def)
qed

lemma toy_header: "header_apart (ir_sq toy_ring)"
proof -
  have "apart (4120 + 4 * of_nat i) (4120 - of_nat d)" if "i < 2 ^ 32" "d \<in> {8, 12, 16, 20, 24}" for i d
    using that apart_near [of "4 * i + d" "4120 - of_nat d"] by auto
  from this [of _ 8] this [of _ 12] this [of _ 16] this [of _ 20] this [of _ 24] show ?thesis
    by (simp add: header_apart_def toy_ring_def sq_map_at_def raw_offset_def Let_def)
qed


theorem failed_setup_restores_witness:
  "\<exists>s'. uring_new True (toy_os 2) 2 toy_start = Done (Inl (OsError 12), s') \<and> ty_fds s' = {0, 1, 2}"
proof -
  let ?p = "\<lparr>up_flags = 0, up_cq_entries = 0, up_sq_thread_cpu = 0, up_sq_thread_idle = 0\<rparr>"
  obtain s' where w: "with_params True (toy_os 2) 2 ?p toy_start = Done (Inl (OsError 12), s')"
    by (simp add: with_params_def toy_os_def toy_start_def sysresult_def
      mmap_queues_def single_mmap_def params_of_def contains_def Features_SINGLE_MMAP_def
      IORING_FEAT_SINGLE_MMAP_def MAP_FAILED_def sq_ring_size_def cq_ring_size_def Let_def)
  from failed_setup_restores [OF toy_laws w] w show ?thesis
    by (auto simp: uring_new_def with_flags_def toy_start_def)
qed

theorem drop_leaves_entries_mapped_witness:
  "\<exists>s' sz. uring_new True (toy_os 8) 2 toy_start = Done (Inr toy_ring, s') \<and>
    ty_maps (drop_ring (toy_os 8) toy_ring s') = {#(12288, sz)#} \<and> ty_fds (drop_ring (toy_os 8) toy_ring s') = {0, 1, 2}"
proof -
  obtain s' where w: "with_params True (toy_os 8) 2
      \<lparr>up_flags = 0, up_cq_entries = 0, up_sq_thread_cpu = 0, up_sq_thread_idle = 0\<rparr> toy_start = Done (Inr toy_ring, s')"
    by (rule toy_setup')
  have "sp_sqes (ir_sq toy_ring) = 12288" by (simp add: toy_ring_def sq_map_at_def Let_def)
  with drop_leaves_entries_mapped [OF toy_laws w refl refl] w show ?thesis
    by (auto simp: uring_new_def with_flags_def toy_start_def)
qed

end
