(* ===== verification/Token_Replace.thy ===== *)
theory Token_Replace
  imports Prelude
begin

text \<open>
  \<open>tokenreplace/src/lib.rs\<close>: the attribute macro \<open>replace\<close>, which substitutes a token stream
  for every occurrence of an identifier in an item.  A \<open>TokenStream\<close> is a list of token trees;
  spans and the spacing of punctuation are left out.  The parser library \<open>syn\<close> is a
  parameter: \<open>parse_ident\<close> and \<open>parse_comma\<close> take a token off the stream or fail, and
  \<open>to_compile_error\<close> turns the error into the tokens of a call of \<open>compile_error!\<close>.

  The lemmas relate the walk over the tree to the flat sequence of lexical tokens, where the
  substitution works token by token.
\<close>

section \<open>Token trees\<close>

datatype delimiter = Parenthesis | Brace | Bracket | NoDelimiter

datatype token_tree = Group delimiter "token_tree list" | Ident string | Punct char | Literal string

record meta =
  meta_search :: string
  meta_replace :: "token_tree list"

definition parse_meta ::
  "(token_tree list \<Rightarrow> 'e + string \<times> token_tree list) \<Rightarrow> (token_tree list \<Rightarrow> 'e + token_tree list) \<Rightarrow>
    token_tree list \<Rightarrow> 'e + meta" where
  "parse_meta parse_ident parse_comma input =
     (case parse_ident input of
        Inl e \<Rightarrow> Inl e
      | Inr (search, input) \<Rightarrow>
          (case parse_comma input of
             Inl e \<Rightarrow> Inl e
           | Inr input \<Rightarrow> Inr \<lparr>meta_search = search, meta_replace = input\<rparr>))"

section \<open>The walk\<close>

text \<open>\<open>out\<close> is the stream that the trees are appended to.\<close>

fun walk_stream :: "meta \<Rightarrow> token_tree list \<Rightarrow> token_tree list \<Rightarrow> token_tree list"
  and walk_tree :: "meta \<Rightarrow> token_tree \<Rightarrow> token_tree list \<Rightarrow> token_tree list" where
  "walk_stream meta [] out = out"
| "walk_stream meta (tree # stream) out = walk_stream meta stream (walk_tree meta tree out)"
| "walk_tree meta (Group d stream) out = out @ [Group d (walk_stream meta stream [])]"
| "walk_tree meta (Ident ident) out =
     (if ident = meta_search meta then out @ meta_replace meta else out @ [Ident ident])"
| "walk_tree meta (Punct c) out = out @ [Punct c]"
| "walk_tree meta (Literal l) out = out @ [Literal l]"

definition token_replace ::
  "(token_tree list \<Rightarrow> 'e + string \<times> token_tree list) \<Rightarrow> (token_tree list \<Rightarrow> 'e + token_tree list) \<Rightarrow>
    ('e \<Rightarrow> token_tree list) \<Rightarrow> token_tree list \<Rightarrow> token_tree list \<Rightarrow> token_tree list" where
  "token_replace parse_ident parse_comma to_compile_error attr input =
     (case parse_meta parse_ident parse_comma attr of
        Inl e \<Rightarrow> to_compile_error e
      | Inr meta \<Rightarrow> walk_stream meta input [])"

section \<open>Lexical tokens\<close>

datatype lexeme = Open delimiter | Close delimiter | Word string | Sign char | Lit string

fun flat :: "token_tree list \<Rightarrow> lexeme list" where
  "flat [] = []"
| "flat (Group d stream # ts) = Open d # flat stream @ Close d # flat ts"
| "flat (Ident s # ts) = Word s # flat ts"
| "flat (Punct c # ts) = Sign c # flat ts"
| "flat (Literal l # ts) = Lit l # flat ts"

lemma flat_append [simp]: "flat (xs @ ys) = flat xs @ flat ys"
proof (induction xs)
  case (Cons x xs)
  then show ?case by (cases x) simp_all
qed simp

lemma flat_Cons: "NO_MATCH [] ts \<Longrightarrow> flat (t # ts) = flat [t] @ flat ts"
  using flat_append [of "[t]" ts] by simp

text \<open>The tokens determine the trees: a sequence that is over, or continues with a closing
  delimiter, splits in one way only.\<close>

lemma flat_split:
  assumes "flat xs @ r = flat ys @ r'"
    and "r = [] \<or> (\<exists>d s. r = Close d # s)" and "r' = [] \<or> (\<exists>d s. r' = Close d # s)"
  shows "xs = ys \<and> r = r'"
  using assms
proof (induction xs arbitrary: ys r r' rule: flat.induct)
  case 1
  then show ?case by (cases ys rule: flat.cases) auto
next
  case (2 d stream ts)
  have "Open d # (flat stream @ Close d # flat ts @ r) = flat ys @ r'"
    using "2.prems"(1) by simp
  with "2.prems"(3) obtain stream' ts' where ys: "ys = Group d stream' # ts'"
    by (cases ys rule: flat.cases) auto
  with "2.prems"(1) have "flat stream @ (Close d # flat ts @ r) = flat stream' @ (Close d # flat ts' @ r')"
    by simp
  then have "stream = stream' \<and> Close d # flat ts @ r = Close d # flat ts' @ r'"
    by (rule "2.IH"(1)) simp_all
  moreover from this have "ts = ts' \<and> r = r'"
    using "2.IH"(2) [of r ts' r'] "2.prems"(2,3) by simp
  ultimately show ?case by (simp add: ys)
next
  case (3 s ts)
  from "3.prems" obtain ts' where ys: "ys = Ident s # ts'" "flat ts @ r = flat ts' @ r'"
    by (cases ys rule: flat.cases) auto
  from "3.IH" [OF ys(2) "3.prems"(2,3)] show ?case by (simp add: ys(1))
next
  case (4 c ts)
  from "4.prems" obtain ts' where ys: "ys = Punct c # ts'" "flat ts @ r = flat ts' @ r'"
    by (cases ys rule: flat.cases) auto
  from "4.IH" [OF ys(2) "4.prems"(2,3)] show ?case by (simp add: ys(1))
next
  case (5 l ts)
  from "5.prems" obtain ts' where ys: "ys = Literal l # ts'" "flat ts @ r = flat ts' @ r'"
    by (cases ys rule: flat.cases) auto
  from "5.IH" [OF ys(2) "5.prems"(2,3)] show ?case by (simp add: ys(1))
qed

lemma flat_inject: "flat xs = flat ys \<longleftrightarrow> xs = ys"
  using flat_split [of xs "[]" ys "[]"] by auto

text \<open>The substitution on one lexical token.\<close>

fun subst_lexeme :: "meta \<Rightarrow> lexeme \<Rightarrow> lexeme list" where
  "subst_lexeme meta (Word s) = (if s = meta_search meta then flat (meta_replace meta) else [Word s])"
| "subst_lexeme meta l = [l]"

lemma flat_walk:
  "flat (walk_stream meta ts out) = flat out @ concat (map (subst_lexeme meta) (flat ts))"
  "flat (walk_tree meta t out) = flat out @ concat (map (subst_lexeme meta) (flat [t]))"
  by (induction meta ts out and meta t out rule: walk_stream_walk_tree.induct)
    (simp_all add: flat_Cons)

text \<open>C38: When its attribute parses, the macro replace produces the one token stream whose
  lexical tokens are those of the input with every occurrence of the identifier substituted,
  at any nesting depth and without rescanning the replacement.\<close>

theorem replace_is_token_substitution:
  assumes "parse_meta parse_ident parse_comma attr = Inr meta"
  shows "token_replace parse_ident parse_comma to_compile_error attr input = output \<longleftrightarrow>
    flat output = concat (map (subst_lexeme meta) (flat input))"
proof -
  have "token_replace parse_ident parse_comma to_compile_error attr input = walk_stream meta input []"
    using assms by (simp add: token_replace_def)
  moreover have "flat (walk_stream meta input []) = concat (map (subst_lexeme meta) (flat input))"
    by (simp add: flat_walk)
  ultimately show ?thesis by (metis flat_inject)
qed

text \<open>A parser for the attribute of the tests.\<close>

fun take_ident :: "token_tree list \<Rightarrow> string + string \<times> token_tree list" where
  "take_ident (Ident s # ts) = Inr (s, ts)"
| "take_ident _ = Inl ''expected identifier''"

fun take_comma :: "token_tree list \<Rightarrow> string + token_tree list" where
  "take_comma (Punct c # ts) = (if c = CHR '','' then Inr ts else Inl ''expected comma'')"
| "take_comma _ = Inl ''expected comma''"

theorem replace_is_token_substitution_witness:
  "token_replace take_ident take_comma (\<lambda>e. [Literal e])
      [Ident ''a'', Punct CHR '','', Ident ''x'', Punct CHR '':'', Ident ''a'']
      [Ident ''fn'', Ident ''a'', Group Brace [Ident ''b'', Punct CHR ''.'', Ident ''a'']] =
    [Ident ''fn'', Ident ''x'', Punct CHR '':'', Ident ''a'',
      Group Brace [Ident ''b'', Punct CHR ''.'', Ident ''x'', Punct CHR '':'', Ident ''a'']]"
proof -
  have "parse_meta take_ident take_comma [Ident ''a'', Punct CHR '','', Ident ''x'', Punct CHR '':'', Ident ''a'']
    = Inr \<lparr>meta_search = ''a'', meta_replace = [Ident ''x'', Punct CHR '':'', Ident ''a'']\<rparr>"
    by (simp add: parse_meta_def)
  from replace_is_token_substitution [OF this] show ?thesis by simp
qed

end
