(* ===== verification/Lazy_Cell.thy ===== *)
theory Lazy_Cell
  imports Prelude
begin

text \<open>
  \<open>metrics/src/lazy_cell.rs\<close>: a value that is initialised by its first user.  The shared cell is
  a record of the state byte, the slot of the value and whether the closure is still in place;
  the closure is a parameter \<open>f\<close>, the value it returns or \<open>None\<close> when it panics.

  The first part is \<open>get\<close>, \<open>force\<close> and \<open>init\<close> called by many threads at once: one atomic
  action of one thread is a step \<open>thread_step\<close>, a program counter says where in the function
  the thread stands, and an execution is driven by a schedule.  The second part is the
  operations that own the cell: \<open>get_mut\<close>, \<open>force_mut\<close>, \<open>init_mut\<close>, \<open>into_inner\<close> and
  \<open>drop\<close>.
\<close>

section \<open>The cell\<close>

definition UNINIT :: u8 where "UNINIT = 0"
definition INIT_IN_PROGRESS :: u8 where "INIT_IN_PROGRESS = 1"
definition INIT :: u8 where "INIT = 2"
definition POISONED :: u8 where "POISONED = 3"

lemmas lc_states = UNINIT_def INIT_IN_PROGRESS_def INIT_def POISONED_def

record 'v lazy_cell =
  lc_func :: bool
  lc_value :: "'v option"
  lc_state :: u8

definition lc_new :: "'v lazy_cell" where
  "lc_new = \<lparr>lc_func = True, lc_value = None, lc_state = UNINIT\<rparr>"

text \<open>The reference to the value that \<open>inner\<close> makes: undefined behaviour on an empty slot.\<close>

definition lc_inner :: "'v lazy_cell \<Rightarrow> 'v outcome" where
  "lc_inner c = (case lc_value c of None \<Rightarrow> Undef | Some v \<Rightarrow> Done v)"

section \<open>Threads\<close>

text \<open>How a call ended: \<open>force\<close> or \<open>get\<close> returned, the thread panicked (because the cell is
  poisoned or because the closure did), it reached \<open>unreachable!\<close>, or it used what is not
  there.\<close>

datatype 'v answer = Forced 'v | Got "'v option" | Panicked | Unreachable | Undefined

text \<open>Where a thread stands: before the load of \<open>force\<close>, before the exchange of \<open>init\<close>, before
  the call of the closure, before the store of the value, before the store of \<open>INIT\<close> or of
  \<open>POISONED\<close>, in the waiting loop, before reading the value in \<open>force\<close>, before the load of
  \<open>get\<close>, before reading the value in \<open>get\<close>, or done.\<close>

datatype 'v pc = Force | Init | Call | Store 'v | Publish | Poison | Spin | Inner
  | Get | GetInner | Finished "'v answer"

definition lc_force :: "'v lazy_cell \<Rightarrow> 'v pc" where
  "lc_force c =
     (if lc_state c = INIT then Inner
      else if lc_state c = POISONED then Finished Panicked
      else if lc_state c = INIT_IN_PROGRESS \<or> lc_state c = UNINIT then Init
      else Finished Unreachable)"

definition lc_get :: "'v lazy_cell \<Rightarrow> 'v pc" where
  "lc_get c = (if lc_state c = INIT then GetInner else Finished (Got None))"

text \<open>The exchange of \<open>init\<close>, which fails only when the state is not \<open>UNINIT\<close>.\<close>

definition lc_init :: "'v lazy_cell \<Rightarrow> 'v lazy_cell \<times> 'v pc" where
  "lc_init c =
     (if lc_state c = UNINIT then (c\<lparr>lc_state := INIT_IN_PROGRESS\<rparr>, Call)
      else if lc_state c = INIT then (c, Inner)
      else if lc_state c = INIT_IN_PROGRESS then (c, Spin)
      else if lc_state c = POISONED then (c, Finished Panicked)
      else (c, Finished Unreachable))"

definition lc_call :: "'v option \<Rightarrow> 'v lazy_cell \<Rightarrow> 'v lazy_cell \<times> 'v pc" where
  "lc_call f c =
     (if lc_func c
      then (c\<lparr>lc_func := False\<rparr>, case f of Some v \<Rightarrow> Store v | None \<Rightarrow> Poison)
      else (c, Finished Undefined))"

definition lc_spin :: "'v lazy_cell \<Rightarrow> 'v pc" where
  "lc_spin c =
     (if lc_state c = INIT_IN_PROGRESS then Spin
      else if lc_state c = INIT then Inner
      else if lc_state c = POISONED then Finished Panicked
      else Finished Unreachable)"

definition lc_read :: "('v \<Rightarrow> 'v answer) \<Rightarrow> 'v lazy_cell \<Rightarrow> 'v pc" where
  "lc_read ret c = (case lc_inner c of Done v \<Rightarrow> Finished (ret v) | _ \<Rightarrow> Finished Undefined)"

fun thread_step :: "'v option \<Rightarrow> 'v lazy_cell \<Rightarrow> 'v pc \<Rightarrow> 'v lazy_cell \<times> 'v pc" where
  "thread_step f c Force = (c, lc_force c)"
| "thread_step f c Init = lc_init c"
| "thread_step f c Call = lc_call f c"
| "thread_step f c (Store v) = (c\<lparr>lc_value := Some v\<rparr>, Publish)"
| "thread_step f c Publish = (c\<lparr>lc_state := INIT\<rparr>, Inner)"
| "thread_step f c Poison = (c\<lparr>lc_state := POISONED\<rparr>, Finished Panicked)"
| "thread_step f c Spin = (c, lc_spin c)"
| "thread_step f c Inner = (c, lc_read Forced c)"
| "thread_step f c Get = (c, lc_get c)"
| "thread_step f c GetInner = (c, lc_read (Got \<circ> Some) c)"
| "thread_step f c (Finished a) = (c, Finished a)"

section \<open>Executions\<close>

text \<open>The cell and the threads; the threads start at \<open>force\<close> or \<open>get\<close>.\<close>

type_synonym 'v system = "'v lazy_cell \<times> 'v pc list"

definition sys_step :: "'v option \<Rightarrow> nat \<Rightarrow> 'v system \<Rightarrow> 'v system" where
  "sys_step f i s =
     (if i < length (snd s)
      then case thread_step f (fst s) (snd s ! i) of (c, p) \<Rightarrow> (c, (snd s)[i := p])
      else s)"

inductive reachable :: "'v option \<Rightarrow> 'v system \<Rightarrow> bool" for f where
  start: "set ps \<subseteq> {Force, Get} \<Longrightarrow> reachable f (lc_new, ps)"
| step: "reachable f s \<Longrightarrow> reachable f (sys_step f i s)"

text \<open>The execution under a schedule, which names the thread of each step.\<close>

primrec lc_run :: "'v option \<Rightarrow> (nat \<Rightarrow> nat) \<Rightarrow> 'v system \<Rightarrow> nat \<Rightarrow> 'v system" where
  "lc_run f sched s 0 = s"
| "lc_run f sched s (Suc k) = sys_step f (sched k) (lc_run f sched s k)"

definition fair :: "nat \<Rightarrow> (nat \<Rightarrow> nat) \<Rightarrow> bool" where
  "fair n sched \<longleftrightarrow> (\<forall>i<n. \<forall>k. \<exists>j\<ge>k. sched j = i)"

fun finished :: "'v pc \<Rightarrow> bool" where
  "finished (Finished a) = True"
| "finished _ = False"

section \<open>The invariant\<close>

text \<open>The thread that won the exchange and has not yet published.\<close>

fun initialising :: "'v pc \<Rightarrow> bool" where
  "initialising Call = True"
| "initialising (Store v) = True"
| "initialising Publish = True"
| "initialising Poison = True"
| "initialising _ = False"

text \<open>What a program counter promises of the cell.\<close>

fun pc_ok :: "'v option \<Rightarrow> 'v lazy_cell \<Rightarrow> 'v pc \<Rightarrow> bool" where
  "pc_ok f c Call = lc_func c"
| "pc_ok f c (Store v) = (\<not> lc_func c \<and> f = Some v)"
| "pc_ok f c Publish = (\<not> lc_func c \<and> f \<noteq> None \<and> lc_value c = f)"
| "pc_ok f c Poison = (\<not> lc_func c \<and> f = None)"
| "pc_ok f c Inner = (lc_state c = INIT)"
| "pc_ok f c GetInner = (lc_state c = INIT)"
| "pc_ok f c (Finished (Forced v)) = (lc_state c = INIT \<and> f = Some v)"
| "pc_ok f c (Finished (Got (Some v))) = (lc_state c = INIT \<and> f = Some v)"
| "pc_ok f c (Finished Panicked) = (lc_state c = POISONED)"
| "pc_ok f c (Finished Unreachable) = False"
| "pc_ok f c (Finished Undefined) = False"
| "pc_ok f c Spin = (lc_state c \<noteq> UNINIT)"
| "pc_ok f c _ = True"

definition cell_ok :: "'v option \<Rightarrow> 'v lazy_cell \<Rightarrow> bool" where
  "cell_ok f c \<longleftrightarrow>
     (lc_state c = UNINIT \<and> lc_func c \<and> lc_value c = None) \<or>
     (lc_state c = INIT_IN_PROGRESS \<and> (lc_value c = None \<or> f \<noteq> None \<and> lc_value c = f)) \<or>
     (lc_state c = INIT \<and> \<not> lc_func c \<and> f \<noteq> None \<and> lc_value c = f) \<or>
     (lc_state c = POISONED \<and> \<not> lc_func c \<and> f = None \<and> lc_value c = None)"

definition lc_inv :: "'v option \<Rightarrow> 'v system \<Rightarrow> bool" where
  "lc_inv f s \<longleftrightarrow> cell_ok f (fst s) \<and> (\<forall>p\<in>set (snd s). pc_ok f (fst s) p) \<and>
     length (filter initialising (snd s)) = (if lc_state (fst s) = INIT_IN_PROGRESS then 1 else 0)"

text \<open>Updating one thread of a list.\<close>

lemma count_update:
  "i < length ps \<Longrightarrow> length (filter P (ps[i := p])) + (if P (ps ! i) then 1 else 0) =
     length (filter P ps) + (if P p then 1 else 0)"
proof (induction ps arbitrary: i)
  case (Cons x ps)
  then show ?case by (cases i) auto
qed simp

lemma count_none: "length (filter P ps) = 0 \<Longrightarrow> p \<in> set ps \<Longrightarrow> \<not> P p"
  by (auto simp: filter_empty_conv)

lemma count_one:
  assumes "length (filter P ps) = 1" and "i < length ps" "P (ps ! i)" and "j < length ps" "P (ps ! j)"
  shows "j = i"
proof -
  have "card {k. k < length ps \<and> P (ps ! k)} = 1" using assms(1) by (simp add: length_filter_conv_card)
  then obtain x where x: "{k. k < length ps \<and> P (ps ! k)} = {x}" by (rule card_1_singletonE)
  have "i \<in> {k. k < length ps \<and> P (ps ! k)}" and "j \<in> {k. k < length ps \<and> P (ps ! k)}"
    using assms(2-5) by simp_all
  then show ?thesis unfolding x by simp
qed

text \<open>The step of a thread, and what it means for the others.\<close>

lemma thread_step_cases:
  assumes "cell_ok f c" and "pc_ok f c p" and "initialising p \<Longrightarrow> lc_state c = INIT_IN_PROGRESS"
    and "thread_step f c p = (c', p')"
  shows "cell_ok f c' \<and> pc_ok f c' p' \<and>
    (if initialising p then if initialising p' then lc_state c' = INIT_IN_PROGRESS
                            else lc_state c' = INIT \<or> lc_state c' = POISONED
     else if initialising p' then lc_state c = UNINIT \<and> lc_state c' = INIT_IN_PROGRESS
     else c' = c)"
  using assms
  by (cases p; cases f)
    (auto simp: lc_states cell_ok_def lc_force_def lc_get_def lc_init_def lc_call_def lc_spin_def
      lc_read_def lc_inner_def split: if_splits)

lemma pc_ok_other:
  assumes "pc_ok f c p" and "\<not> initialising p"
    and "lc_state c' = lc_state c \<or>
      (lc_state c = UNINIT \<or> lc_state c = INIT_IN_PROGRESS) \<and> lc_state c' \<noteq> UNINIT"
  shows "pc_ok f c' p"
  using assms by (induction f c p rule: pc_ok.induct) (auto simp: lc_states)

lemma lc_inv_sys_step:
  assumes "lc_inv f s"
  shows "lc_inv f (sys_step f i s)"
proof (cases "i < length (snd s)")
  case True
  obtain c ps where s: "s = (c, ps)" by (cases s)
  with True have i: "i < length ps" by simp
  obtain c' p' where st: "thread_step f c (ps ! i) = (c', p')" by (cases "thread_step f c (ps ! i)")
  from assms s have inv: "cell_ok f c" "\<forall>p\<in>set ps. pc_ok f c p"
    and cnt: "length (filter initialising ps) = (if lc_state c = INIT_IN_PROGRESS then 1 else 0)"
    by (simp_all add: lc_inv_def)
  have ip: "lc_state c = INIT_IN_PROGRESS" if "initialising (ps ! i)"
    using cnt count_none [of initialising ps "ps ! i"] i that by (auto split: if_splits)
  have cs: "cell_ok f c'" "pc_ok f c' p'" and tr:
    "if initialising (ps ! i) then if initialising p' then lc_state c' = INIT_IN_PROGRESS
                            else lc_state c' = INIT \<or> lc_state c' = POISONED
     else if initialising p' then lc_state c = UNINIT \<and> lc_state c' = INIT_IN_PROGRESS
     else c' = c"
    using thread_step_cases [OF inv(1) _ ip st] inv(2) i by simp_all
  have cnt': "length (filter initialising (ps[i := p'])) = (if lc_state c' = INIT_IN_PROGRESS then 1 else 0)"
    using count_update [OF i, of initialising p'] cnt tr ip
    by (auto simp: lc_states split: if_splits)
  have "pc_ok f c' (ps ! j)" if j: "j < length ps" "j \<noteq> i" for j
  proof (cases "c' = c")
    case False
    have "\<not> initialising (ps ! j)"
    proof (cases "initialising (ps ! i)")
      case True
      with cnt ip count_one [of initialising ps i j] i j show ?thesis by auto
    next
      case False
      with tr \<open>c' \<noteq> c\<close> have "lc_state c = UNINIT" by (auto split: if_splits)
      with cnt count_none [of initialising ps "ps ! j"] j show ?thesis by (auto simp: lc_states)
    qed
    moreover have "pc_ok f c (ps ! j)" using inv(2) j by simp
    moreover have "lc_state c' = lc_state c \<or>
      (lc_state c = UNINIT \<or> lc_state c = INIT_IN_PROGRESS) \<and> lc_state c' \<noteq> UNINIT"
      using tr \<open>c' \<noteq> c\<close> ip by (auto simp: lc_states split: if_splits)
    ultimately show ?thesis by (metis pc_ok_other)
  qed (use inv(2) j in auto)
  then have "\<forall>p\<in>set (ps[i := p']). pc_ok f c' p"
    using cs(2) i by (simp add: all_set_conv_all_nth nth_list_update)
  with cs(1) cnt' show ?thesis by (simp add: lc_inv_def sys_step_def s i st)
qed (use assms in \<open>simp add: sys_step_def\<close>)

lemma lc_inv_start:
  assumes "set ps \<subseteq> {Force, Get}"
  shows "lc_inv f (lc_new, ps)"
proof -
  have "pc_ok f lc_new p \<and> \<not> initialising p" if "p \<in> set ps" for p
    using assms that by auto
  then show ?thesis by (simp add: lc_inv_def cell_ok_def lc_new_def lc_states filter_empty_conv)
qed

lemma reachable_lc_inv: "reachable f s \<Longrightarrow> lc_inv f s"
  by (induction rule: reachable.induct) (simp_all add: lc_inv_start lc_inv_sys_step)

section \<open>Progress\<close>

text \<open>The steps a thread still has ahead of it, a turn of the waiting loop apart.\<close>

fun steps_left :: "'v pc \<Rightarrow> nat" where
  "steps_left Force = 6"
| "steps_left Init = 5"
| "steps_left Call = 4"
| "steps_left (Store v) = 3"
| "steps_left Publish = 2"
| "steps_left Poison = 1"
| "steps_left Spin = 2"
| "steps_left Inner = 1"
| "steps_left Get = 2"
| "steps_left GetInner = 1"
| "steps_left (Finished a) = 0"

definition work_left :: "'v system \<Rightarrow> nat" where
  "work_left s = sum_list (map steps_left (snd s))"

text \<open>A thread that its next step does not bring forward: it is done, or it waits.\<close>

definition idle :: "'v system \<Rightarrow> 'v pc \<Rightarrow> bool" where
  "idle s p \<longleftrightarrow> finished p \<or> p = Spin \<and> lc_state (fst s) = INIT_IN_PROGRESS"

lemma thread_step_progress:
  "thread_step f c p = (c', p') \<Longrightarrow>
     (if finished p \<or> p = Spin \<and> lc_state c = INIT_IN_PROGRESS then c' = c \<and> p' = p
      else steps_left p' < steps_left p)"
  by (cases p)
    (auto simp: lc_force_def lc_get_def lc_init_def lc_call_def lc_spin_def
      lc_read_def lc_inner_def split: if_splits outcome.splits option.splits)

lemma sum_list_update_less:
  fixes xs :: "nat list"
  shows "i < length xs \<Longrightarrow> x < xs ! i \<Longrightarrow> sum_list (xs[i := x]) < sum_list xs"
proof (induction xs arbitrary: i)
  case (Cons y ys)
  then show ?case by (cases i) simp_all
qed simp

lemma sys_step_progress:
  assumes "i < length (snd s)"
  shows "if idle s (snd s ! i) then sys_step f i s = s else work_left (sys_step f i s) < work_left s"
proof -
  obtain c p where st: "thread_step f (fst s) (snd s ! i) = (c, p)"
    by (cases "thread_step f (fst s) (snd s ! i)")
  have s: "sys_step f i s = (c, (snd s)[i := p])" using assms by (simp add: sys_step_def st)
  show ?thesis
  proof (cases "idle s (snd s ! i)")
    case True
    with thread_step_progress [OF st] have "c = fst s" and "p = snd s ! i"
      by (auto simp: idle_def split: if_splits)
    with s True show ?thesis by simp
  next
    case False
    with thread_step_progress [OF st] have "steps_left p < steps_left (snd s ! i)"
      by (auto simp: idle_def split: if_splits)
    with s False assms show ?thesis by (simp add: work_left_def map_update sum_list_update_less)
  qed
qed

lemma some_thread_works:
  assumes "lc_inv f s" and "\<not> (\<forall>p\<in>set (snd s). finished p)"
  shows "\<exists>i<length (snd s). \<not> idle s (snd s ! i)"
proof (cases "lc_state (fst s) = INIT_IN_PROGRESS")
  case True
  with assms(1) have "length (filter initialising (snd s)) = 1" by (simp add: lc_inv_def)
  then obtain p where "p \<in> set (snd s)" and p: "initialising p"
    by (metis filter_False length_0_conv zero_neq_one)
  then obtain i where "i < length (snd s)" "snd s ! i = p" by (metis in_set_conv_nth)
  moreover have "\<not> idle s p" using p by (cases p) (simp_all add: idle_def)
  ultimately show ?thesis by blast
next
  case False
  from assms(2) obtain p where "p \<in> set (snd s)" and p: "\<not> finished p" by blast
  then obtain i where "i < length (snd s)" "snd s ! i = p" by (metis in_set_conv_nth)
  with p False show ?thesis by (auto simp: idle_def)
qed

lemma length_sys_step [simp]: "length (snd (sys_step f i s)) = length (snd s)"
  by (simp add: sys_step_def split: prod.split)

lemma length_lc_run [simp]: "length (snd (lc_run f sched s k)) = length (snd s)"
  by (induction k) simp_all

lemma reachable_lc_run: "reachable f s \<Longrightarrow> reachable f (lc_run f sched s k)"
  by (induction k) (auto intro: reachable.step)

lemma sys_step_work: "sys_step f i s = s \<or> work_left (sys_step f i s) < work_left s"
  using sys_step_progress [of i s f] by (cases "i < length (snd s)") (auto simp: sys_step_def split: if_splits)

lemma lc_run_work:
  "k \<le> j \<Longrightarrow> lc_run f sched s j = lc_run f sched s k \<or>
     work_left (lc_run f sched s j) < work_left (lc_run f sched s k)"
proof (induction j)
  case (Suc j)
  show ?case
  proof (cases "k = Suc j")
    case False
    with Suc have "lc_run f sched s j = lc_run f sched s k \<or>
      work_left (lc_run f sched s j) < work_left (lc_run f sched s k)" by simp
    with sys_step_work [of f "sched j" "lc_run f sched s j"] show ?thesis by auto
  qed simp
qed simp

lemma fair_progress:
  assumes "reachable f s" and "fair (length (snd s)) sched"
    and "\<not> (\<forall>p\<in>set (snd (lc_run f sched s k)). finished p)"
  shows "\<exists>j\<ge>k. work_left (lc_run f sched s j) < work_left (lc_run f sched s k)"
proof -
  let ?s = "lc_run f sched s k"
  have "lc_inv f ?s" using assms(1) by (intro reachable_lc_inv reachable_lc_run)
  then obtain i where i: "i < length (snd ?s)" "\<not> idle ?s (snd ?s ! i)"
    using some_thread_works assms(3) by blast
  then obtain j where j: "j \<ge> k" "sched j = i" using assms(2) by (auto simp: fair_def)
  show ?thesis
  proof (cases "lc_run f sched s j = ?s")
    case True
    with sys_step_progress [OF i(1), of f] i(2) j(2)
    have "work_left (lc_run f sched s (Suc j)) < work_left ?s" by simp
    with j(1) show ?thesis by (intro exI [of _ "Suc j"]) simp
  next
    case False
    with lc_run_work [OF j(1), of f sched s] j(1) show ?thesis by blast
  qed
qed

lemma fair_terminates:
  assumes "reachable f s" and "fair (length (snd s)) sched"
  shows "\<exists>j\<ge>k. \<forall>p\<in>set (snd (lc_run f sched s j)). finished p"
proof (induction "work_left (lc_run f sched s k)" arbitrary: k rule: less_induct)
  case less
  show ?case
  proof (cases "\<forall>p\<in>set (snd (lc_run f sched s k)). finished p")
    case False
    from fair_progress [OF assms False] obtain j where "j \<ge> k"
      and "work_left (lc_run f sched s j) < work_left (lc_run f sched s k)" by blast
    from less [OF this(2)] \<open>j \<ge> k\<close> show ?thesis by (meson order_trans)
  qed blast
qed

section \<open>Threads that force\<close>

fun forcing :: "'v pc \<Rightarrow> bool" where
  "forcing Get = False"
| "forcing GetInner = False"
| "forcing (Finished (Got v)) = False"
| "forcing _ = True"

lemma forcing_step: "thread_step f c p = (c', p') \<Longrightarrow> forcing p \<Longrightarrow> forcing p'"
  by (cases p)
    (auto simp: lc_force_def lc_init_def lc_call_def lc_spin_def lc_read_def lc_inner_def
      split: if_splits outcome.splits option.splits)

lemma forcing_sys_step:
  "\<forall>p\<in>set (snd s). forcing p \<Longrightarrow> \<forall>p\<in>set (snd (sys_step f i s)). forcing p"
  by (auto simp: sys_step_def split: prod.splits dest!: set_update_subset_insert [THEN subsetD]
      intro: forcing_step)

lemma forcing_lc_run:
  "\<forall>p\<in>set (snd s). forcing p \<Longrightarrow> \<forall>p\<in>set (snd (lc_run f sched s k)). forcing p"
  by (induction k) (simp_all add: forcing_sys_step)

lemma finished_lc_run:
  assumes "\<forall>p\<in>set (snd (lc_run f sched s k)). finished p" and "k \<le> j"
  shows "lc_run f sched s j = lc_run f sched s k"
  using assms(2)
proof (induction j)
  case (Suc j)
  show ?case
  proof (cases "k = Suc j")
    case False
    with Suc have "lc_run f sched s j = lc_run f sched s k" by simp
    moreover have "sys_step f i (lc_run f sched s k) = lc_run f sched s k" for i
      using assms(1) sys_step_progress [of i "lc_run f sched s k" f]
      by (cases "i < length (snd s)") (auto simp: idle_def sys_step_def)
    ultimately show ?thesis by simp
  qed simp
qed simp

definition forced_answer :: "'v option \<Rightarrow> 'v answer" where
  "forced_answer f = (case f of Some v \<Rightarrow> Forced v | None \<Rightarrow> Panicked)"

lemma finished_forcing:
  assumes "lc_inv f s" and "p \<in> set (snd s)" "finished p" "forcing p"
  shows "p = Finished (forced_answer f)"
proof -
  from assms(3) obtain a where p: "p = Finished a" by (cases p) auto
  from assms(1,2) have "pc_ok f (fst s) p" and "cell_ok f (fst s)" by (simp_all add: lc_inv_def)
  with assms(4) show ?thesis
    by (cases a) (auto simp: p forced_answer_def cell_ok_def lc_states)
qed

section \<open>The owner of the cell\<close>

definition lc_get_mut :: "'v lazy_cell \<Rightarrow> 'v option outcome" where
  "lc_get_mut c = (if lc_state c = INIT then and_then (lc_inner c) (\<lambda>v. Done (Some v)) else Done None)"

text \<open>A panic of the closure leaves the cell behind, so a panic is an answer here.\<close>

definition lc_init_mut :: "'v option \<Rightarrow> 'v lazy_cell \<Rightarrow> ('v answer \<times> 'v lazy_cell) outcome" where
  "lc_init_mut f c =
     assert_then (lc_state c = UNINIT)
       (if lc_func c
        then let c = c\<lparr>lc_func := False\<rparr>
             in case f of
                  None \<Rightarrow> Done (Panicked, c\<lparr>lc_state := POISONED\<rparr>)
                | Some v \<Rightarrow> (let c = c\<lparr>lc_value := Some v, lc_state := INIT\<rparr>
                            in and_then (lc_inner c) (\<lambda>v. Done (Forced v, c)))
        else Undef)"

definition lc_force_mut :: "'v option \<Rightarrow> 'v lazy_cell \<Rightarrow> ('v answer \<times> 'v lazy_cell) outcome" where
  "lc_force_mut f c =
     (if lc_state c = INIT then and_then (lc_inner c) (\<lambda>v. Done (Forced v, c))
      else if lc_state c = UNINIT then lc_init_mut f c
      else if lc_state c = POISONED then Done (Panicked, c)
      else Done (Unreachable, c))"

text \<open>\<open>drop\<close>: whether the closure is dropped, and the values that are.\<close>

definition lc_drop :: "'v lazy_cell \<Rightarrow> (bool \<times> 'v list) outcome" where
  "lc_drop c =
     (if lc_state c = UNINIT then (if lc_func c then Done (True, []) else Undef)
      else if lc_state c = INIT then and_then (lc_inner c) (\<lambda>v. Done (False, [v]))
      else Done (False, []))"

text \<open>\<open>into_inner\<close> takes the cell by value, so the cell is dropped at its end.\<close>

definition lc_into_inner :: "'v lazy_cell \<Rightarrow> ('v option \<times> bool \<times> 'v list) outcome" where
  "lc_into_inner c =
     (if lc_state c = INIT
      then let c' = c\<lparr>lc_state := POISONED, lc_value := None\<rparr>
           in and_then (lc_inner c) (\<lambda>v. and_then (lc_drop c') (\<lambda>(fd, vd). Done (Some v, fd, vd)))
      else and_then (lc_drop c) (\<lambda>(fd, vd). Done (None, fd, vd)))"

lemma settled_cell:
  assumes "lc_inv f s" and "\<forall>p\<in>set (snd s). finished p"
  shows "(lc_state (fst s) = UNINIT \<and> lc_func (fst s) \<and> lc_value (fst s) = None) \<or>
    (lc_state (fst s) = INIT \<and> \<not> lc_func (fst s) \<and> f \<noteq> None \<and> lc_value (fst s) = f) \<or>
    (lc_state (fst s) = POISONED \<and> \<not> lc_func (fst s) \<and> f = None \<and> lc_value (fst s) = None)"
proof -
  have "\<not> initialising p" if "p \<in> set (snd s)" for p using assms(2) that by (cases p) auto
  then have "filter initialising (snd s) = []" by (simp add: filter_empty_conv)
  with assms(1) show ?thesis by (auto simp: lc_inv_def cell_ok_def split: if_splits)
qed

definition answer_ok :: "'v option \<Rightarrow> 'v lazy_cell \<Rightarrow> 'v pc \<Rightarrow> bool" where
  "answer_ok f c p \<longleftrightarrow> p \<noteq> Finished Undefined \<and> p \<noteq> Finished Unreachable \<and>
     (p = Finished Panicked \<longrightarrow> f = None \<and> lc_state c = POISONED) \<and>
     (\<forall>v. p = Finished (Forced v) \<or> p = Finished (Got (Some v)) \<longrightarrow> f = Some v \<and> lc_value c = Some v)"

lemma pc_ok_answer: "cell_ok f c \<Longrightarrow> pc_ok f c p \<Longrightarrow> answer_ok f c p"
  by (induction f c p rule: pc_ok.induct) (auto simp: answer_ok_def cell_ok_def lc_states)

section \<open>Properties\<close>

text \<open>C16: In every interleaving of threads that get or force a lazily initialised cell, at most
  one thread is initialising it, none reads an unwritten value or reaches the unreachable
  branch, a thread panics only when the closure panicked and the cell is poisoned, and whoever
  obtains a value obtains the one the closure returned.\<close>

theorem lazy_cell_shared_safe:
  assumes "reachable f s"
  shows "length (filter initialising (snd s)) \<le> 1 \<and>
    (\<forall>p\<in>set (snd s). p \<noteq> Finished Undefined \<and> p \<noteq> Finished Unreachable \<and>
      (p = Finished Panicked \<longrightarrow> f = None \<and> lc_state (fst s) = POISONED) \<and>
      (\<forall>v. p = Finished (Forced v) \<or> p = Finished (Got (Some v)) \<longrightarrow>
        f = Some v \<and> lc_value (fst s) = Some v))"
proof -
  from reachable_lc_inv [OF assms] have inv: "lc_inv f s" .
  then have "cell_ok f (fst s)" and "\<forall>p\<in>set (snd s). pc_ok f (fst s) p" by (simp_all add: lc_inv_def)
  then have "\<forall>p\<in>set (snd s). answer_ok f (fst s) p" using pc_ok_answer by blast
  moreover have "length (filter initialising (snd s)) \<le> 1" using inv by (simp add: lc_inv_def)
  ultimately show ?thesis by (simp add: answer_ok_def)
qed

theorem lazy_cell_shared_safe_witness:
  "snd (lc_run (Some (7 :: nat)) (\<lambda>k. k mod 2) (lc_new, [Force, Get]) 12) = [Finished (Forced 7), Finished (Got None)] \<and>
    lc_value (fst (lc_run (Some (7 :: nat)) (\<lambda>k. k mod 2) (lc_new, [Force, Get]) 12)) = Some 7"
proof -
  let ?s = "lc_run (Some (7 :: nat)) (\<lambda>k. k mod 2) (lc_new, [Force, Get]) 12"
  have "reachable (Some 7) ?s" by (intro reachable_lc_run reachable.start) simp
  from lazy_cell_shared_safe [OF this] have "lc_value (fst ?s) = Some 7" if "snd ?s ! 0 = Finished (Forced 7)"
    "0 < length (snd ?s)" using that by (metis nth_mem)
  moreover have "snd ?s = [Finished (Forced 7), Finished (Got None)]"
    by code_simp
  ultimately show ?thesis by simp
qed

text \<open>C17: Under every fair schedule all of the threads that force a new cell return, every one
  with the value of the closure, or with a panic when the closure panics.\<close>

theorem lazy_cell_force_returns:
  assumes "fair n sched"
  shows "\<exists>k. \<forall>j\<ge>k. snd (lc_run f sched (lc_new, replicate n Force) j) = replicate n (Finished (forced_answer f))"
proof -
  let ?s = "(lc_new, replicate n Force) :: 'a system"
  have r: "reachable f ?s" by (rule reachable.start) auto
  obtain k where k: "\<forall>p\<in>set (snd (lc_run f sched ?s k)). finished p"
    using fair_terminates [OF r, of sched 0] assms by auto
  have "lc_inv f (lc_run f sched ?s k)" by (intro reachable_lc_inv reachable_lc_run r)
  moreover have "\<forall>p\<in>set (snd (lc_run f sched ?s k)). forcing p" by (rule forcing_lc_run) simp
  ultimately have "\<forall>p\<in>set (snd (lc_run f sched ?s k)). p = Finished (forced_answer f)"
    using k finished_forcing by blast
  then have "snd (lc_run f sched ?s k) = replicate n (Finished (forced_answer f))"
    by (intro replicate_eqI) simp_all
  with finished_lc_run [OF k] show ?thesis by metis
qed

theorem lazy_cell_force_returns_witness:
  "\<exists>k. \<forall>j\<ge>k. snd (lc_run (Some (7 :: nat)) (\<lambda>k. k mod 2) (lc_new, replicate 2 Force) j) =
    replicate 2 (Finished (Forced 7))"
proof -
  have "fair 2 (\<lambda>k. k mod 2)"
    unfolding fair_def
  proof (intro allI impI)
    fix i k :: nat
    assume "i < 2"
    then show "\<exists>j\<ge>k. j mod 2 = i" by (intro exI [of _ "2 * k + i"]) auto
  qed
  from lazy_cell_force_returns [OF this, of "Some 7"] show ?thesis by (simp add: forced_answer_def)
qed

theorem lazy_cell_owner_exact:
  assumes "reachable f (c, ps)" and "\<forall>p\<in>set ps. finished p"
  shows "lc_drop c = Done (lc_func c, case lc_value c of None \<Rightarrow> [] | Some v \<Rightarrow> [v]) \<and>
    lc_into_inner c = Done (lc_value c, lc_func c, []) \<and>
    (\<exists>c'. lc_force_mut f c = Done (forced_answer f, c') \<and>
      lc_drop c' = Done (False, case f of None \<Rightarrow> [] | Some v \<Rightarrow> [v]))"
  using settled_cell [OF reachable_lc_inv [OF assms(1)]] assms(2)
  by (cases f)
    (auto simp: lc_states lc_drop_def lc_into_inner_def lc_force_mut_def lc_init_mut_def lc_inner_def
      forced_answer_def)

theorem lazy_cell_owner_exact_witness:
  "lc_drop (lc_new :: nat lazy_cell) = Done (True, []) \<and>
    lc_into_inner (lc_new :: nat lazy_cell) = Done (None, True, []) \<and>
    (\<exists>c'. lc_force_mut (Some (7 :: nat)) lc_new = Done (Forced 7, c') \<and> lc_drop c' = Done (False, [7]))"
proof -
  have "reachable (Some (7 :: nat)) (lc_new, [])" by (rule reachable.start) simp
  from lazy_cell_owner_exact [OF this] show ?thesis by (simp add: lc_new_def forced_answer_def)
qed

end
