(* ===== verification/Float64.thy ===== *)
theory Float64
  imports Complex_Main Prelude
begin

text \<open>
  The part of Rust's \<open>f64\<close> that \<open>metrics/src/ddsketch.rs\<close> uses.  A value is a real number, an
  infinity or not a number; zeros have no sign here, a quotient by zero taking the sign of its
  numerator.  IEEE 754 defines the arithmetic operations as the exact result rounded
  (\<open>fp_round\<close>, which also overflows to an infinity); the logarithm is the one of the platform
  (\<open>fp_ln\<close>).  Both are fields of a record that the operations take; \<open>fp_laws\<close> states what the
  proofs rely on, and \<open>fp_exact\<close> is the arithmetic without rounding.
\<close>

section \<open>Values and operations\<close>

datatype f64 = NaN | PInf | NInf | Fin real

record fpu =
  fp_round :: "real \<Rightarrow> f64"
  fp_ln :: "real \<Rightarrow> f64"

definition fp_exact :: fpu where
  "fp_exact = \<lparr>fp_round = Fin, fp_ln = (\<lambda>r. Fin (ln r))\<rparr>"

fun f_neg :: "f64 \<Rightarrow> f64" where
  "f_neg NaN = NaN"
| "f_neg PInf = NInf"
| "f_neg NInf = PInf"
| "f_neg (Fin r) = Fin (- r)"

fun f_add :: "fpu \<Rightarrow> f64 \<Rightarrow> f64 \<Rightarrow> f64" where
  "f_add fp (Fin r) (Fin s) = fp_round fp (r + s)"
| "f_add fp NaN y = NaN"
| "f_add fp x NaN = NaN"
| "f_add fp PInf NInf = NaN"
| "f_add fp NInf PInf = NaN"
| "f_add fp PInf y = PInf"
| "f_add fp NInf y = NInf"
| "f_add fp x y = y"

definition f_sub :: "fpu \<Rightarrow> f64 \<Rightarrow> f64 \<Rightarrow> f64" where
  "f_sub fp x y = f_add fp x (f_neg y)"

definition f_inf :: "bool \<Rightarrow> f64" where
  "f_inf pos = (if pos then PInf else NInf)"

fun f_mul :: "fpu \<Rightarrow> f64 \<Rightarrow> f64 \<Rightarrow> f64" where
  "f_mul fp (Fin r) (Fin s) = fp_round fp (r * s)"
| "f_mul fp NaN y = NaN"
| "f_mul fp x NaN = NaN"
| "f_mul fp PInf PInf = PInf"
| "f_mul fp PInf NInf = NInf"
| "f_mul fp NInf PInf = NInf"
| "f_mul fp NInf NInf = PInf"
| "f_mul fp PInf (Fin s) = (if s = 0 then NaN else f_inf (0 < s))"
| "f_mul fp NInf (Fin s) = (if s = 0 then NaN else f_inf (s < 0))"
| "f_mul fp (Fin r) PInf = (if r = 0 then NaN else f_inf (0 < r))"
| "f_mul fp (Fin r) NInf = (if r = 0 then NaN else f_inf (r < 0))"

fun f_div :: "fpu \<Rightarrow> f64 \<Rightarrow> f64 \<Rightarrow> f64" where
  "f_div fp (Fin r) (Fin s) =
     (if s = 0 then if r = 0 then NaN else f_inf (0 < r) else fp_round fp (r / s))"
| "f_div fp NaN y = NaN"
| "f_div fp x NaN = NaN"
| "f_div fp (Fin r) y = Fin 0"
| "f_div fp PInf (Fin s) = f_inf (0 \<le> s)"
| "f_div fp NInf (Fin s) = f_inf (s < 0)"
| "f_div fp x y = NaN"

fun f_lt :: "f64 \<Rightarrow> f64 \<Rightarrow> bool" where
  "f_lt (Fin r) (Fin s) = (r < s)"
| "f_lt NInf PInf = True"
| "f_lt NInf (Fin s) = True"
| "f_lt (Fin r) PInf = True"
| "f_lt _ _ = False"

definition f_le :: "f64 \<Rightarrow> f64 \<Rightarrow> bool" where
  "f_le x y \<longleftrightarrow> f_lt x y \<or> (x = y \<and> x \<noteq> NaN)"

text \<open>\<open>f64::log\<close> is the quotient of two natural logarithms.\<close>

fun f_ln :: "fpu \<Rightarrow> f64 \<Rightarrow> f64" where
  "f_ln fp (Fin r) = (if r < 0 then NaN else if r = 0 then NInf else fp_ln fp r)"
| "f_ln fp PInf = PInf"
| "f_ln fp NInf = NaN"
| "f_ln fp NaN = NaN"

definition f_log :: "fpu \<Rightarrow> f64 \<Rightarrow> f64 \<Rightarrow> f64" where
  "f_log fp x base = f_div fp (f_ln fp x) (f_ln fp base)"

text \<open>Rounding to an integer upwards, and to the nearest with ties away from zero.  The integer
  parts of representable numbers are representable.\<close>

fun f_ceil :: "f64 \<Rightarrow> f64" where
  "f_ceil (Fin r) = Fin (of_int \<lceil>r\<rceil>)"
| "f_ceil x = x"

fun f_nearest :: "f64 \<Rightarrow> f64" where
  "f_nearest (Fin r) = Fin (of_int (if 0 \<le> r then \<lfloor>r + 1 / 2\<rfloor> else \<lceil>r - 1 / 2\<rceil>))"
| "f_nearest x = x"

text \<open>The casts \<open>as f64\<close> from \<open>u64\<close>, and \<open>as u64\<close> or \<open>as usize\<close>, which truncates and
  saturates.\<close>

definition f_of_u64 :: "fpu \<Rightarrow> u64 \<Rightarrow> f64" where
  "f_of_u64 fp n = fp_round fp (real (unat n))"

fun f_to_nat :: "f64 \<Rightarrow> nat" where
  "f_to_nat (Fin r) = min (2 ^ 64 - 1) (nat \<lfloor>r\<rfloor>)"
| "f_to_nat PInf = 2 ^ 64 - 1"
| "f_to_nat _ = 0"

section \<open>What the proofs rely on\<close>

text \<open>
  Rounding is monotone and leaves what it produces unchanged; 0 and 1 are representable.  The
  logarithm is monotone, not positive up to 1, where it is 0, and positive above.
\<close>

definition fp_laws :: "fpu \<Rightarrow> bool" where
  "fp_laws fp \<longleftrightarrow>
     (\<forall>r s. r \<le> s \<longrightarrow> f_le (fp_round fp r) (fp_round fp s)) \<and>
     (\<forall>r s. fp_round fp r = Fin s \<longrightarrow> fp_round fp s = Fin s) \<and>
     fp_round fp 0 = Fin 0 \<and> fp_round fp 1 = Fin 1 \<and>
     (\<forall>r s. 0 < r \<longrightarrow> r \<le> s \<longrightarrow> f_le (fp_ln fp r) (fp_ln fp s)) \<and>
     (\<forall>r. 0 < r \<longrightarrow> (\<exists>s. fp_ln fp r = Fin s)) \<and>
     (\<forall>r. 0 < r \<longrightarrow> r \<le> 1 \<longrightarrow> f_le (fp_ln fp r) (Fin 0)) \<and>
     fp_ln fp 1 = Fin 0 \<and>
     (\<forall>r. 1 < r \<longrightarrow> f_lt (Fin 0) (fp_ln fp r))"

lemma fp_exact_laws: "fp_laws fp_exact"
  by (auto simp: fp_laws_def fp_exact_def f_le_def le_less)

lemma f_le_refl: "x \<noteq> NaN \<Longrightarrow> f_le x x"
  by (simp add: f_le_def)

lemma f_le_Fin [simp]: "f_le (Fin r) (Fin s) \<longleftrightarrow> r \<le> s"
  by (auto simp: f_le_def)

lemma f_le_trans: "f_le x y \<Longrightarrow> f_le y z \<Longrightarrow> f_le x z"
  by (cases x; cases y; cases z) (auto simp: f_le_def)

lemma f_le_not_NaN: "f_le x y \<Longrightarrow> x \<noteq> NaN \<and> y \<noteq> NaN"
  by (cases x; cases y) (auto simp: f_le_def)

lemma f_ceil_mono: "f_le x y \<Longrightarrow> f_le (f_ceil x) (f_ceil y)"
proof (cases "\<exists>r s. x = Fin r \<and> y = Fin s")
  case True
  then show "f_le x y \<Longrightarrow> f_le (f_ceil x) (f_ceil y)" by (auto intro: ceiling_mono)
qed (cases x; cases y; auto simp: f_le_def)

lemma f_to_nat_mono: "f_le x y \<Longrightarrow> f_to_nat x \<le> f_to_nat y"
proof (cases x; cases y)
  fix r s
  assume "f_le x y" "x = Fin r" "y = Fin s"
  then have "nat \<lfloor>r\<rfloor> \<le> nat \<lfloor>s\<rfloor>" by (simp add: nat_mono floor_mono)
  with \<open>x = Fin r\<close> \<open>y = Fin s\<close> show ?thesis by (simp add: min.coboundedI2)
qed (auto simp: f_le_def)

end
