(* ===== verification/Sketch.thy ===== *)
theory Sketch
  imports Float64
begin

text \<open>
  \<open>metrics/src/ddsketch.rs\<close>: a histogram whose buckets are one value wide up to a cut-off and
  grow by the factor \<open>gamma\<close> above it.  Counters are 64-bit words with saturating addition; the
  operations are taken one at a time, and the retries of the exchange loop of
  \<open>saturating_add\<close> are the list of values its failing exchanges observe.  \<open>dbg\<close> tells a debug
  build, where an overflow of \<open>+\<close> or \<open>-\<close> panics, from a release build, where it wraps.
\<close>

section \<open>Machine arithmetic\<close>

definition usize_plus :: "bool \<Rightarrow> nat \<Rightarrow> nat \<Rightarrow> nat outcome" where
  "usize_plus dbg a b =
     (if a + b < 2 ^ 64 then Done (a + b) else if dbg then Panic else Done ((a + b) mod 2 ^ 64))"

definition usize_pred :: "bool \<Rightarrow> nat \<Rightarrow> nat outcome" where
  "usize_pred dbg a = (if 0 < a then Done (a - 1) else if dbg then Panic else Done (2 ^ 64 - 1))"

definition u64_plus :: "bool \<Rightarrow> u64 \<Rightarrow> u64 \<Rightarrow> u64 outcome" where
  "u64_plus dbg a b = (if dbg \<and> 2 ^ 64 \<le> unat a + unat b then Panic else Done (a + b))"

definition sat_add :: "u64 \<Rightarrow> u64 \<Rightarrow> u64" where
  "sat_add a b = (if unat a + unat b < 2 ^ 64 then a + b else - 1)"

lemma unat_sat_add: "unat (sat_add a b) = min (2 ^ 64 - 1) (unat a + unat b)"
proof -
  have "unat (- 1 :: u64) = 2 ^ 64 - 1" by (simp add: unsigned_minus_1_eq_mask mask_eq_exp_minus_1)
  then show ?thesis by (auto simp: sat_add_def unat_word_ariths)
qed

lemma sat_add_0 [simp]: "sat_add a 0 = a"
  using unsigned_less [of a, where 'a = nat] by (simp add: sat_add_def)

lemma sat_add_assoc: "sat_add (sat_add a b) c = sat_add a (sat_add b c)"
  by (rule word_unat_eq_iff [THEN iffD2]) (simp add: unat_sat_add min_def)

text \<open>The exchange loop: each failing exchange hands over the value it found; the result is the
  value that was replaced and what replaced it.\<close>

fun saturating_add_loop :: "u64 \<Rightarrow> u64 \<Rightarrow> u64 \<Rightarrow> u64 list \<Rightarrow> u64 \<times> u64" where
  "saturating_add_loop val expected target [] = (expected, target)"
| "saturating_add_loop val expected target (v # vs) = saturating_add_loop val v (sat_add v val) vs"

definition saturating_add :: "u64 \<Rightarrow> u64 \<Rightarrow> u64 list \<Rightarrow> u64 \<times> u64" where
  "saturating_add ctr val found = saturating_add_loop val ctr (sat_add ctr val) found"

lemma saturating_add_eq:
  "saturating_add ctr val found = (let old = last (ctr # found) in (old, sat_add old val))"
proof -
  have "saturating_add_loop val e (sat_add e val) found = (last (e # found), sat_add (last (e # found)) val)" for e
    by (induction found arbitrary: e) simp_all
  then show ?thesis by (simp add: saturating_add_def Let_def)
qed

lemma saturating_add_alone [simp]: "snd (saturating_add ctr val []) = sat_add ctr val"
  by (simp add: saturating_add_eq)

function ipow :: "fpu \<Rightarrow> f64 \<Rightarrow> nat \<Rightarrow> f64" where
  "ipow fp x e =
     (if e = 0 then Fin 1
      else if e = 1 then x
      else if even e then ipow fp (f_mul fp x x) (e div 2)
      else f_mul fp x (ipow fp (f_mul fp x x) (e div 2)))"
  by pat_completeness auto
termination
  by (relation "measure (\<lambda>(fp, x, e). e)") auto

declare ipow.simps [simp del]

lemma ipow_exact: "ipow fp_exact (Fin x) e = Fin (x ^ e)"
proof (induction e arbitrary: x rule: less_induct)
  case (less e)
  have m: "f_mul fp_exact (Fin a) (Fin b) = Fin (a * b)" for a b by (simp add: fp_exact_def)
  show ?case
  proof (cases "e \<le> 1")
    case True
    then have "e = 0 \<or> e = 1" by auto
    then show ?thesis by (subst ipow.simps) auto
  next
    case False
    then have IH: "ipow fp_exact (Fin (x * x)) (e div 2) = Fin ((x * x) ^ (e div 2))"
      by (intro less) simp
    have sq: "(x * x) ^ k = x ^ (2 * k)" for k by (simp add: power_mult power2_eq_square)
    from False have "ipow fp_exact (Fin x) e =
        (if even e then ipow fp_exact (Fin (x * x)) (e div 2)
         else f_mul fp_exact (Fin x) (ipow fp_exact (Fin (x * x)) (e div 2)))"
      by (subst ipow.simps) (simp add: m del: f_mul.simps)
    also have "\<dots> = Fin (if even e then x ^ (2 * (e div 2)) else x * x ^ (2 * (e div 2)))"
      by (simp add: IH m sq del: f_mul.simps)
    also have "\<dots> = Fin (x ^ e)"
      by (cases "even e") (simp_all add: power_Suc [symmetric] del: power_Suc)
    finally show ?thesis .
  qed
qed

section \<open>The sketch\<close>

record sketch =
  sk_buckets :: "u64 list"
  sk_gamma :: f64
  sk_cutoff :: nat
  sk_count :: u64
  sk_limit :: u64
  sk_min :: u64
  sk_max :: u64

text \<open>The constructor; the vector cannot be allocated beyond \<open>isize::MAX\<close> bytes.\<close>

definition sk_with_limit :: "bool \<Rightarrow> fpu \<Rightarrow> u64 \<Rightarrow> f64 \<Rightarrow> sketch outcome" where
  "sk_with_limit dbg fp limit alpha =
     assert_then (f_lt (Fin 0) alpha \<and> f_lt alpha (Fin 1))
       (let gamma = f_div fp (f_add fp (Fin 1) alpha) (f_sub fp (Fin 1) alpha);
            log_gamma_m1 = f_log fp (f_sub fp gamma (Fin 1)) gamma;
            log_limit = f_ceil (f_log fp (f_of_u64 fp limit) gamma);
            cutoff = f_ceil (f_neg log_gamma_m1);
            rest = f_ceil (f_sub fp (f_log fp (f_of_u64 fp limit) gamma) log_gamma_m1)
        in and_then
             (if f_le log_limit cutoff then usize_plus dbg (f_to_nat log_limit) 2
              else and_then (usize_plus dbg (f_to_nat cutoff) (f_to_nat rest)) (\<lambda>n. usize_plus dbg n 2))
             (\<lambda>num. and_then (if limit = - 1 then usize_pred dbg num else Done num) (\<lambda>num.
               assert_then (8 * num < 2 ^ 63)
                 (and_then (usize_plus dbg (f_to_nat cutoff) 1) (\<lambda>cutoff.
                    Done \<lparr>sk_buckets = replicate num 0, sk_gamma = gamma, sk_cutoff = cutoff,
                      sk_count = 0, sk_limit = limit, sk_min = - 1, sk_max = 0\<rparr>)))))"

definition sk_new :: "bool \<Rightarrow> fpu \<Rightarrow> f64 \<Rightarrow> sketch outcome" where
  "sk_new dbg fp alpha = sk_with_limit dbg fp (- 1) alpha"

definition sk_num_buckets :: "sketch \<Rightarrow> nat" where
  "sk_num_buckets s = length (sk_buckets s)"

definition sk_index_of :: "bool \<Rightarrow> fpu \<Rightarrow> sketch \<Rightarrow> u64 \<Rightarrow> nat outcome" where
  "sk_index_of dbg fp s value =
     (if sk_limit s < value then usize_pred dbg (length (sk_buckets s))
      else if unat value < sk_cutoff s then Done (unat value)
      else usize_plus dbg (f_to_nat (f_ceil (f_log fp (f_of_u64 fp value) (sk_gamma s)))) 1)"

definition sk_insert_n :: "bool \<Rightarrow> fpu \<Rightarrow> sketch \<Rightarrow> u64 \<Rightarrow> u64 \<Rightarrow> sketch outcome" where
  "sk_insert_n dbg fp s value n =
     (let s = s\<lparr>sk_max := max (sk_max s) value\<rparr>;
          s = s\<lparr>sk_min := min (sk_min s) value\<rparr>;
          s = s\<lparr>sk_count := snd (saturating_add (sk_count s) n [])\<rparr>
      in and_then (sk_index_of dbg fp s value) (\<lambda>i.
           if i < length (sk_buckets s)
           then Done (s\<lparr>sk_buckets := (sk_buckets s)[i := snd (saturating_add (sk_buckets s ! i) n [])]\<rparr>)
           else Panic))"

definition sk_insert :: "bool \<Rightarrow> fpu \<Rightarrow> sketch \<Rightarrow> u64 \<Rightarrow> sketch outcome" where
  "sk_insert dbg fp s value = sk_insert_n dbg fp s value 1"

definition sk_clear :: "sketch \<Rightarrow> sketch" where
  "sk_clear s = s\<lparr>sk_min := - 1, sk_max := 0, sk_count := 0, sk_buckets := map (\<lambda>_. 0) (sk_buckets s)\<rparr>"

definition sk_too_high :: "sketch \<Rightarrow> u64 outcome" where
  "sk_too_high s =
     (if sk_limit s = - 1 then Done 0
      else if sk_buckets s = [] then Panic else Done (last (sk_buckets s)))"

text \<open>The first bucket up to which there are more than \<open>rank\<close> samples.\<close>

fun find_bucket :: "bool \<Rightarrow> u64 \<Rightarrow> u64 list \<Rightarrow> nat \<Rightarrow> u64 \<Rightarrow> nat option outcome" where
  "find_bucket dbg rank [] i acc = Done None"
| "find_bucket dbg rank (n # ns) i acc =
     and_then (u64_plus dbg acc n) (\<lambda>acc.
       if acc \<le> rank then find_bucket dbg rank ns (i + 1) acc else Done (Some i))"

definition sk_estimate :: "fpu \<Rightarrow> sketch \<Rightarrow> nat \<Rightarrow> u64" where
  "sk_estimate fp s index =
     max (min (of_nat (f_to_nat (f_nearest
         (f_div fp (ipow fp (sk_gamma s) index) (f_mul fp (Fin (1 / 2)) (f_add fp (sk_gamma s) (Fin 1)))))))
       (sk_max s)) (sk_min s)"

definition sk_quantile :: "bool \<Rightarrow> fpu \<Rightarrow> sketch \<Rightarrow> f64 \<Rightarrow> u64 outcome" where
  "sk_quantile dbg fp s q =
     (if q = NaN then Done 0
      else if f_lt q (Fin 0) then Done (sk_min s)
      else if f_le (Fin 1) q then Done (sk_max s)
      else let rank = of_nat (f_to_nat (f_mul fp q (f_of_u64 fp (sk_count s))))
           in and_then (find_bucket dbg rank (sk_buckets s) 0 0) (\<lambda>index.
                case index of
                  None \<Rightarrow> Done (sk_max s)
                | Some idx \<Rightarrow>
                    if idx < sk_cutoff s then Done (sk_estimate fp s idx)
                    else if idx = length (sk_buckets s) - 1 then Done (sk_max s)
                    else Done (sk_estimate fp s (idx - 1))))"

definition sk_merge :: "sketch \<Rightarrow> sketch \<Rightarrow> sketch outcome" where
  "sk_merge s t =
     assert_then (sk_num_buckets s = sk_num_buckets t)
       (Done (s\<lparr>sk_buckets := map2 (\<lambda>x y. snd (saturating_add x y [])) (sk_buckets s) (sk_buckets t),
          sk_count := snd (saturating_add (sk_count s) (sk_count t) []),
          sk_min := min (sk_min s) (sk_min t),
          sk_max := max (sk_max s) (sk_max t)\<rparr>))"

fun sum_u64 :: "bool \<Rightarrow> u64 list \<Rightarrow> u64 \<Rightarrow> u64 outcome" where
  "sum_u64 dbg [] acc = Done acc"
| "sum_u64 dbg (n # ns) acc = and_then (u64_plus dbg acc n) (sum_u64 dbg ns)"

definition sk_rank :: "bool \<Rightarrow> fpu \<Rightarrow> sketch \<Rightarrow> u64 \<Rightarrow> u64 outcome" where
  "sk_rank dbg fp s value =
     and_then (sk_index_of dbg fp s value) (\<lambda>i.
       if i \<le> length (sk_buckets s) then sum_u64 dbg (take i (sk_buckets s)) 0 else Panic)"

text \<open>The trait \<open>Summary\<close>: the rank as a fraction.\<close>

definition summary_rank :: "bool \<Rightarrow> fpu \<Rightarrow> sketch \<Rightarrow> u64 \<Rightarrow> f64 outcome" where
  "summary_rank dbg fp s v =
     and_then (sk_rank dbg fp s v) (\<lambda>r. Done (f_div fp (f_of_u64 fp r) (f_of_u64 fp (sk_count s))))"

section \<open>Streams of samples\<close>

fun sk_insert_all :: "bool \<Rightarrow> fpu \<Rightarrow> sketch \<Rightarrow> (u64 \<times> u64) list \<Rightarrow> sketch outcome" where
  "sk_insert_all dbg fp s [] = Done s"
| "sk_insert_all dbg fp s ((v, n) # xs) =
     and_then (sk_insert_n dbg fp s v n) (\<lambda>s. sk_insert_all dbg fp s xs)"

lemma sk_insert_all_append:
  "sk_insert_all dbg fp s (xs @ ys) = and_then (sk_insert_all dbg fp s xs) (\<lambda>s. sk_insert_all dbg fp s ys)"
proof (induction xs arbitrary: s)
  case (Cons x xs)
  then show ?case by (cases x; cases "sk_insert_n dbg fp s (fst x) (snd x)") simp_all
qed simp

text \<open>What the index of a value depends on.\<close>

definition same_shape :: "sketch \<Rightarrow> sketch \<Rightarrow> bool" where
  "same_shape s t \<longleftrightarrow> length (sk_buckets s) = length (sk_buckets t) \<and> sk_gamma s = sk_gamma t \<and>
     sk_cutoff s = sk_cutoff t \<and> sk_limit s = sk_limit t"

lemma same_shape_index: "same_shape s t \<Longrightarrow> sk_index_of dbg fp s v = sk_index_of dbg fp t v"
  by (simp add: same_shape_def sk_index_of_def)

lemma sk_insert_n_Done:
  "sk_insert_n dbg fp s v n = Done s' \<longleftrightarrow>
     (\<exists>i<length (sk_buckets s). sk_index_of dbg fp s v = Done i \<and>
       s' = s\<lparr>sk_max := max (sk_max s) v, sk_min := min (sk_min s) v, sk_count := sat_add (sk_count s) n,
         sk_buckets := (sk_buckets s)[i := sat_add (sk_buckets s ! i) n]\<rparr>)"
proof -
  have "sk_index_of dbg fp (s\<lparr>sk_max := a, sk_min := b, sk_count := c\<rparr>) v = sk_index_of dbg fp s v" for a b c
    by (simp add: sk_index_of_def)
  then show ?thesis by (auto simp: sk_insert_n_def Let_def and_then_Done_iff split: if_splits)
qed

lemma sk_insert_n_shape: "sk_insert_n dbg fp s v n = Done s' \<Longrightarrow> same_shape s' s"
  by (auto simp: sk_insert_n_Done same_shape_def)

lemma sk_insert_all_shape: "sk_insert_all dbg fp s xs = Done s' \<Longrightarrow> same_shape s' s"
proof (induction xs arbitrary: s)
  case (Cons x xs)
  obtain v n where x: "x = (v, n)" by (cases x)
  with Cons.prems obtain t where "sk_insert_n dbg fp s v n = Done t" "sk_insert_all dbg fp t xs = Done s'"
    by (auto simp: and_then_Done_iff)
  with Cons.IH [of t] sk_insert_n_shape [of dbg fp s v n t] show ?case by (auto simp: same_shape_def)
qed (simp add: same_shape_def)

text \<open>Merging commutes with the insertion of a sample.\<close>

lemma sk_merge_Done:
  "same_shape s t \<Longrightarrow> sk_merge s t = Done (s\<lparr>sk_buckets := map2 sat_add (sk_buckets s) (sk_buckets t),
     sk_count := sat_add (sk_count s) (sk_count t), sk_min := min (sk_min s) (sk_min t),
     sk_max := max (sk_max s) (sk_max t)\<rparr>)"
  by (simp add: sk_merge_def same_shape_def sk_num_buckets_def)

lemma map2_update_right:
  "length xs = length ys \<Longrightarrow> i < length ys \<Longrightarrow> map2 f xs (ys[i := y]) = (map2 f xs ys)[i := f (xs ! i) y]"
  by (rule nth_equalityI) (auto simp: nth_list_update)

lemma sk_merge_insert:
  assumes "same_shape a b" and "sk_insert_n dbg fp b v n = Done b'"
  shows "sk_merge a b' = and_then (sk_merge a b) (\<lambda>m. sk_insert_n dbg fp m v n)"
proof -
  from assms(2) obtain i where i: "i < length (sk_buckets b)" "sk_index_of dbg fp b v = Done i"
    and b': "b' = b\<lparr>sk_max := max (sk_max b) v, sk_min := min (sk_min b) v, sk_count := sat_add (sk_count b) n,
         sk_buckets := (sk_buckets b)[i := sat_add (sk_buckets b ! i) n]\<rparr>"
    by (auto simp: sk_insert_n_Done)
  obtain m where m: "sk_merge a b = Done m" and sm: "same_shape m b"
    and m_eq: "m = a\<lparr>sk_buckets := map2 sat_add (sk_buckets a) (sk_buckets b),
     sk_count := sat_add (sk_count a) (sk_count b), sk_min := min (sk_min a) (sk_min b),
     sk_max := max (sk_max a) (sk_max b)\<rparr>"
    using sk_merge_Done [OF assms(1)] assms(1) by (auto simp: same_shape_def)
  have len: "length (sk_buckets a) = length (sk_buckets b)" using assms(1) by (simp add: same_shape_def)
  have ab: "same_shape a b'" using assms(1) by (simp add: same_shape_def b')
  have "sk_insert_n dbg fp m v n = Done (m\<lparr>sk_max := max (sk_max m) v, sk_min := min (sk_min m) v,
      sk_count := sat_add (sk_count m) n, sk_buckets := (sk_buckets m)[i := sat_add (sk_buckets m ! i) n]\<rparr>)"
    using i same_shape_index [OF sm, of dbg fp v] sm by (simp add: sk_insert_n_Done same_shape_def)
  also have "\<dots> = sk_merge a b'"
    using i len by (simp add: sk_merge_Done [OF ab])
      (simp add: m_eq b' map2_update_right sat_add_assoc max.assoc min.assoc)
  finally show ?thesis by (simp add: m)
qed

lemma sk_merge_insert_all:
  assumes "same_shape a b" and "sk_insert_all dbg fp b ys = Done b'"
  shows "sk_merge a b' = and_then (sk_merge a b) (\<lambda>m. sk_insert_all dbg fp m ys)"
  using assms
proof (induction ys arbitrary: b)
  case Nil
  then show ?case by (cases "sk_merge a b") simp_all
next
  case (Cons x ys)
  obtain v n where x: "x = (v, n)" by (cases x)
  with Cons.prems obtain t where t: "sk_insert_n dbg fp b v n = Done t" "sk_insert_all dbg fp t ys = Done b'"
    by (auto simp: and_then_Done_iff)
  have "same_shape a t" using sk_insert_n_shape [OF t(1)] Cons.prems(1) by (simp add: same_shape_def)
  from Cons.IH [OF this t(2)] sk_merge_insert [OF Cons.prems(1) t(1)] show ?case
    by (cases "sk_merge a b") (simp_all add: x)
qed

text \<open>A sketch without samples.\<close>

definition sk_fresh :: "sketch \<Rightarrow> bool" where
  "sk_fresh s \<longleftrightarrow> (\<forall>i<length (sk_buckets s). sk_buckets s ! i = 0) \<and> sk_count s = 0 \<and> sk_min s = - 1 \<and> sk_max s = 0"

lemma sk_with_limit_fresh: "sk_with_limit dbg fp limit alpha = Done s \<Longrightarrow> sk_fresh s"
  by (auto simp: sk_with_limit_def Let_def and_then_Done_iff assert_then_def sk_fresh_def split: if_splits)

lemma sk_clear_fresh: "sk_fresh (sk_clear s)" and sk_clear_shape: "same_shape (sk_clear s) s"
  by (simp_all add: sk_fresh_def sk_clear_def same_shape_def)

lemma sk_merge_fresh:
  assumes "same_shape a s" and "sk_fresh s"
  shows "sk_merge a s = Done a"
proof -
  have "sk_buckets s = replicate (length (sk_buckets a)) 0"
    using assms by (intro nth_equalityI) (simp_all add: sk_fresh_def same_shape_def)
  then have "map2 sat_add (sk_buckets a) (sk_buckets s) = sk_buckets a"
    by (intro nth_equalityI) simp_all
  moreover have "min x (- 1) = x" and "max x 0 = x" for x :: u64
    by (simp_all add: min_absorb1 max_absorb1)
  ultimately show ?thesis using assms(2) by (simp add: sk_merge_Done [OF assms(1)] sk_fresh_def)
qed

section \<open>Where a sample goes\<close>

definition samples_total :: "(u64 \<times> u64) list \<Rightarrow> nat" where
  "samples_total xs = sum_list (map (unat \<circ> snd) xs)"

lemma min_add_min: "min m (min m a + b) = min m (a + b :: nat)"
  by (simp add: min_def)

definition samples_at :: "bool \<Rightarrow> fpu \<Rightarrow> sketch \<Rightarrow> (u64 \<times> u64) list \<Rightarrow> nat \<Rightarrow> nat" where
  "samples_at dbg fp s xs i =
     sum_list (map (unat \<circ> snd) (filter (\<lambda>x. sk_index_of dbg fp s (fst x) = Done i) xs))"

definition sk_covers :: "bool \<Rightarrow> fpu \<Rightarrow> sketch \<Rightarrow> bool" where
  "sk_covers dbg fp s \<longleftrightarrow> (\<forall>v. \<exists>i<length (sk_buckets s). sk_index_of dbg fp s v = Done i)"

lemma sk_insert_all_counts:
  assumes "sk_covers dbg fp s"
  shows "\<exists>s'. sk_insert_all dbg fp s xs = Done s' \<and> same_shape s' s \<and>
    unat (sk_count s') = min (2 ^ 64 - 1) (unat (sk_count s) + samples_total xs) \<and>
    (\<forall>i<length (sk_buckets s). unat (sk_buckets s' ! i) =
       min (2 ^ 64 - 1) (unat (sk_buckets s ! i) + samples_at dbg fp s xs i))"
  using assms
proof (induction xs arbitrary: s)
  case Nil
  have "unat x = min (2 ^ 64 - 1) (unat x)" for x :: u64
    using unsigned_less [of x, where 'a = nat] by simp
  then show ?case by (simp add: same_shape_def samples_at_def samples_total_def)
next
  case (Cons x xs)
  obtain v n where x: "x = (v, n)" by (cases x)
  obtain j where j: "j < length (sk_buckets s)" "sk_index_of dbg fp s v = Done j"
    using Cons.prems by (auto simp: sk_covers_def)
  then obtain t where t: "sk_insert_n dbg fp s v n = Done t" and t_eq: "sk_count t = sat_add (sk_count s) n"
      "sk_buckets t = (sk_buckets s)[j := sat_add (sk_buckets s ! j) n]"
    by (auto simp: sk_insert_n_Done)
  have ts: "same_shape t s" by (rule sk_insert_n_shape [OF t])
  then have idx: "sk_index_of dbg fp t = sk_index_of dbg fp s" by (auto simp: same_shape_index)
  have "sk_covers dbg fp t" using Cons.prems ts by (simp add: sk_covers_def idx same_shape_def)
  from Cons.IH [OF this] obtain s' where s': "sk_insert_all dbg fp t xs = Done s'" "same_shape s' t"
    "unat (sk_count s') = min (2 ^ 64 - 1) (unat (sk_count t) + samples_total xs)"
    "\<forall>i<length (sk_buckets t). unat (sk_buckets s' ! i) =
       min (2 ^ 64 - 1) (unat (sk_buckets t ! i) + samples_at dbg fp t xs i)" by blast
  have at: "samples_at dbg fp s (x # xs) i = (if i = j then unat n else 0) + samples_at dbg fp t xs i" for i
    by (auto simp: samples_at_def x j(2) idx)
  have "unat (sk_count s') = min (2 ^ 64 - 1) (unat (sk_count s) + samples_total (x # xs))"
    using s'(3) by (simp add: x t_eq unat_sat_add samples_total_def min_add_min)
  moreover have "unat (sk_buckets s' ! i) =
      min (2 ^ 64 - 1) (unat (sk_buckets s ! i) + samples_at dbg fp s (x # xs) i)"
    if "i < length (sk_buckets s)" for i
    using s'(4) that j(1) by (cases "i = j") (simp_all add: at t_eq unat_sat_add min_add_min)
  moreover have "sk_insert_all dbg fp s (x # xs) = Done s'" by (simp add: x t s')
  moreover have "same_shape s' s" using s'(2) ts by (simp add: same_shape_def)
  ultimately show ?case by blast
qed

section \<open>The index of a value is in range\<close>

lemma fp_round_le: "fp_laws fp \<Longrightarrow> r \<le> s \<Longrightarrow> f_le (fp_round fp r) (fp_round fp s)"
  by (simp add: fp_laws_def)

lemma fp_round_fix: "fp_laws fp \<Longrightarrow> fp_round fp r = Fin s \<Longrightarrow> fp_round fp s = Fin s"
  by (simp add: fp_laws_def)

lemma fp_round_0: "fp_laws fp \<Longrightarrow> fp_round fp 0 = Fin 0" and fp_round_1: "fp_laws fp \<Longrightarrow> fp_round fp 1 = Fin 1"
  by (simp_all add: fp_laws_def)

lemma f_le_FinD:
  "f_le (Fin r) y \<Longrightarrow> (\<exists>s\<ge>r. y = Fin s) \<or> y = PInf" "f_le x (Fin r) \<Longrightarrow> (\<exists>s\<le>r. x = Fin s) \<or> x = NInf"
  by (cases y; auto simp: f_le_def) (cases x; auto simp: f_le_def)

lemma fp_ln_base:
  assumes "fp_laws fp" and "1 < g"
  shows "\<exists>lg>0. fp_ln fp g = Fin lg"
proof -
  from assms(2) have "0 < g" by simp
  with assms(1) obtain lg where "fp_ln fp g = Fin lg" unfolding fp_laws_def by blast
  moreover have "f_lt (Fin 0) (fp_ln fp g)" using assms by (simp add: fp_laws_def)
  ultimately show ?thesis by auto
qed

text \<open>The logarithm to a base above 1 of values from 1 upwards.\<close>

lemma f_log_mono:
  assumes fp: "fp_laws fp" and g: "1 < g" and x: "f_le (Fin 1) x" and xy: "f_le x y"
  shows "f_le (Fin 0) (f_log fp x (Fin g)) \<and> f_le (f_log fp x (Fin g)) (f_log fp y (Fin g))"
proof -
  obtain lg where lg: "fp_ln fp g = Fin lg" and lg0: "0 < lg" using fp_ln_base [OF fp] g by blast
  have ln: "fp_ln fp 1 = Fin 0" using fp by (simp add: fp_laws_def)
  have ge0: "f_le (Fin 0) (fp_round fp (a / lg))" if "0 \<le> a" for a
    using fp_round_le [OF fp, of 0 "a / lg"] fp_round_0 [OF fp] lg0 that by simp
  have lnF: "\<exists>a\<ge>0. fp_ln fp r = Fin a" if "1 \<le> r" for r
  proof -
    have "f_le (Fin 0) (fp_ln fp r)" using fp ln that unfolding fp_laws_def by (metis zero_less_one)
    moreover obtain s where "fp_ln fp r = Fin s" using fp \<open>1 \<le> r\<close> by (force simp: fp_laws_def)
    ultimately show ?thesis by simp
  qed
  from f_le_FinD(1) [OF x] show ?thesis
  proof (elim disjE exE conjE)
    fix r assume r: "1 \<le> r" "x = Fin r"
    then obtain a where a: "0 \<le> a" "fp_ln fp r = Fin a" using lnF by blast
    from xy r(2) have "(\<exists>s\<ge>r. y = Fin s) \<or> y = PInf" by (auto dest: f_le_FinD)
    then show ?thesis
    proof (elim disjE exE conjE)
      fix s assume s: "r \<le> s" "y = Fin s"
      with r obtain b where b: "fp_ln fp s = Fin b" using lnF [of s] by auto
      have "f_le (Fin a) (Fin b)" using fp r s a b unfolding fp_laws_def
        by (metis less_le_trans zero_less_one)
      then have "a / lg \<le> b / lg" using lg0 by (simp add: divide_right_mono)
      with fp_round_le [OF fp this] ge0 [OF a(1)] r s a b lg g lg0 show ?thesis
        by (simp add: f_log_def)
    next
      assume "y = PInf"
      moreover have "f_le (fp_round fp (a / lg)) PInf"
        using f_le_not_NaN [OF ge0 [OF a(1)]] by (cases "fp_round fp (a / lg)") (auto simp: f_le_def)
      ultimately show ?thesis using ge0 [OF a(1)] r a lg g lg0 by (simp add: f_log_def f_inf_def)
    qed
  next
    assume "x = PInf"
    with xy have "y = PInf" by (cases y) (auto simp: f_le_def)
    with \<open>x = PInf\<close> g lg lg0 show ?thesis by (simp add: f_log_def f_inf_def f_le_def)
  qed
qed

text \<open>Subtracting a logarithm that is not positive.\<close>

lemma f_log_gamma_nonpos:
  assumes fp: "fp_laws fp" and g: "1 < g" "g \<le> 2"
  shows "f_le (f_log fp (f_sub fp (Fin g) (Fin 1)) (Fin g)) (Fin 0)"
proof -
  obtain lg where lg: "fp_ln fp g = Fin lg" and lg0: "0 < lg" using fp_ln_base [OF fp] g by blast
  have "f_le (Fin 0) (fp_round fp (g - 1))" and "f_le (fp_round fp (g - 1)) (Fin 1)"
    using fp_round_le [OF fp, of 0 "g - 1"] fp_round_le [OF fp, of "g - 1" 1] g
      fp_round_0 [OF fp] fp_round_1 [OF fp] by simp_all
  then obtain r where r: "fp_round fp (g - 1) = Fin r" "0 \<le> r" "r \<le> 1"
    by (cases "fp_round fp (g - 1)") (auto simp: f_le_def)
  then have sub: "f_sub fp (Fin g) (Fin 1) = Fin r" by (simp add: f_sub_def)
  show ?thesis
  proof (cases "r = 0")
    case True
    with sub lg lg0 g show ?thesis by (simp add: f_log_def f_inf_def f_le_def)
  next
    case False
    with r obtain a where a: "fp_ln fp r = Fin a" "a \<le> 0"
      using fp unfolding fp_laws_def by (metis f_le_Fin less_le)
    with lg0 have "a / lg \<le> 0" by (simp add: divide_nonpos_pos)
    from fp_round_le [OF fp this] fp_round_0 [OF fp] False r a sub lg lg0 g show ?thesis
      by (simp add: f_log_def)
  qed
qed

lemma f_sub_nonpos:
  assumes fp: "fp_laws fp" and m: "f_le m (Fin 0)" and x: "f_le (Fin 0) x" "x = fp_round fp r \<or> x = PInf"
  shows "f_le x (f_sub fp x m)"
proof -
  from f_le_FinD(2) [OF m] f_le_FinD(1) [OF x(1)] show ?thesis
  proof (elim disjE exE conjE)
    fix a l assume "a \<le> 0" "m = Fin a" and l: "0 \<le> l" "x = Fin l"
    moreover have "fp_round fp l = Fin l" using x(2) l fp_round_fix [OF fp] by auto
    ultimately show ?thesis using fp_round_le [OF fp, of l "l - a"] by (simp add: f_sub_def)
  qed (simp_all add: f_sub_def f_le_def)
qed

lemma f_log_rounded:
  assumes fp: "fp_laws fp" and g: "1 < g" and x: "f_le (Fin 1) x"
  shows "\<exists>r. f_log fp x (Fin g) = fp_round fp r \<or> f_log fp x (Fin g) = PInf"
proof -
  obtain lg where lg: "fp_ln fp g = Fin lg" and lg0: "0 < lg" using fp_ln_base [OF fp] g by blast
  from f_le_FinD(1) [OF x] show ?thesis
  proof (elim disjE exE conjE)
    fix r assume r: "1 \<le> r" "x = Fin r"
    then obtain a where "fp_ln fp r = Fin a" using fp by (force simp: fp_laws_def)
    with r lg lg0 g show ?thesis by (auto simp: f_log_def)
  qed (use lg lg0 g in \<open>simp add: f_log_def f_inf_def\<close>)
qed

lemma usize_plus_Done:
  "usize_plus dbg a b = Done c \<Longrightarrow> c = a + b \<and> a + b < 2 ^ 64 \<or> c = a + b - 2 ^ 64 \<and> 2 ^ 64 \<le> a + b"
  if "a < 2 ^ 64" "b < 2 ^ 64"
proof -
  assume d: "usize_plus dbg a b = Done c"
  show ?thesis
  proof (cases "a + b < 2 ^ 64")
    case False
    with that have "(a + b) mod 2 ^ 64 = a + b - 2 ^ 64" by (simp add: mod_if)
    with d False show ?thesis by (simp add: usize_plus_def split: if_splits)
  qed (use d in \<open>simp add: usize_plus_def\<close>)
qed

lemma f_to_nat_bound: "f_to_nat x < 2 ^ 64"
  by (cases x) (auto simp: min_def)

lemma sk_with_limit_covers:
  assumes fp: "fp_laws fp" and s: "sk_with_limit dbg fp limit alpha = Done s"
    and g: "sk_gamma s = Fin g" "1 < g" "g \<le> 2"
    and c: "2 \<le> sk_cutoff s" "sk_cutoff s + 1 < length (sk_buckets s)"
  shows "sk_covers dbg fp s"
proof -
  define L where "L = f_log fp (f_of_u64 fp limit) (Fin g)"
  define M where "M = f_log fp (f_sub fp (Fin g) (Fin 1)) (Fin g)"
  define cut where "cut = f_to_nat (f_ceil (f_neg M))"
  define rest where "rest = f_to_nat (f_ceil (f_sub fp L M))"
  have gam: "f_div fp (f_add fp (Fin 1) alpha) (f_sub fp (Fin 1) alpha) = Fin g"
    using s g(1) by (auto simp: sk_with_limit_def Let_def and_then_Done_iff assert_then_def split: if_splits)
  from s obtain num num' where num: "(if f_le (f_ceil L) (f_ceil (f_neg M)) then usize_plus dbg (f_to_nat (f_ceil L)) 2
        else and_then (usize_plus dbg cut rest) (\<lambda>n. usize_plus dbg n 2)) = Done num"
    and num': "(if limit = - 1 then usize_pred dbg num else Done num) = Done num'" "8 * num' < 2 ^ 63"
    and cutoff: "usize_plus dbg cut 1 = Done (sk_cutoff s)"
    and len: "length (sk_buckets s) = num'" and lim: "sk_limit s = limit"
    unfolding sk_with_limit_def gam Let_def L_def [symmetric] M_def [symmetric] cut_def [symmetric] rest_def [symmetric]
    by (auto simp: and_then_Done_iff assert_then_def split: if_splits)
  note bounds = f_to_nat_bound [of "f_ceil L"] f_to_nat_bound [of "f_ceil (f_neg M)", folded cut_def]
    f_to_nat_bound [of "f_ceil (f_sub fp L M)", folded rest_def]
  have cut: "sk_cutoff s = cut + 1" using usize_plus_Done [OF _ _ cutoff] bounds c(1) by auto
  have "num' \<le> num" using num' bounds by (auto simp: usize_pred_def split: if_splits)
  have "\<not> f_le (f_ceil L) (f_ceil (f_neg M))"
  proof
    assume le: "f_le (f_ceil L) (f_ceil (f_neg M))"
    with num usize_plus_Done [of "f_to_nat (f_ceil L)" 2 dbg num] bounds
    have "num \<le> f_to_nat (f_ceil L) + 2" by auto
    moreover have "f_to_nat (f_ceil L) \<le> cut" unfolding cut_def by (rule f_to_nat_mono [OF le])
    ultimately show False using c(2) cut len \<open>num' \<le> num\<close> by simp
  qed
  with num obtain n where n: "usize_plus dbg cut rest = Done n" "usize_plus dbg n 2 = Done num"
    by (auto simp: and_then_Done_iff)
  have n64: "n < 2 ^ 64" using usize_plus_Done [OF _ _ n(1)] bounds by auto
  have "cut + 2 < num" using c(2) cut len \<open>num' \<le> num\<close> by simp
  with usize_plus_Done [OF _ _ n(1)] usize_plus_Done [OF n64 _ n(2)] bounds
  have "num = cut + rest + 2" by auto
  with num' c(1) cut have big: "rest + 2 \<le> num'" by (auto simp: usize_pred_def split: if_splits)
  show ?thesis
    unfolding sk_covers_def
  proof
    fix v
    consider "limit < v" | "v \<le> limit" "unat v < sk_cutoff s" | "v \<le> limit" "sk_cutoff s \<le> unat v"
      by fastforce
    then show "\<exists>i<length (sk_buckets s). sk_index_of dbg fp s v = Done i"
    proof cases
      case 1
      with big len lim show ?thesis by (simp add: sk_index_of_def usize_pred_def)
    next
      case 2
      with c(2) lim show ?thesis by (simp add: sk_index_of_def leD)
    next
      case 3
      have "1 \<le> real (unat v)" using 3(2) c(1) by linarith
      from fp_round_le [OF fp this] have v1: "f_le (Fin 1) (f_of_u64 fp v)"
        unfolding f_of_u64_def fp_round_1 [OF fp] .
      moreover have vl: "f_le (f_of_u64 fp v) (f_of_u64 fp limit)"
        unfolding f_of_u64_def
        by (rule fp_round_le [OF fp]) (use 3(1) word_le_nat_alt in \<open>blast intro: of_nat_mono\<close>)
      ultimately have V: "f_le (Fin 0) L" "f_le (f_log fp (f_of_u64 fp v) (Fin g)) L"
        using f_log_mono [OF fp g(2)] f_le_trans unfolding L_def by blast+
      obtain r where "L = fp_round fp r \<or> L = PInf"
        using f_log_rounded [OF fp g(2) f_le_trans [OF v1 vl]] unfolding L_def by blast
      from f_sub_nonpos [OF fp _ V(1) this, of M] f_log_gamma_nonpos [OF fp g(2,3)]
      have "f_le L (f_sub fp L M)" unfolding M_def by simp
      then have "f_to_nat (f_ceil (f_log fp (f_of_u64 fp v) (Fin g))) \<le> rest"
        unfolding rest_def using V(2) by (intro f_to_nat_mono f_ceil_mono) (rule f_le_trans)
      with big num'(2) len lim 3 g(1) show ?thesis
        by (simp add: sk_index_of_def usize_plus_def leD)
    qed
  qed
qed

section \<open>Quantiles\<close>

lemma u64_plus_small: "unat a + unat b < 2 ^ 64 \<Longrightarrow> u64_plus dbg a b = Done (a + b) \<and> unat (a + b) = unat a + unat b"
  by (simp add: u64_plus_def unat_word_ariths)

definition count_below :: "u64 list \<Rightarrow> nat \<Rightarrow> nat" where
  "count_below ns j = sum_list (map unat (take j ns))"

lemma find_bucket_result:
  assumes "unat acc + sum_list (map unat ns) < 2 ^ 64"
  shows "find_bucket dbg rank ns i acc = Done None \<or>
    (\<exists>j<length ns. find_bucket dbg rank ns i acc = Done (Some (i + j)) \<and>
      (j = 0 \<or> unat acc + count_below ns j \<le> unat rank) \<and> unat rank < unat acc + count_below ns (j + 1))"
  using assms
proof (induction ns arbitrary: acc i)
  case (Cons n ns)
  then have p: "u64_plus dbg acc n = Done (acc + n)" "unat (acc + n) = unat acc + unat n"
    using u64_plus_small [of acc n dbg] by simp_all
  show ?case
  proof (cases "acc + n \<le> rank")
    case True
    with p Cons.prems Cons.IH [of "acc + n" "i + 1"] show ?thesis
      by (fastforce simp: count_below_def word_le_nat_alt intro: exI [of _ "Suc _"])
  next
    case False
    with p show ?thesis by (auto simp: count_below_def word_le_nat_alt intro!: exI [of _ 0])
  qed
qed simp

lemma find_bucket_zeros:
  "acc \<le> rank \<Longrightarrow> find_bucket dbg rank (replicate k 0 @ ns) i acc = find_bucket dbg rank ns (i + k) acc"
  by (induction k arbitrary: i) (use unsigned_less [of acc, where 'a = nat] in \<open>simp_all add: u64_plus_def\<close>)

lemma sk_estimate_bounds: "sk_min s \<le> sk_max s \<Longrightarrow> sk_min s \<le> sk_estimate fp s i \<and> sk_estimate fp s i \<le> sk_max s"
  by (simp add: sk_estimate_def)

definition quantile_rank :: "fpu \<Rightarrow> sketch \<Rightarrow> f64 \<Rightarrow> u64" where
  "quantile_rank fp s q = of_nat (f_to_nat (f_mul fp q (f_of_u64 fp (sk_count s))))"

section \<open>Sketches in exact arithmetic\<close>

lemma ceiling_log:
  fixes g x :: real
  assumes "1 < g" and "g ^ k < x" and "x \<le> g ^ (k + 1)"
  shows "\<lceil>ln x / ln g\<rceil> = int k + 1"
proof -
  have lg: "0 < ln g" using assms(1) by (rule ln_gt_zero)
  have "0 < g ^ k" using assms(1) by simp
  then have "0 < x" using assms(2) by simp
  moreover have "real k * ln g < ln x"
    using assms \<open>0 < x\<close> by (simp add: ln_realpow [symmetric])
  moreover have "ln x \<le> real (k + 1) * ln g"
    using assms \<open>0 < x\<close> by (simp only: ln_realpow [symmetric] ln_le_cancel_iff zero_less_power)
  ultimately show ?thesis using lg by (intro ceiling_unique) (simp_all add: field_simps)
qed

lemma f_of_u64_exact: "f_of_u64 fp_exact n = Fin (real (unat n))"
  by (simp only: f_of_u64_def fp_exact_def fpu.select_convs)

lemma f_log_exact: "0 < x \<Longrightarrow> 1 < g \<Longrightarrow> f_log fp_exact (Fin x) (Fin g) = Fin (ln x / ln g)"
  by (simp add: f_log_def fp_exact_def)

lemma sk_with_limit_exact:
  assumes a: "0 < a" "a < 1" and g: "g = (1 + a) / (1 - a)"
    and limit: "0 < unat limit"
    and A: "\<lceil>ln (real (unat limit)) / ln g\<rceil> = A" and C: "\<lceil>- (ln (g - 1) / ln g)\<rceil> = C"
    and R: "\<lceil>ln (real (unat limit)) / ln g - ln (g - 1) / ln g\<rceil> = R"
    and AC: "C < A" and small: "nat C + nat R < 2 ^ 50"
  shows "sk_with_limit dbg fp_exact limit (Fin a) = Done \<lparr>sk_buckets = replicate (nat C + nat R + (if limit = - 1 then 1 else 2)) 0,
    sk_gamma = Fin g, sk_cutoff = nat C + 1, sk_count = 0, sk_limit = limit, sk_min = - 1, sk_max = 0\<rparr>"
proof -
  have g1: "1 < g" using a by (simp add: g)
  then have lg: "0 < ln g" by simp
  have gam: "f_div fp_exact (f_add fp_exact (Fin 1) (Fin a)) (f_sub fp_exact (Fin 1) (Fin a)) = Fin g"
    using a by (simp add: fp_exact_def f_sub_def g)
  have L: "f_log fp_exact (f_of_u64 fp_exact limit) (Fin g) = Fin (ln (real (unat limit)) / ln g)"
    unfolding f_of_u64_exact by (rule f_log_exact) (use limit g1 in \<open>simp_all only: of_nat_0_less_iff\<close>)
  have M: "f_log fp_exact (f_sub fp_exact (Fin g) (Fin 1)) (Fin g) = Fin (ln (g - 1) / ln g)"
    using f_log_exact [of "g - 1" g] g1 by (simp add: fp_exact_def f_sub_def)
  have S: "f_sub fp_exact (Fin x) (Fin y) = Fin (x - y)" for x y by (simp add: fp_exact_def f_sub_def)
  have n: "f_to_nat (Fin (of_int z)) = nat z" if "nat z < 2 ^ 50" for z using that by simp
  show ?thesis
    unfolding sk_with_limit_def gam Let_def
    unfolding L M
    unfolding S f_neg.simps f_ceil.simps A C R
    using a AC small n [of C] n [of R]
    by (simp add: usize_plus_def usize_pred_def del: f_to_nat.simps)
qed

section \<open>Concrete sketches\<close>

text \<open>\<open>with_limit(4, 0.5)\<close>: the buckets grow by the factor 3.\<close>

definition sk_coarse :: sketch where
  "sk_coarse = \<lparr>sk_buckets = [0, 0, 0], sk_gamma = Fin 3, sk_cutoff = 1, sk_count = 0, sk_limit = 4,
     sk_min = - 1, sk_max = 0\<rparr>"

lemma ceiling_log_3_4: "\<lceil>ln 4 / ln 3 :: real\<rceil> = 2"
  using ceiling_log [of "3 :: real" 1 4] by simp

lemma sk_coarse_made: "sk_with_limit dbg fp_exact 4 (Fin (1 / 2)) = Done sk_coarse"
proof -
  have l2: "0 < ln 2 / ln (3 :: real)" "ln 2 / ln (3 :: real) < 1" by simp_all
  have "ln 4 = 2 * ln (2 :: real)" using ln_realpow [of "2 :: real" 2] by simp
  then have R: "ln 4 / ln 3 - ln 2 / ln (3 :: real) = ln 2 / ln 3" by (simp add: field_simps)
  have "\<lceil>- (ln 2 / ln (3 :: real))\<rceil> = 0" using l2 by (intro ceiling_unique) simp_all
  moreover have "\<lceil>ln 2 / ln (3 :: real)\<rceil> = 1" using l2 by (intro ceiling_unique) simp_all
  ultimately show ?thesis
    using sk_with_limit_exact [of "1 / 2" 3 4 2 0 1 dbg] ceiling_log_3_4 R
    by (simp add: sk_coarse_def numeral_3_eq_3)
qed

text \<open>\<open>with_limit(100, 1/9)\<close>: eight buckets of width 1, then the factor 5/4.\<close>

definition sk_fine :: sketch where
  "sk_fine = \<lparr>sk_buckets = replicate 36 0, sk_gamma = Fin (5 / 4), sk_cutoff = 8, sk_count = 0,
     sk_limit = 100, sk_min = - 1, sk_max = 0\<rparr>"

lemma ceiling_log_fine:
  "\<lceil>ln 100 / ln (5 / 4) :: real\<rceil> = 21" "\<lceil>ln 4 / ln (5 / 4) :: real\<rceil> = 7" "\<lceil>ln 400 / ln (5 / 4) :: real\<rceil> = 27"
  using ceiling_log [of "5 / 4 :: real" 20 100] ceiling_log [of "5 / 4 :: real" 6 4]
    ceiling_log [of "5 / 4 :: real" 26 400]
  by (simp_all add: power_divide divide_simps)

lemma sk_fine_made: "sk_with_limit dbg fp_exact 100 (Fin (1 / 9)) = Done sk_fine"
proof -
  have "ln (1 / 4) = - ln (4 :: real)" by (simp add: ln_div)
  moreover have "ln 100 + ln 4 = ln (400 :: real)" using ln_mult [of "100 :: real" 4] by simp
  then have "ln 100 / ln (5 / 4) + ln 4 / ln (5 / 4) = ln 400 / ln (5 / 4 :: real)"
    by (simp add: add_divide_distrib [symmetric])
  ultimately show ?thesis
    using sk_with_limit_exact [of "1 / 9" "5 / 4" 100 21 7 27 dbg] ceiling_log_fine
    by (simp add: sk_fine_def)
qed

section \<open>Properties\<close>

text \<open>C33: Merging the sketches of two sequences of samples gives the sketch of their
  concatenation, saturated counters, minimum and maximum included.\<close>

theorem sketch_merge_concatenates:
  assumes "sk_fresh s" and "sk_insert_all dbg fp s xs = Done a" and "sk_insert_all dbg fp s ys = Done b"
  shows "\<exists>m. sk_merge a b = Done m \<and> sk_insert_all dbg fp s (xs @ ys) = Done m"
proof -
  have "same_shape a s" using assms(2) by (rule sk_insert_all_shape)
  moreover have "same_shape b s" using assms(3) by (rule sk_insert_all_shape)
  ultimately have "same_shape a b" by (simp add: same_shape_def)
  from sk_merge_Done [OF this] obtain m where "sk_merge a b = Done m" by simp
  moreover have "sk_merge a b = sk_insert_all dbg fp a ys"
    using sk_merge_insert_all [OF \<open>same_shape a s\<close> assms(3)] sk_merge_fresh [OF \<open>same_shape a s\<close> assms(1)]
    by simp
  ultimately show ?thesis using assms(2) by (auto simp: sk_insert_all_append)
qed

theorem sketch_counts_samples:
  assumes "fp_laws fp" and "sk_with_limit dbg fp limit alpha = Done s"
    and "sk_gamma s = Fin g" and "1 < g" and "g \<le> 2"
    and "2 \<le> sk_cutoff s" and "sk_cutoff s + 1 < length (sk_buckets s)"
  shows "\<exists>s'. sk_insert_all dbg fp s xs = Done s' \<and>
    unat (sk_count s') = min (2 ^ 64 - 1) (samples_total xs) \<and>
    length (sk_buckets s') = length (sk_buckets s) \<and>
    (\<forall>i<length (sk_buckets s). unat (sk_buckets s' ! i) = min (2 ^ 64 - 1) (samples_at dbg fp s xs i)) \<and>
    (\<forall>v. \<exists>i<length (sk_buckets s). sk_index_of dbg fp s v = Done i)"
proof -
  have cov: "sk_covers dbg fp s" by (rule sk_with_limit_covers [OF assms])
  have "sk_fresh s" by (rule sk_with_limit_fresh [OF assms(2)])
  then have "unat (sk_count s) = 0" and "\<forall>i<length (sk_buckets s). unat (sk_buckets s ! i) = 0"
    by (simp_all add: sk_fresh_def)
  with sk_insert_all_counts [OF cov, of xs] cov show ?thesis
    by (auto simp: same_shape_def sk_covers_def)
qed


theorem sketch_coarse_insert_panics:
  "\<exists>s. sk_with_limit dbg fp_exact 4 (Fin (1 / 2)) = Done s \<and> sk_limit s = 4 \<and> sk_insert dbg fp_exact s 4 = Panic"
proof -
  have "f_log fp_exact (f_of_u64 fp_exact 4) (Fin 3) = Fin (ln 4 / ln 3)"
    using f_log_exact [of 4 3] by (simp add: f_of_u64_exact)
  then have "sk_index_of dbg fp_exact sk_coarse 4 = Done 3"
    by (simp add: sk_index_of_def sk_coarse_def ceiling_log_3_4 usize_plus_def)
  moreover have "sk_index_of dbg fp_exact (sk_coarse\<lparr>sk_max := a, sk_min := b, sk_count := c\<rparr>) 4 =
    sk_index_of dbg fp_exact sk_coarse 4" for a b c by (simp add: sk_index_of_def)
  ultimately have "sk_insert dbg fp_exact sk_coarse 4 = Panic"
    by (simp add: sk_insert_def sk_insert_n_def Let_def) (simp add: sk_coarse_def)
  with sk_coarse_made show ?thesis by (auto simp: sk_coarse_def)
qed

theorem sketch_linear_quantile_off:
  "\<exists>s s'. sk_with_limit dbg fp_exact 100 (Fin (1 / 9)) = Done s \<and>
    sk_insert_all dbg fp_exact s [(0, 1), (7, 1), (100, 1)] = Done s' \<and>
    sk_quantile dbg fp_exact s' (Fin (1 / 2)) = Done 4"
proof -
  have "f_log fp_exact (f_of_u64 fp_exact 100) (Fin (5 / 4)) = Fin (ln 100 / ln (5 / 4))"
    using f_log_exact [of 100 "5 / 4"] by (simp add: f_of_u64_exact)
  then have idx: "sk_index_of dbg fp_exact s v = Done (if v = 100 then 22 else unat v)"
    if "sk_gamma s = Fin (5 / 4)" "sk_cutoff s = 8" "sk_limit s = 100" "v \<in> {0, 7, 100}" for s v
    using that by (auto simp: sk_index_of_def ceiling_log_fine usize_plus_def)
  let ?s = "sk_fine\<lparr>sk_buckets := ((replicate 36 0)[0 := 1, 7 := 1, 22 := 1]), sk_count := 3, sk_min := 0, sk_max := 100\<rparr>"
  have "sk_insert_all dbg fp_exact sk_fine [(0, 1), (7, 1), (100, 1)] = Done ?s"
    by (simp add: sk_insert_n_def Let_def idx sk_fine_def sat_add_def)
  moreover have "sk_quantile dbg fp_exact ?s (Fin (1 / 2)) = Done 4"
  proof -
    have "(replicate 36 0)[0 := 1, 7 := 1, 22 := 1] =
        (1 :: u64) # replicate 6 0 @ 1 # replicate 14 0 @ 1 # replicate 13 0"
      by code_simp
    then have fb: "find_bucket dbg 1 ((replicate 36 0)[0 := 1, 7 := 1, 22 := 1]) 0 0 = Done (Some 7)"
      by (simp only: find_bucket.simps find_bucket_zeros) (simp add: u64_plus_def find_bucket_zeros word_le_nat_alt)
    have e: "sk_estimate fp_exact ?s 7 = 4"
      by (simp add: sk_estimate_def sk_fine_def ipow_exact) (simp add: fp_exact_def power_divide)
    have "f_to_nat (f_mul fp_exact (Fin (1 / 2)) (f_of_u64 fp_exact 3)) = 1"
      by (simp add: f_of_u64_exact) (simp add: fp_exact_def)
    with fb e show ?thesis by (simp add: sk_quantile_def sk_fine_def f_le_def)
  qed
  ultimately show ?thesis using sk_fine_made by blast
qed

section \<open>Witnesses\<close>

definition sk_small :: sketch where
  "sk_small = \<lparr>sk_buckets = [0, 0, 0, 0], sk_gamma = Fin 2, sk_cutoff = 3, sk_count = 0, sk_limit = 2,
     sk_min = - 1, sk_max = 0\<rparr>"

theorem sketch_merge_concatenates_witness:
  "\<exists>a b m. sk_insert_all True fp_exact sk_small [(1, 5), (2, - 1)] = Done a \<and>
    sk_insert_all True fp_exact sk_small [(2, 4), (9, 1)] = Done b \<and> sk_merge a b = Done m \<and>
    sk_insert_all True fp_exact sk_small ([(1, 5), (2, - 1)] @ [(2, 4), (9, 1)]) = Done m"
proof -
  have fresh: "sk_fresh sk_small" by (simp add: sk_fresh_def sk_small_def nth_Cons' )
  obtain a where a: "sk_insert_all True fp_exact sk_small [(1, 5), (2, - 1)] = Done a"
    by (simp add: sk_small_def sk_insert_n_def sk_index_of_def Let_def)
  obtain b where b: "sk_insert_all True fp_exact sk_small [(2, 4), (9, 1)] = Done b"
    by (simp add: sk_small_def sk_insert_n_def sk_index_of_def usize_pred_def Let_def)
  from sketch_merge_concatenates [OF fresh a b] a b show ?thesis by blast
qed

theorem sketch_counts_samples_witness:
  "\<exists>s'. sk_insert_all True fp_exact sk_fine [(0, 3), (50, 2), (1000, 1)] = Done s' \<and> unat (sk_count s') = 6"
  using sketch_counts_samples [OF fp_exact_laws sk_fine_made [of True], of "5 / 4" "[(0, 3), (50, 2), (1000, 1)]"]
  by (auto simp: sk_fine_def samples_total_def)


end
