(* ===== verification/Metric_Registry.thy ===== *)
theory Metric_Registry
  imports Lazy_Cell Sketch
begin

text \<open>
  The rest of the crate \<open>metrics\<close>: counters and gauges (\<open>counter.rs\<close>, \<open>gauge.rs\<close>), the values
  and entries of \<open>lib.rs\<close>, the metric inside a lazy cell (\<open>lazy_cell.rs\<close>), and the macro
  \<open>metric!\<close> of \<open>macros.rs\<close>, which declares statics and registers an entry for each of them.
  A counter or gauge is an atomic 64-bit word, on which each operation is one atomic step, so a
  run is a sequence of operations in the order they take effect.  An attribute of a declaration
  is the \<open>name\<close> attribute with its expression, or any other.
\<close>

section \<open>Counters\<close>

type_synonym counter = u64

definition cn_with_value :: "u64 \<Rightarrow> counter" where "cn_with_value v = v"
definition cn_new :: counter where "cn_new = cn_with_value 0"
definition cn_add :: "counter \<Rightarrow> u64 \<Rightarrow> counter" where "cn_add c v = c + v"
definition cn_increment :: "counter \<Rightarrow> counter" where "cn_increment c = cn_add c 1"
definition cn_value :: "counter \<Rightarrow> u64" where "cn_value c = c"
definition cn_set :: "counter \<Rightarrow> u64 \<Rightarrow> u64 \<times> counter" where "cn_set c v = (c, v)"
definition cn_reset :: "counter \<Rightarrow> u64 \<times> counter" where "cn_reset c = cn_set c 0"

lemmas cn_defs = cn_with_value_def cn_new_def cn_add_def cn_increment_def cn_value_def cn_set_def cn_reset_def

section \<open>Gauges\<close>

text \<open>The word is the two's complement of the signed value.\<close>

type_synonym gauge = "64 word"

definition ga_new :: gauge where "ga_new = 0"
definition ga_add :: "gauge \<Rightarrow> 64 word \<Rightarrow> gauge" where "ga_add g v = g + v"
definition ga_sub :: "gauge \<Rightarrow> 64 word \<Rightarrow> gauge" where "ga_sub g v = g - v"
definition ga_increment :: "gauge \<Rightarrow> gauge" where "ga_increment g = ga_add g 1"
definition ga_decrement :: "gauge \<Rightarrow> gauge" where "ga_decrement g = ga_sub g 1"
definition ga_value :: "gauge \<Rightarrow> int" where "ga_value g = sint g"
definition ga_set :: "gauge \<Rightarrow> 64 word \<Rightarrow> int \<times> gauge" where "ga_set g v = (sint g, v)"
definition ga_reset :: "gauge \<Rightarrow> int \<times> gauge" where "ga_reset g = ga_set g 0"

lemmas ga_defs = ga_new_def ga_add_def ga_sub_def ga_increment_def ga_decrement_def ga_value_def
  ga_set_def ga_reset_def

section \<open>Values\<close>

datatype metric_value = Unsigned u64 | Signed int | Summary sketch

definition cn_metric :: "counter \<Rightarrow> metric_value option" where
  "cn_metric c = Some (Unsigned (cn_value c))"

definition ga_metric :: "gauge \<Rightarrow> metric_value option" where
  "ga_metric g = Some (Signed (ga_value g))"

definition sk_metric :: "sketch \<Rightarrow> metric_value option" where
  "sk_metric s = Some (Summary s)"

text \<open>\<open>LazyCell::get\<close> by a thread that is not interrupted, and the metric of a lazy cell.\<close>

definition lc_peek :: "'v lazy_cell \<Rightarrow> 'v option outcome" where
  "lc_peek c = (if lc_state c = INIT then and_then (lc_inner c) (\<lambda>v. Done (Some v)) else Done None)"

definition lazy_is_enabled :: "('v \<Rightarrow> bool) \<Rightarrow> 'v lazy_cell \<Rightarrow> bool outcome" where
  "lazy_is_enabled en c =
     and_then (lc_peek c) (\<lambda>r. Done (case r of None \<Rightarrow> False | Some v \<Rightarrow> en v))"

definition lazy_metric :: "('v \<Rightarrow> metric_value option) \<Rightarrow> 'v lazy_cell \<Rightarrow> metric_value option outcome" where
  "lazy_metric mv c =
     and_then (lc_peek c) (\<lambda>r. Done (case r of None \<Rightarrow> None | Some v \<Rightarrow> mv v))"

section \<open>The macro\<close>

datatype attr = NameAttr string | OtherAttr string

record 'm metric_entry =
  me_metric :: 'm
  me_name :: string

record 'm metric_decl =
  md_attrs :: "attr list"
  md_name :: string
  md_init :: 'm

text \<open>\<open>__metric_first_name\<close>: the arms that walk over the attributes and collect the names, the
  latest in front, and the arm that picks one.\<close>

fun collect_names :: "attr list \<Rightarrow> string list \<Rightarrow> string list" where
  "collect_names [] rest = rest"
| "collect_names (NameAttr n # attrs) rest = collect_names attrs (n # rest)"
| "collect_names (OtherAttr a # attrs) rest = collect_names attrs rest"

definition first_name :: "string \<Rightarrow> string \<Rightarrow> attr list \<Rightarrow> string" where
  "first_name module_path name attrs =
     (let names = collect_names attrs []
      in if names \<noteq> [] then names ! (length names - 1) else module_path @ ''::'' @ name)"

text \<open>\<open>__metric_filter_attrs\<close>: the arm for a name attribute expects the remaining ones without
  their \<open>#\<close>, so it matches only when none remain.\<close>

fun filter_attrs :: "attr list \<Rightarrow> attr list \<Rightarrow> attr list" where
  "filter_attrs [] attrs = attrs"
| "filter_attrs [NameAttr n] attrs = filter_attrs [] attrs"
| "filter_attrs (current # left) attrs = filter_attrs left (current # attrs)"

text \<open>A declaration becomes a static with the remaining attributes, and an entry of the global
  slice.\<close>

definition metric_static :: "'m metric_decl \<Rightarrow> attr list \<times> string \<times> 'm" where
  "metric_static d = (filter_attrs (md_attrs d) [], md_name d, md_init d)"

definition metric_register :: "string \<Rightarrow> 'm metric_decl \<Rightarrow> 'm metric_entry" where
  "metric_register module_path d =
     \<lparr>me_metric = md_init d, me_name = first_name module_path (md_name d) (md_attrs d)\<rparr>"

definition metric_macro :: "string \<Rightarrow> 'm metric_decl list \<Rightarrow> (attr list \<times> string \<times> 'm) list \<times> 'm metric_entry list" where
  "metric_macro module_path ds = (map metric_static ds, map (metric_register module_path) ds)"

section \<open>Runs of a counter\<close>

datatype cn_op = Increment | Add u64 | Reset

text \<open>A run and what its resets returned.\<close>

fun cn_run :: "cn_op list \<Rightarrow> counter \<Rightarrow> u64 list \<times> counter" where
  "cn_run [] c = ([], c)"
| "cn_run (Increment # ops) c = cn_run ops (cn_increment c)"
| "cn_run (Add v # ops) c = cn_run ops (cn_add c v)"
| "cn_run (Reset # ops) c =
     (case cn_reset c of (old, c') \<Rightarrow> case cn_run ops c' of (olds, c'') \<Rightarrow> (old # olds, c''))"

fun cn_added :: "cn_op list \<Rightarrow> nat" where
  "cn_added [] = 0"
| "cn_added (Increment # ops) = 1 + cn_added ops"
| "cn_added (Add v # ops) = unat v + cn_added ops"
| "cn_added (Reset # ops) = cn_added ops"

lemma cn_run_sum:
  "unat c + cn_added ops < 2 ^ 64 \<Longrightarrow> cn_run ops c = (olds, c') \<Longrightarrow>
     sum_list (map unat olds) + unat c' = unat c + cn_added ops"
proof (induction ops c arbitrary: olds c' rule: cn_run.induct)
  case (2 ops c)
  then have "unat (c + 1) = unat c + 1" by (simp add: unat_word_ariths)
  with 2 show ?case by (simp add: cn_defs)
next
  case (3 v ops c)
  then have "unat (c + v) = unat c + unat v" by (simp add: unat_word_ariths)
  with 3 show ?case by (simp add: cn_defs)
qed (auto simp: cn_defs split: prod.splits)

section \<open>Names and attributes\<close>

fun is_name :: "attr \<Rightarrow> bool" where
  "is_name (NameAttr n) = True"
| "is_name (OtherAttr a) = False"

fun attr_names :: "attr list \<Rightarrow> string list" where
  "attr_names [] = []"
| "attr_names (NameAttr n # attrs) = n # attr_names attrs"
| "attr_names (OtherAttr a # attrs) = attr_names attrs"

lemma collect_names_eq: "collect_names attrs rest = rev (attr_names attrs) @ rest"
  by (induction attrs rest rule: collect_names.induct) simp_all

lemma first_name_eq:
  "first_name module_path name attrs =
     (case attr_names attrs of [] \<Rightarrow> module_path @ ''::'' @ name | n # _ \<Rightarrow> n)"
  by (cases "attr_names attrs") (simp_all add: first_name_def collect_names_eq nth_append)

lemma filter_attrs_eq:
  "filter_attrs attrs kept =
     (if attrs \<noteq> [] \<and> is_name (last attrs) then rev (butlast attrs) else rev attrs) @ kept"
  by (induction attrs kept rule: filter_attrs.induct) auto

lemma find_distinct:
  "distinct (map f xs) \<Longrightarrow> i < length xs \<Longrightarrow> find (\<lambda>x. f x = f (xs ! i)) xs = Some (xs ! i)"
proof (induction xs arbitrary: i)
  case (Cons x xs)
  show ?case
  proof (cases i)
    case (Suc j)
    with Cons.prems have "f (xs ! j) \<in> f ` set xs" and "f x \<notin> f ` set xs" by auto
    then have "f x \<noteq> f (xs ! j)" by metis
    with Suc Cons show ?thesis by simp
  qed simp
qed simp

section \<open>Properties\<close>

theorem counter_conserves:
  assumes "unat c + cn_added ops < 2 ^ 64" and "cn_run ops c = (olds, c')"
  shows "sum_list (map unat olds) + unat (cn_value c') = unat (cn_value c) + cn_added ops"
  using cn_run_sum [OF assms] by (simp add: cn_value_def)

theorem counter_conserves_witness:
  "cn_run [Add 5, Increment, Reset, Add 2] (cn_new + 3) = ([9], 2) \<and> sum_list (map unat [9 :: u64]) + unat (2 :: u64) = 11"
  using counter_conserves [of "3" "[Add 5, Increment, Reset, Add 2]" "[9]" 2] by (simp add: cn_defs)

theorem metric_macro_registers:
  assumes "metric_macro module_path ds = (statics, entries)" and "i < length ds"
  shows "length entries = length ds \<and> me_metric (entries ! i) = md_init (ds ! i) \<and>
    me_name (entries ! i) = (case attr_names (md_attrs (ds ! i)) of
        [] \<Rightarrow> module_path @ ''::'' @ md_name (ds ! i) | n # _ \<Rightarrow> n) \<and>
    statics ! i = (rev (if md_attrs (ds ! i) \<noteq> [] \<and> is_name (last (md_attrs (ds ! i)))
        then butlast (md_attrs (ds ! i)) else md_attrs (ds ! i)), md_name (ds ! i), md_init (ds ! i)) \<and>
    (distinct (map me_name entries) \<longrightarrow>
      find (\<lambda>e. me_name e = me_name (entries ! i)) entries = Some (entries ! i))"
proof -
  have e: "entries = map (metric_register module_path) ds" "statics = map metric_static ds"
    using assms(1) by (simp_all add: metric_macro_def)
  have "find (\<lambda>e. me_name e = me_name (entries ! i)) entries = Some (entries ! i)"
    if "distinct (map me_name entries)"
    using find_distinct [OF that, of i] assms(2) e(1) by simp
  moreover have "statics ! i = metric_static (ds ! i)" and "entries ! i = metric_register module_path (ds ! i)"
    using assms(2) by (simp_all add: e)
  ultimately show ?thesis
    by (simp add: e(1) metric_register_def metric_static_def first_name_eq filter_attrs_eq)
qed

theorem metric_macro_registers_witness:
  "me_name (snd (metric_macro ''basic'' [\<lparr>md_attrs = [NameAttr ''my-counter'', OtherAttr ''doc'', NameAttr ''last''],
      md_name = ''METRIC'', md_init = (0 :: nat)\<rparr>]) ! 0) = ''my-counter'' \<and>
    fst (metric_macro ''basic'' [\<lparr>md_attrs = [NameAttr ''my-counter'', OtherAttr ''doc'', NameAttr ''last''],
      md_name = ''METRIC'', md_init = (0 :: nat)\<rparr>]) ! 0 = ([OtherAttr ''doc'', NameAttr ''my-counter''], ''METRIC'', 0)"
  using metric_macro_registers [OF prod.collapse [symmetric, of "metric_macro ''basic''
      [\<lparr>md_attrs = [NameAttr ''my-counter'', OtherAttr ''doc'', NameAttr ''last''],
        md_name = ''METRIC'', md_init = (0 :: nat)\<rparr>]"], of 0] by simp

end
