(* ===== verification/Connection.thy ===== *)
theory Connection
  imports Io_Handle
begin

text \<open>
  A task that serves one TCP connection, seen from the outside: the operations of \<open>IOHandle\<close> it
  awaits are functions of a record over a state \<open>'s\<close> (the executor, the kernel and the peer), each
  from its arguments to its result and the next state.  \<open>net_laws\<close> states what the proofs rely
  on for two observations of that state: \<open>inn\<close>, the bytes the peer sends that were not read yet,
  and \<open>out\<close>, the bytes written to the peer.

  The two servers under \<open>hamerkop/examples\<close> share the buffer size, the function \<open>write_all\<close> and
  this interface.
\<close>

definition BUFFER_SIZE :: nat where "BUFFER_SIZE = 65536"

section \<open>Operations\<close>

text \<open>
  The fields with two letters or more after \<open>net_chain\<close> are linked submissions, awaited in full:
  \<open>wpr\<close> is write, provide buffer, read, and \<open>pwr\<close> is provide buffer, write, read.
\<close>

record 's net =
  net_read :: "32 word \<Rightarrow> nat \<Rightarrow> 's \<Rightarrow> (io_error + u8 fixedvec) \<times> 's"
  net_write :: "32 word \<Rightarrow> u8 list \<Rightarrow> 's \<Rightarrow> (io_error + nat) \<times> 's"
  net_provide :: "u8 fixedvec \<Rightarrow> 's \<Rightarrow> (provide_error + unit) \<times> 's"
  net_chain_wpr :: "32 word \<Rightarrow> u8 list \<Rightarrow> u8 fixedvec \<Rightarrow> nat \<Rightarrow> 's \<Rightarrow>
    ((io_error + nat) \<times> (provide_error + unit) \<times> (io_error + u8 fixedvec)) \<times> 's"
  net_chain_pwr :: "32 word \<Rightarrow> u8 fixedvec \<Rightarrow> u8 list \<Rightarrow> nat \<Rightarrow> 's \<Rightarrow>
    ((provide_error + unit) \<times> (io_error + nat) \<times> (io_error + u8 fixedvec)) \<times> 's"
  net_print :: "u8 list \<Rightarrow> 's \<Rightarrow> (io_error + unit) \<times> 's"

text \<open>\<open>write_all\<close>: the slice of what is left panics if the kernel reports more than it was given.\<close>

function write_all :: "'s net \<Rightarrow> 32 word \<Rightarrow> u8 list \<Rightarrow> 's \<Rightarrow> ((io_error + unit) \<times> 's) outcome" where
  "write_all net fd bytes s =
     (if bytes = [] then Done (Inr (), s)
      else case net_write net fd bytes s of
          (Inl e, s') \<Rightarrow> Done (Inl e, s')
        | (Inr n, s') \<Rightarrow>
            (if length bytes < n then Panic
             else if n = 0 then Done (Inl (Custom WriteZero ''unable to write entire buffer''), s')
             else write_all net fd (drop n bytes) s'))"
  by pat_completeness auto
termination
  by (relation "measure (\<lambda>(net, fd, bytes, s). length bytes)") (auto simp: length_greater_0_conv)

declare write_all.simps [simp del]

section \<open>What the operations promise\<close>

text \<open>
  A write reports how much of the data it took, a read returns a buffer with at most \<open>L\<close> bytes
  that follow in the stream, and none only when the peer has closed; an operation that fails moves
  no bytes, and a buffer that is refused comes back as it was.
\<close>

definition idle :: "('s \<Rightarrow> u8 list) \<Rightarrow> ('s \<Rightarrow> u8 list) \<Rightarrow> 's \<Rightarrow> 's \<Rightarrow> bool" where
  "idle inn out s s' \<longleftrightarrow> inn s' = inn s \<and> out s' = out s"

definition write_ok ::
  "('s \<Rightarrow> u8 list) \<Rightarrow> ('s \<Rightarrow> u8 list) \<Rightarrow> u8 list \<Rightarrow> 's \<Rightarrow> (io_error + nat) \<Rightarrow> 's \<Rightarrow> bool" where
  "write_ok inn out d s r s' \<longleftrightarrow> inn s' = inn s \<and>
     (case r of Inl e \<Rightarrow> out s' = out s | Inr n \<Rightarrow> n \<le> length d \<and> out s' = out s @ take n d)"

definition read_ok ::
  "nat \<Rightarrow> ('s \<Rightarrow> u8 list) \<Rightarrow> ('s \<Rightarrow> u8 list) \<Rightarrow> 's \<Rightarrow> (io_error + u8 fixedvec) \<Rightarrow> 's \<Rightarrow> bool" where
  "read_ok L inn out s r s' \<longleftrightarrow> out s' = out s \<and>
     (case r of Inl e \<Rightarrow> inn s' = inn s
      | Inr v \<Rightarrow> \<exists>xs. fv_rep v BUFFER_SIZE xs \<and> length xs \<le> L \<and> inn s = xs @ inn s' \<and>
          (xs = [] \<longrightarrow> inn s = []))"

definition provide_ok ::
  "('s \<Rightarrow> u8 list) \<Rightarrow> ('s \<Rightarrow> u8 list) \<Rightarrow> u8 fixedvec \<Rightarrow> 's \<Rightarrow> (provide_error + unit) \<Rightarrow> 's \<Rightarrow> bool" where
  "provide_ok inn out b s r s' \<longleftrightarrow> idle inn out s s' \<and> (\<forall>p. r = Inl p \<longrightarrow> pe_buffer p = b)"

text \<open>
  The entries of a linked submission run in order, each one only when the one before it was
  completed in full, and the others are cancelled.
\<close>

definition ECANCELED :: io_error where "ECANCELED = OsError 125"

definition wpr_ok ::
  "nat \<Rightarrow> ('s \<Rightarrow> u8 list) \<Rightarrow> ('s \<Rightarrow> u8 list) \<Rightarrow> u8 list \<Rightarrow> u8 fixedvec \<Rightarrow> 's \<Rightarrow>
    (io_error + nat) \<Rightarrow> (provide_error + unit) \<Rightarrow> (io_error + u8 fixedvec) \<Rightarrow> 's \<Rightarrow> bool" where
  "wpr_ok L inn out d b s w p r s' \<longleftrightarrow> (\<exists>s1. write_ok inn out d s w s1 \<and>
     (if w = Inr (length d)
      then \<exists>s2. provide_ok inn out b s1 p s2 \<and>
        (if p = Inr () then read_ok L inn out s2 r s' else r = Inl ECANCELED \<and> idle inn out s2 s')
      else p = Inl (pe_new ECANCELED b) \<and> r = Inl ECANCELED \<and> idle inn out s1 s'))"

definition pwr_ok ::
  "nat \<Rightarrow> ('s \<Rightarrow> u8 list) \<Rightarrow> ('s \<Rightarrow> u8 list) \<Rightarrow> u8 fixedvec \<Rightarrow> u8 list \<Rightarrow> 's \<Rightarrow>
    (provide_error + unit) \<Rightarrow> (io_error + nat) \<Rightarrow> (io_error + u8 fixedvec) \<Rightarrow> 's \<Rightarrow> bool" where
  "pwr_ok L inn out b d s p w r s' \<longleftrightarrow> (\<exists>s1. provide_ok inn out b s p s1 \<and>
     (if p = Inr ()
      then \<exists>s2. write_ok inn out d s1 w s2 \<and>
        (if w = Inr (length d) then read_ok L inn out s2 r s' else r = Inl ECANCELED \<and> idle inn out s2 s')
      else w = Inl ECANCELED \<and> r = Inl ECANCELED \<and> idle inn out s1 s'))"

lemmas net_ok_defs = idle_def write_ok_def read_ok_def provide_ok_def wpr_ok_def pwr_ok_def

definition net_laws ::
  "nat \<Rightarrow> 's net \<Rightarrow> 32 word \<Rightarrow> ('s \<Rightarrow> u8 list) \<Rightarrow> ('s \<Rightarrow> u8 list) \<Rightarrow> bool" where
  "net_laws L net fd inn out \<longleftrightarrow>
     (\<forall>s r s'. net_read net fd BUFFER_SIZE s = (r, s') \<longrightarrow> read_ok L inn out s r s') \<and>
     (\<forall>d s r s'. net_write net fd d s = (r, s') \<longrightarrow> write_ok inn out d s r s') \<and>
     (\<forall>b s r s'. net_provide net b s = (r, s') \<longrightarrow> provide_ok inn out b s r s') \<and>
     (\<forall>d b s w p r s'. net_chain_wpr net fd d b BUFFER_SIZE s = ((w, p, r), s') \<longrightarrow> wpr_ok L inn out d b s w p r s') \<and>
     (\<forall>b d s p w r s'. net_chain_pwr net fd b d BUFFER_SIZE s = ((p, w, r), s') \<longrightarrow> pwr_ok L inn out b d s p w r s') \<and>
     (\<forall>d s r s'. net_print net d s = (r, s') \<longrightarrow> idle inn out s s')"

lemma net_lawsD:
  assumes "net_laws L net fd inn out"
  shows "net_read net fd BUFFER_SIZE s = (r, s') \<Longrightarrow> read_ok L inn out s r s'"
    and "net_write net fd d s = (w, s') \<Longrightarrow> write_ok inn out d s w s'"
    and "net_provide net b s = (p, s') \<Longrightarrow> provide_ok inn out b s p s'"
    and "net_chain_wpr net fd d b BUFFER_SIZE s = ((w, p, r), s') \<Longrightarrow> wpr_ok L inn out d b s w p r s'"
    and "net_chain_pwr net fd b d BUFFER_SIZE s = ((p, w, r), s') \<Longrightarrow> pwr_ok L inn out b d s p w r s'"
    and "net_print net d s = (t, s') \<Longrightarrow> idle inn out s s'"
  using assms by (simp_all add: net_laws_def)

lemma net_laws_mono: "net_laws L net fd inn out \<Longrightarrow> L \<le> M \<Longrightarrow> net_laws M net fd inn out"
proof -
  assume laws: "net_laws L net fd inn out" and "L \<le> M"
  then have rd: "read_ok L inn out s r s' \<Longrightarrow> read_ok M inn out s r s'" for s r s'
    by (cases r) (auto simp: read_ok_def intro: order_trans)
  have "wpr_ok L inn out d b s w p r s' \<Longrightarrow> wpr_ok M inn out d b s w p r s'" for d b s w p r s'
    unfolding wpr_ok_def
    by (elim ex_forward conj_forward) (auto elim!: ex_forward intro: rd split: if_splits)
  moreover have "pwr_ok L inn out b d s p w r s' \<Longrightarrow> pwr_ok M inn out b d s p w r s'" for d b s w p r s'
    unfolding pwr_ok_def
    by (elim ex_forward conj_forward) (auto elim!: ex_forward intro: rd split: if_splits)
  ultimately show ?thesis using laws rd by (simp add: net_laws_def)
qed

lemma write_all_sends:
  assumes laws: "net_laws L net fd inn out"
  shows "\<exists>r s' n. write_all net fd d s = Done (r, s') \<and> inn s' = inn s \<and> out s' = out s @ take n d \<and>
    (r = Inr () \<longrightarrow> length d \<le> n)"
proof (induction "length d" arbitrary: d s rule: less_induct)
  case less
  show ?case
  proof (cases "d = []")
    case True
    then show ?thesis by (subst write_all.simps) auto
  next
    case ne: False
    obtain w s1 where w: "net_write net fd d s = (w, s1)" by fastforce
    note ok = net_lawsD(2) [OF laws w]
    show ?thesis
    proof (cases w)
      case (Inl e)
      with ok have "inn s1 = inn s \<and> out s1 = out s @ take 0 d" by (simp add: write_ok_def)
      then show ?thesis using ne w Inl by (subst write_all.simps) (auto simp: exI [of _ 0])
    next
      case (Inr c)
      with ok have c: "c \<le> length d" "inn s1 = inn s" "out s1 = out s @ take c d"
        by (simp_all add: write_ok_def)
      show ?thesis
      proof (cases "c = 0")
        case True
        then show ?thesis using ne w Inr c by (subst write_all.simps) auto
      next
        case False
        with c ne have "length (drop c d) < length d" by simp
        from less [OF this, of s1] obtain r s' n where
          "write_all net fd (drop c d) s1 = Done (r, s')" "inn s' = inn s1"
          "out s' = out s1 @ take n (drop c d)" "r = Inr () \<longrightarrow> length (drop c d) \<le> n"
          by blast
        then show ?thesis using False ne w Inr c
          by (subst write_all.simps) (auto simp: take_add intro!: exI [of _ "c + n"])
      qed
    qed
  qed
qed

section \<open>A peer\<close>

text \<open>A peer that sends \<open>fst s\<close> and reads slowly: a read returns up to \<open>L\<close> bytes, a write takes
  up to \<open>W\<close>.\<close>

definition slow_read :: "nat \<Rightarrow> u8 list \<times> u8 list \<Rightarrow> (io_error + u8 fixedvec) \<times> u8 list \<times> u8 list" where
  "slow_read L s = (let xs = take L (fst s)
     in (Inr \<lparr>fdata = map Some xs @ replicate (BUFFER_SIZE - length xs) None, fsize = length xs\<rparr>, drop L (fst s), snd s))"

definition slow_write :: "nat \<Rightarrow> u8 list \<Rightarrow> u8 list \<times> u8 list \<Rightarrow> (io_error + nat) \<times> u8 list \<times> u8 list" where
  "slow_write W d s = (Inr (min W (length d)), fst s, snd s @ take W d)"

definition slow_net :: "nat \<Rightarrow> nat \<Rightarrow> (u8 list \<times> u8 list) net" where
  "slow_net L W =
     \<lparr>net_read = (\<lambda>fd n. slow_read L), net_write = (\<lambda>fd. slow_write W), net_provide = (\<lambda>b s. (Inr (), s)),
      net_chain_wpr = (\<lambda>fd d b n s. if length d \<le> W
        then let (r, s') = slow_read L (snd (slow_write W d s)) in ((Inr (length d), Inr (), r), s')
        else ((fst (slow_write W d s), Inl (pe_new ECANCELED b), Inl ECANCELED), snd (slow_write W d s))),
      net_chain_pwr = (\<lambda>fd b d n s. if length d \<le> W
        then let (r, s') = slow_read L (snd (slow_write W d s)) in ((Inr (), Inr (length d), r), s')
        else ((Inr (), fst (slow_write W d s), Inl ECANCELED), snd (slow_write W d s))),
      net_print = (\<lambda>d s. (Inr (), s))\<rparr>"

lemma slow_read_ok: "0 < L \<Longrightarrow> L \<le> BUFFER_SIZE \<Longrightarrow> slow_read L s = (r, s') \<Longrightarrow> read_ok L fst snd s r s'"
  by (auto simp: slow_read_def read_ok_def Let_def intro!: exI [of _ "take L (fst s)"])

lemma slow_write_ok: "slow_write W d s = (r, s') \<Longrightarrow> write_ok fst snd d s r s'"
  by (auto simp: slow_write_def write_ok_def min_def)

lemma slow_net_laws:
  assumes "0 < L" and "L \<le> BUFFER_SIZE"
  shows "net_laws L (slow_net L W) fd fst snd"
proof -
  have w: "write_ok fst snd d s (fst (slow_write W d s)) (snd (slow_write W d s))" for d s
    by (rule slow_write_ok) simp
  have full: "length d \<le> W \<Longrightarrow> fst (slow_write W d s) = Inr (length d)" for d s
    by (simp add: slow_write_def)
  have short: "\<not> length d \<le> W \<Longrightarrow> fst (slow_write W d s) \<noteq> Inr (length d)" for d s
    by (simp add: slow_write_def)
  have wpr: "wpr_ok L fst snd d b s w p r s'"
    if "net_chain_wpr (slow_net L W) fd d b BUFFER_SIZE s = ((w, p, r), s')" for d b s w p r s'
  proof (cases "length d \<le> W")
    case True
    with that have "w = Inr (length d)" "p = Inr ()" "slow_read L (snd (slow_write W d s)) = (r, s')"
      by (auto simp: slow_net_def split: prod.splits)
    with w [of d s] full [OF True, of s] slow_read_ok [OF assms, of "snd (slow_write W d s)" r s'] show ?thesis
      unfolding wpr_ok_def
      by (intro exI [of _ "snd (slow_write W d s)"])
        (auto simp: provide_ok_def idle_def simp del: split_paired_Ex intro!: exI [of _ "snd (slow_write W d s)"])
  next
    case False
    with that w [of d s] short [OF False, of s] show ?thesis
      unfolding wpr_ok_def
      by (intro exI [of _ "snd (slow_write W d s)"]) (auto simp: idle_def slow_net_def)
  qed
  have pwr: "pwr_ok L fst snd b d s p w r s'"
    if "net_chain_pwr (slow_net L W) fd b d BUFFER_SIZE s = ((p, w, r), s')" for b d s p w r s'
  proof (cases "length d \<le> W")
    case True
    with that have "w = Inr (length d)" "p = Inr ()" "slow_read L (snd (slow_write W d s)) = (r, s')"
      by (auto simp: slow_net_def split: prod.splits)
    with w [of d s] full [OF True, of s] slow_read_ok [OF assms, of "snd (slow_write W d s)" r s'] show ?thesis
      unfolding pwr_ok_def
      by (intro exI [of _ s])
        (auto simp: provide_ok_def idle_def simp del: split_paired_Ex intro!: exI [of _ "snd (slow_write W d s)"])
  next
    case False
    with that w [of d s] short [OF False, of s] show ?thesis
      unfolding pwr_ok_def
      by (intro exI [of _ s])
        (auto simp: provide_ok_def idle_def slow_net_def simp del: split_paired_Ex
          intro!: exI [of _ "snd (slow_write W d s)"])
  qed
  show ?thesis using wpr pwr
    by (auto simp: net_laws_def slow_net_def provide_ok_def idle_def slow_read_ok [OF assms] slow_write_ok)
qed

end
