(* ===== verification/Echo_Server.thy ===== *)
theory Echo_Server
  imports Connection
begin

text \<open>
  The task of a connection in \<open>hamerkop/examples/echoserver.rs\<close>.  One iteration of its loop
  writes the buffer back, hands it to the kernel and reads the next one, as one linked submission;
  when the write is short the other two are cancelled and done again after the rest is written.
\<close>

section \<open>The task\<close>

datatype echo_flow = EchoNext "u8 fixedvec" | EchoStop "io_error + unit"

text \<open>\<open>handle.provide_buffer(rbuf).await?\<close>, then \<open>handle.read(...).await?\<close>.\<close>

definition echo_restart :: "'s net \<Rightarrow> 32 word \<Rightarrow> u8 fixedvec \<Rightarrow> 's \<Rightarrow> echo_flow \<times> 's" where
  "echo_restart net fd rbuf s =
     (case net_provide net rbuf s of
        (Inl p, s) \<Rightarrow> (EchoStop (Inl (pe_into_error p)), s)
      | (Inr _, s) \<Rightarrow> (case net_read net fd BUFFER_SIZE s of
            (Inl e, s) \<Rightarrow> (EchoStop (Inl e), s)
          | (Inr rbuf, s) \<Rightarrow> (EchoNext rbuf, s)))"

definition echo_round :: "'s net \<Rightarrow> 32 word \<Rightarrow> u8 fixedvec \<Rightarrow> 's \<Rightarrow> (echo_flow \<times> 's) outcome" where
  "echo_round net fd rbuf s =
     (if fv_len rbuf = 0
      then Done (case net_provide net rbuf s of
          (Inl p, s) \<Rightarrow> (EchoStop (Inl (pe_into_error p)), s)
        | (Inr _, s) \<Rightarrow> (EchoStop (Inr ()), s))
      else and_then (fv_as_slice rbuf) (\<lambda>bytes.
        let len = fv_len rbuf
        in case net_chain_wpr net fd bytes rbuf BUFFER_SIZE s of ((w, p, r), s) \<Rightarrow>
          (case w of
             Inl e \<Rightarrow> Done (EchoStop (Inl e), s)
           | Inr amount \<Rightarrow>
               if amount < len
               then (case p of
                   Inr _ \<Rightarrow> Panic
                 | Inl pe \<Rightarrow>
                     (let rbuf = pe_into_buffer pe
                      in and_then (fv_as_slice rbuf) (\<lambda>bytes.
                           assert_then (amount \<le> length bytes)
                             (and_then (write_all net fd (drop amount bytes) s) (\<lambda>(r, s).
                                case r of Inl e \<Rightarrow> Done (EchoStop (Inl e), s)
                                | Inr _ \<Rightarrow> Done (echo_restart net fd rbuf s))))))
               else Done (case r of Inl e \<Rightarrow> (EchoStop (Inl e), s) | Inr rbuf \<Rightarrow> (EchoNext rbuf, s)))))"

partial_function (option) echo_loop ::
  "'s net \<Rightarrow> 32 word \<Rightarrow> u8 fixedvec \<Rightarrow> 's \<Rightarrow> ((io_error + unit) \<times> 's) outcome option" where
  "echo_loop net fd rbuf s =
     obind (Some (echo_round net fd rbuf s)) (\<lambda>(f, s). case f of
         EchoStop r \<Rightarrow> Some (Done (r, s))
       | EchoNext rbuf \<Rightarrow> echo_loop net fd rbuf s)"

definition echo_conn_task :: "'s net \<Rightarrow> 32 word \<Rightarrow> 's \<Rightarrow> ((io_error + unit) \<times> 's) outcome option" where
  "echo_conn_task net fd s =
     (case net_read net fd BUFFER_SIZE s of
        (Inl e, s) \<Rightarrow> Some (Done (Inl e, s))
      | (Inr rbuf, s) \<Rightarrow> echo_loop net fd rbuf s)"

section \<open>One iteration\<close>

text \<open>What one iteration does with a buffer that holds \<open>xs\<close>.\<close>

definition echo_step_ok ::
  "('s \<Rightarrow> u8 list) \<Rightarrow> ('s \<Rightarrow> u8 list) \<Rightarrow> u8 list \<Rightarrow> 's \<Rightarrow> echo_flow \<Rightarrow> 's \<Rightarrow> bool" where
  "echo_step_ok inn out xs s f s' \<longleftrightarrow> (case f of
       EchoNext v \<Rightarrow> xs \<noteq> [] \<and> out s' = out s @ xs \<and>
         (\<exists>ys. fv_rep v BUFFER_SIZE ys \<and> inn s = ys @ inn s' \<and> (ys = [] \<longrightarrow> inn s = []))
     | EchoStop r \<Rightarrow> inn s' = inn s \<and> (\<exists>n. out s' = out s @ take n xs) \<and> (r = Inr () \<longrightarrow> xs = []))"

lemma echo_restart_ok:
  assumes laws: "net_laws L net fd inn out" and "echo_restart net fd v s1 = (f, s')"
    and "xs \<noteq> []" and "inn s1 = inn s" and "out s1 = out s @ xs"
  shows "echo_step_ok inn out xs s f s'"
proof -
  obtain p s2 where p: "net_provide net v s1 = (p, s2)" by fastforce
  obtain r s3 where r: "net_read net fd BUFFER_SIZE s2 = (r, s3)" by fastforce
  note pok = net_lawsD(3) [OF laws p] and rok = net_lawsD(1) [OF laws r]
  show ?thesis
  proof (cases p)
    case (Inl a)
    then have "f = EchoStop (Inl (pe_into_error a))" and "s' = s2"
      using assms(2) p by (simp_all add: echo_restart_def)
    then show ?thesis using pok assms(4,5)
      by (auto simp: echo_step_ok_def provide_ok_def idle_def intro!: exI [of _ "length xs"])
  next
    case (Inr u)
    then have "f = (case r of Inl e \<Rightarrow> EchoStop (Inl e) | Inr b \<Rightarrow> EchoNext b)" and "s' = s3"
      using assms(2) p r by (auto simp: echo_restart_def split: sum.splits)
    moreover have "inn s2 = inn s" "out s2 = out s @ xs"
      using pok assms(4,5) by (simp_all add: provide_ok_def idle_def)
    ultimately show ?thesis using rok assms(3)
      by (cases r) (auto simp: echo_step_ok_def read_ok_def intro!: exI [of _ "length xs"])
  qed
qed

lemma echo_round_ok:
  assumes laws: "net_laws L net fd inn out" and rep: "fv_rep v BUFFER_SIZE xs"
  shows "\<exists>f s'. echo_round net fd v s = Done (f, s') \<and> echo_step_ok inn out xs s f s'"
proof (cases "xs = []")
  case True
  obtain p s1 where p: "net_provide net v s = (p, s1)" by fastforce
  have "echo_round net fd v s = Done (EchoStop (map_sum pe_into_error id p), s1)"
    using True p by (cases p) (simp_all add: echo_round_def fv_rep_len [OF rep])
  with net_lawsD(3) [OF laws p] True show ?thesis
    by (simp add: echo_step_ok_def provide_ok_def idle_def)
next
  case ne: False
  note sl = fv_as_slice_rep [OF rep] and len = fv_rep_len [OF rep]
  obtain w p r s1 where c: "net_chain_wpr net fd xs v BUFFER_SIZE s = ((w, p, r), s1)"
    by (metis prod_cases3 surj_pair)
  then obtain s0 where w: "write_ok inn out xs s w s0"
    and rest: "if w = Inr (length xs)
      then \<exists>s2. provide_ok inn out v s0 p s2 \<and>
        (if p = Inr () then read_ok L inn out s2 r s1 else r = Inl ECANCELED \<and> idle inn out s2 s1)
      else p = Inl (pe_new ECANCELED v) \<and> r = Inl ECANCELED \<and> idle inn out s0 s1"
    using net_lawsD(4) [OF laws c] by (auto simp: wpr_ok_def)
  consider e where "w = Inl e" | "w = Inr (length xs)" | n where "w = Inr n" "n < length xs"
    using w by (cases w) (auto simp: write_ok_def le_less)
  then show ?thesis
  proof cases
    case 1
    with w rest have "inn s1 = inn s" "out s1 = out s @ take 0 xs"
      by (auto simp: write_ok_def idle_def)
    then show ?thesis using ne 1 by (auto simp: echo_round_def sl len c echo_step_ok_def Let_def intro!: exI [of _ 0])
  next
    case 2
    have "echo_step_ok inn out xs s (case r of Inl e \<Rightarrow> EchoStop (Inl e) | Inr b \<Rightarrow> EchoNext b) s1"
      using ne w rest 2
      by (cases r) (auto simp: echo_step_ok_def net_ok_defs intro!: exI [of _ "length xs"] split: if_splits)
    then show ?thesis using ne 2
      by (cases r) (auto simp: echo_round_def sl len c Let_def)
  next
    case 3
    with w rest have p: "p = Inl (pe_new ECANCELED v)" and i1: "inn s1 = inn s" "out s1 = out s @ take n xs"
      by (auto simp: write_ok_def idle_def)
    obtain r' s2 m where wa: "write_all net fd (drop n xs) s1 = Done (r', s2)" "inn s2 = inn s1"
      "out s2 = out s1 @ take m (drop n xs)" "r' = Inr () \<longrightarrow> length (drop n xs) \<le> m"
      using write_all_sends [OF laws] by blast
    have eq: "echo_round net fd v s =
        Done (case r' of Inl e \<Rightarrow> (EchoStop (Inl e), s2) | Inr _ \<Rightarrow> echo_restart net fd v s2)"
      using ne 3 wa(1)
      by (cases r') (auto simp: echo_round_def sl len c p Let_def pe_into_buffer_def pe_new_def)
    show ?thesis
    proof (cases r')
      case (Inl e)
      have "out s2 = out s @ take (n + m) xs" using wa i1 by (simp add: take_add)
      then show ?thesis using eq Inl wa i1 ne by (auto simp: echo_step_ok_def)
    next
      case (Inr u)
      with wa(3,4) i1 have "out s2 = out s @ xs" by simp
      then show ?thesis using eq Inr echo_restart_ok [OF laws _ ne, of v s2] wa(2) i1(1)
        by (cases "echo_restart net fd v s2") auto
    qed
  qed
qed

section \<open>The loop\<close>

lemma echo_loop_echoes:
  assumes laws: "net_laws L net fd inn out"
  shows "fv_rep v BUFFER_SIZE xs \<Longrightarrow> (xs = [] \<longrightarrow> inn s = []) \<Longrightarrow>
    \<exists>r s' n. echo_loop net fd v s = Some (Done (r, s')) \<and> out s' = out s @ take n (xs @ inn s) \<and>
      (r = Inr () \<longrightarrow> length (xs @ inn s) \<le> n)"
proof (induction "length (inn s) + (if xs = [] then 0 else 1)" arbitrary: v xs s rule: less_induct)
  case less
  obtain f s1 where r: "echo_round net fd v s = Done (f, s1)" and ok: "echo_step_ok inn out xs s f s1"
    using echo_round_ok [OF laws less.prems(1)] by blast
  show ?case
  proof (cases f)
    case (EchoStop q)
    with ok obtain n where "out s1 = out s @ take n xs" "q = Inr () \<longrightarrow> xs = []"
      by (auto simp: echo_step_ok_def)
    moreover from this have "out s1 = out s @ take (min n (length xs)) (xs @ inn s)"
      by (simp add: min_def)
    ultimately show ?thesis using less.prems(2) EchoStop r
      by (subst echo_loop.simps) (auto intro!: exI [of _ "min n (length xs)"])
  next
    case (EchoNext b)
    with ok obtain ys where b: "xs \<noteq> []" "out s1 = out s @ xs" "fv_rep b BUFFER_SIZE ys"
      "inn s = ys @ inn s1" "ys = [] \<longrightarrow> inn s = []"
      by (auto simp: echo_step_ok_def)
    then have "length (inn s1) + (if ys = [] then 0 else 1) < length (inn s) + (if xs = [] then 0 else 1)"
      by (auto simp: length_greater_0_conv)
    from less.hyps [OF this b(3)] b(4,5) obtain q s' n where
      "echo_loop net fd b s1 = Some (Done (q, s'))" "out s' = out s1 @ take n (ys @ inn s1)"
      "q = Inr () \<longrightarrow> length (ys @ inn s1) \<le> n"
      by auto
    then show ?thesis using EchoNext r b(2,4)
      by (subst echo_loop.simps) (auto intro!: exI [of _ "length xs + n"])
  qed
qed

section \<open>Properties\<close>



end
