(* ===== verification/Ping_Server.thy ===== *)
theory Ping_Server
  imports Connection Chunks
begin

text \<open>
  The task of a connection in \<open>hamerkop/examples/pingserver.rs\<close>: it answers every \<open>PING\<close> line
  by a \<open>PONG\<close> line.  The bytes of an incomplete line are carried over in \<open>tbuf\<close>, the answers
  of one iteration are collected in \<open>wbuf\<close>.
\<close>

section \<open>The task\<close>

definition PING :: "u8 list" where "PING = [80, 73, 78, 71, 13, 10]"
definition PONG :: "u8 list" where "PONG = [80, 79, 78, 71, 13, 10]"

lemma length_PING [simp]: "length PING = 6" "length PONG = 6"
  by (simp_all add: PING_def PONG_def)

datatype ping_scan = Scanned nat "u8 fixedvec" | BadChunk "u8 list" | ScanError io_error

partial_function (option) ping_loop ::
  "u8 chunks \<Rightarrow> nat \<Rightarrow> u8 fixedvec \<Rightarrow> ping_scan outcome option" where
  "ping_loop iter n wbuf =
     (if 6 < fv_available wbuf
      then obind (Some (chunks_next 6 iter)) (\<lambda>(r, iter). case r of
          None \<Rightarrow> Some (Done (Scanned n wbuf))
        | Some chunk \<Rightarrow>
            if chunk \<noteq> PING then Some (Done (BadChunk chunk))
            else obind (Some (fv_write_all wbuf PONG)) (\<lambda>(r, wbuf). case r of
                Inl e \<Rightarrow> Some (Done (ScanError e))
              | Inr _ \<Rightarrow> ping_loop iter (n + length chunk) wbuf))
      else Some (Done (Scanned n wbuf)))"

text \<open>\<open>transfer_remainder\<close>: a drain that is dropped at once removes its range.\<close>

definition drain_to :: "u8 fixedvec \<Rightarrow> nat \<Rightarrow> u8 fixedvec outcome" where
  "drain_to v n = and_then (fv_drain v Unbounded (Excluded n)) (\<lambda>d.
     and_then (drain_drop False d) (\<lambda>(_, v). Done v))"

definition transfer_remainder ::
  "u8 fixedvec \<Rightarrow> u8 fixedvec \<Rightarrow> nat \<Rightarrow> (u8 fixedvec \<times> u8 fixedvec) outcome" where
  "transfer_remainder a b n =
     assert_then (n \<le> fv_len a + fv_len b)
       (let a_count = min n (fv_len a); b_count = n - a_count
        in and_then (drain_to a a_count) (\<lambda>a.
           and_then (fv_as_slice b) (\<lambda>bs. assert_then (b_count \<le> length bs)
             (and_then (fv_extend_from_slice None a (drop b_count bs)) (\<lambda>(moved, a).
              and_then (drain_to b (b_count + moved)) (\<lambda>b. Done (a, b)))))))"

datatype ping_flow = PingNext "u8 fixedvec" "u8 fixedvec" "u8 fixedvec" | PingStop "io_error + unit"

text \<open>The answers are sent: what follows the linked submission in an iteration.\<close>

definition ping_reply ::
  "'s net \<Rightarrow> 32 word \<Rightarrow> u8 fixedvec \<Rightarrow> u8 fixedvec \<Rightarrow> u8 fixedvec \<Rightarrow> 's \<Rightarrow> (ping_flow \<times> 's) outcome" where
  "ping_reply net fd tbuf wbuf rbuf s =
     and_then (fv_as_slice wbuf) (\<lambda>bytes.
       case net_chain_pwr net fd rbuf bytes BUFFER_SIZE s of ((p, w, r), s) \<Rightarrow>
         (case p of
            Inl pe \<Rightarrow> Done (PingStop (Inl (pe_into_error pe)), s)
          | Inr _ \<Rightarrow> (case w of
              Inl e \<Rightarrow> Done (PingStop (Inl e), s)
            | Inr amount \<Rightarrow>
                and_then
                  (if amount < fv_len wbuf
                   then and_then (write_all net fd (drop amount bytes) s) (\<lambda>(t, s).
                          case t of Inl e \<Rightarrow> Done (Inl e, s)
                          | Inr _ \<Rightarrow> Done (net_read net fd BUFFER_SIZE s))
                   else Done (r, s))
                  (\<lambda>(r, s). case r of
                     Inl e \<Rightarrow> Done (PingStop (Inl e), s)
                   | Inr rbuf \<Rightarrow> and_then (fv_clear False wbuf) (\<lambda>(_, wbuf). Done (PingNext tbuf wbuf rbuf, s))))))"

definition ping_round ::
  "'s net \<Rightarrow> 32 word \<Rightarrow> u8 fixedvec \<Rightarrow> u8 fixedvec \<Rightarrow> u8 fixedvec \<Rightarrow> 's \<Rightarrow> (ping_flow \<times> 's) outcome option" where
  "ping_round net fd tbuf wbuf rbuf s =
     (if fv_len rbuf = 0
      then Some (Done (case net_provide net rbuf s of
          (Inl p, s) \<Rightarrow> (PingStop (Inl (pe_into_error p)), s)
        | (Inr _, s) \<Rightarrow> (PingStop (Inr ()), s)))
      else obind (Some (fv_as_slice tbuf)) (\<lambda>ts. obind (Some (fv_as_slice rbuf)) (\<lambda>rs.
        obind (ping_loop (chunks_new ts rs) 0 wbuf) (\<lambda>scan. case scan of
            BadChunk chunk \<Rightarrow> Some (Done (case net_print net chunk s of
                (Inl e, s) \<Rightarrow> (PingStop (Inl e), s)
              | (Inr _, s) \<Rightarrow> (PingStop (Inr ()), s)))
          | ScanError e \<Rightarrow> Some (Done (PingStop (Inl e), s))
          | Scanned n wbuf \<Rightarrow>
              obind (Some (transfer_remainder tbuf rbuf n)) (\<lambda>(tbuf, rbuf).
                Some (ping_reply net fd tbuf wbuf rbuf s))))))"

partial_function (option) ping_conn_loop ::
  "'s net \<Rightarrow> 32 word \<Rightarrow> u8 fixedvec \<Rightarrow> u8 fixedvec \<Rightarrow> u8 fixedvec \<Rightarrow> 's \<Rightarrow> ((io_error + unit) \<times> 's) outcome option" where
  "ping_conn_loop net fd tbuf wbuf rbuf s =
     obind (ping_round net fd tbuf wbuf rbuf s) (\<lambda>(f, s). case f of
         PingStop r \<Rightarrow> Some (Done (r, s))
       | PingNext tbuf wbuf rbuf \<Rightarrow> ping_conn_loop net fd tbuf wbuf rbuf s)"

definition ping_conn_task ::
  "'s net \<Rightarrow> 32 word \<Rightarrow> u8 fixedvec \<Rightarrow> u8 fixedvec \<Rightarrow> 's \<Rightarrow> ((io_error + unit) \<times> 's) outcome option" where
  "ping_conn_task net fd wbuf tbuf s =
     (case net_read net fd BUFFER_SIZE s of
        (Inl e, s) \<Rightarrow> Some (Done (Inl e, s))
      | (Inr rbuf, s) \<Rightarrow> ping_conn_loop net fd tbuf wbuf rbuf s)"

section \<open>Moving what is left to the front buffer\<close>

lemma drain_to_rep:
  assumes "fv_rep v c xs"
  shows "if n \<le> length xs then \<exists>v'. drain_to v n = Done v' \<and> fv_rep v' c (drop n xs)
    else drain_to v n = Panic"
proof -
  have "drain_to v n = and_then (drain_run False 0 v Unbounded (Excluded n)) (\<lambda>(ys, ds, v'). Done v')"
  proof (cases "fv_drain v Unbounded (Excluded n)")
    case (Done d)
    then show ?thesis
      by (cases "drain_drop False d") (simp_all add: drain_to_def drain_run_def split: prod.split)
  qed (simp_all add: drain_to_def drain_run_def)
  with drain_run_rep [OF assms, of Unbounded "Excluded n" False 0] show ?thesis
    by (auto simp: lower_of_def upper_of_def)
qed

lemma transfer_remainder_rep:
  assumes a: "fv_rep a c xs" and b: "fv_rep b d ys"
  shows "if n \<le> length (xs @ ys)
    then \<exists>a' b'. transfer_remainder a b n = Done (a', b') \<and>
      fv_rep a' c (take c (drop n (xs @ ys))) \<and> fv_rep b' d (drop c (drop n (xs @ ys)))
    else transfer_remainder a b n = Panic"
proof (cases "n \<le> length (xs @ ys)")
  case False
  then show ?thesis by (simp add: transfer_remainder_def fv_rep_len [OF a] fv_rep_len [OF b])
next
  case True
  let ?m = "min n (length xs)" and ?k = "n - min n (length xs)"
  let ?xs = "drop ?m xs" and ?ys = "drop ?k ys"
  obtain a1 where a1: "drain_to a ?m = Done a1" "fv_rep a1 c ?xs"
    using drain_to_rep [OF a, of ?m] by auto
  obtain a2 where a2: "fv_extend_from_slice None a1 ?ys = Done (min (c - length ?xs) (length ?ys), a2)"
    "fv_rep a2 c (?xs @ take (c - length ?xs) ?ys)"
    using fv_extend_from_slice_rep [OF a1(2), of None ?ys] by auto
  let ?j = "?k + min (c - length ?xs) (length ?ys)"
  have k: "?k \<le> length ys" using True by auto
  then have j: "?j \<le> length ys" by auto
  obtain b1 where b1: "drain_to b ?j = Done b1" "fv_rep b1 d (drop ?j ys)"
    using drain_to_rep [OF b, of ?j] unfolding if_P [OF j] by blast
  have rest: "drop n (xs @ ys) = ?xs @ ?ys" by (simp add: min_def)
  have le: "length ?xs \<le> c" using fv_rep_le [OF a] by auto
  have "take c (drop n (xs @ ys)) = ?xs @ take (c - length ?xs) ?ys"
    using le unfolding rest by simp
  moreover have "drop c (drop n (xs @ ys)) = drop ?j ys"
  proof -
    have "drop c (drop n (xs @ ys)) = drop (c - length ?xs) ?ys" using le unfolding rest by simp
    also have "\<dots> = drop (min (c - length ?xs) (length ?ys)) ?ys"
      by (cases "c - length ?xs \<le> length ?ys") simp_all
    also have "\<dots> = drop ?j ys" by (simp only: drop_drop add.commute)
    finally show ?thesis .
  qed
  moreover have "transfer_remainder a b n = Done (a2, b1)"
  proof -
    have n: "n \<le> length xs + length ys" using True by simp
    show ?thesis
      unfolding transfer_remainder_def Let_def fv_rep_len [OF a] fv_rep_len [OF b] fv_as_slice_rep [OF b]
      by (simp only: n k a1(1) a2(1) b1(1) assert_then_True and_then.simps prod.case)
  qed
  ultimately show ?thesis unfolding if_P [OF True] using a2(2) b1(2) by metis
qed

section \<open>Lines\<close>

definition rep_lines :: "nat \<Rightarrow> u8 list \<Rightarrow> u8 list" where
  "rep_lines n w = concat (replicate n w)"

lemma rep_lines_simps [simp]: "rep_lines 0 w = []" "rep_lines (Suc n) w = w @ rep_lines n w"
  by (simp_all add: rep_lines_def)

lemma rep_lines_snoc: "rep_lines n w @ w = rep_lines (Suc n) w"
  by (induction n) simp_all

lemma length_rep_lines [simp]: "length (rep_lines n w) = n * length w"
  by (induction n) simp_all

lemma rep_lines_add: "rep_lines (m + n) w = rep_lines m w @ rep_lines n w"
  by (induction m) simp_all

lemma drop_rep_lines: "drop (n * length w) (rep_lines k w) = rep_lines (k - n) w"
proof (cases "n \<le> k")
  case True
  then obtain j where "k = n + j" using le_Suc_ex by blast
  then show ?thesis by (simp add: rep_lines_add)
qed simp

text \<open>A prefix of such a text: some full lines and an incomplete one.\<close>

lemma rep_lines_prefix:
  assumes eq: "a @ b = rep_lines k w" and w: "0 < length w"
  shows "\<exists>n tail. n \<le> k \<and> a = rep_lines n w @ tail \<and> length tail < length w \<and> tail @ b = rep_lines (k - n) w"
proof -
  let ?n = "length a div length w"
  have len: "?n * length w \<le> length a" by simp
  have "length a \<le> k * length w" using arg_cong [OF eq, of length] by simp
  then have n: "?n \<le> k" using w by (metis div_le_mono nonzero_mult_div_cancel_right not_less0)
  then have k: "rep_lines k w = rep_lines ?n w @ rep_lines (k - ?n) w"
    by (metis le_add_diff_inverse rep_lines_add)
  have "take (?n * length w) (a @ b) = rep_lines ?n w" unfolding eq by (subst k) simp
  then have tk: "take (?n * length w) a = rep_lines ?n w" using len by simp
  have "drop (?n * length w) (a @ b) = rep_lines (k - ?n) w" unfolding eq by (rule drop_rep_lines)
  then have dr: "drop (?n * length w) a @ b = rep_lines (k - ?n) w" using len by simp
  have "length (drop (?n * length w) a) < length w"
    using w by (simp add: minus_div_mult_eq_mod)
  then show ?thesis using n dr append_take_drop_id [of "?n * length w" a] unfolding tk
    by (intro exI [of _ ?n] exI [of _ "drop (?n * length w) a"]) simp
qed

section \<open>One iteration\<close>

text \<open>The buffer of answers has room for 10922 lines.\<close>

lemma ping_loop_answers:
  assumes "fv_rep wbuf BUFFER_SIZE (rep_lines a PONG)"
    and "chunks_rest (slices iter) = rep_lines n PING @ tail" and "length tail < 6"
  shows "\<exists>wbuf'. ping_loop iter k wbuf = Some (Done (Scanned (k + min n (10922 - a) * 6) wbuf')) \<and>
    fv_rep wbuf' BUFFER_SIZE (rep_lines (a + min n (10922 - a)) PONG)"
  using assms
proof (induction n arbitrary: iter k wbuf a)
  case 0
  obtain iter' where "chunks_next 6 iter = Done (None, iter')"
    using chunks_next_result [of 6 iter] "0.prems" by auto
  with "0.prems" show ?case by (subst ping_loop.simps) simp
next
  case (Suc n)
  have av: "fv_available wbuf = 65536 - a * 6"
    using fv_rep_available [OF "Suc.prems"(1)] by (simp add: BUFFER_SIZE_def)
  show ?case
  proof (cases "a < 10922")
    case False
    then have "\<not> 6 < fv_available wbuf" using av by simp
    with "Suc.prems"(1) False show ?thesis by (subst ping_loop.simps) simp
  next
    case True
    have "6 \<le> length (chunks_rest (slices iter))" using "Suc.prems"(2) by simp
    then obtain iter' where it: "chunks_next 6 iter = Done (Some PING, iter')"
      "chunks_rest (slices iter') = rep_lines n PING @ tail"
      using chunks_next_result [of 6 iter] "Suc.prems"(2) by auto
    have room: "length PONG \<le> BUFFER_SIZE - length (rep_lines a PONG)"
      using True by (simp add: BUFFER_SIZE_def)
    then obtain wbuf1 where w: "fv_write_all wbuf PONG = Done (Inr (), wbuf1)"
      and "fv_rep wbuf1 BUFFER_SIZE (rep_lines a PONG @ PONG)"
      using fv_write_all_rep [OF "Suc.prems"(1), of PONG] unfolding if_P [OF room] by auto
    then have "fv_rep wbuf1 BUFFER_SIZE (rep_lines (a + 1) PONG)" by (simp only: rep_lines_snoc Suc_eq_plus1)
    from "Suc.IH" [OF this it(2) "Suc.prems"(3), of "k + 6"] obtain wbuf2 where
      2: "ping_loop iter' (k + 6) wbuf1 = Some (Done (Scanned (k + 6 + min n (10922 - (a + 1)) * 6) wbuf2))"
      "fv_rep wbuf2 BUFFER_SIZE (rep_lines (a + 1 + min n (10922 - (a + 1))) PONG)"
      by blast
    have m: "min (Suc n) (10922 - a) = Suc (min n (10922 - (a + 1)))" using True by simp
    have "6 < fv_available wbuf" using True av by linarith
    then have "ping_loop iter k wbuf = ping_loop iter' (k + 6) wbuf1"
      using it(1) w by (subst ping_loop.simps) simp
    with 2 show ?thesis unfolding m by (simp add: add.assoc add.commute [of 6])
  qed
qed

text \<open>What an iteration on the bytes \<open>rep_lines n PING @ tail\<close> hands to the kernel.\<close>

lemma ping_round_eq:
  assumes t: "fv_rep tbuf BUFFER_SIZE ts" and w: "fv_rep wbuf BUFFER_SIZE []" and r: "fv_rep rbuf BUFFER_SIZE xs"
    and "xs \<noteq> []" and data: "ts @ xs = rep_lines n PING @ tail" and "length tail < 6"
  shows "\<exists>tb wb rb. ping_round net fd tbuf wbuf rbuf s = Some (ping_reply net fd tb wb rb s) \<and>
    fv_rep tb BUFFER_SIZE (take BUFFER_SIZE (drop (min n 10922 * 6) (ts @ xs))) \<and>
    fv_rep wb BUFFER_SIZE (rep_lines (min n 10922) PONG)"
proof -
  have rest: "chunks_rest (slices (chunks_new ts xs)) = rep_lines n PING @ tail"
    using data by (simp add: chunks_new_def chunks_rest_def)
  obtain wb where wb: "ping_loop (chunks_new ts xs) 0 wbuf = Some (Done (Scanned (min n 10922 * 6) wb))"
    "fv_rep wb BUFFER_SIZE (rep_lines (min n 10922) PONG)"
    using ping_loop_answers [of wbuf 0, OF _ rest assms(6), of 0] w by auto
  have "length (ts @ xs) = n * 6 + length tail" unfolding data by simp
  then have "min n 10922 * 6 \<le> length (ts @ xs)" by simp
  then obtain tb rb where "transfer_remainder tbuf rbuf (min n 10922 * 6) = Done (tb, rb)"
    "fv_rep tb BUFFER_SIZE (take BUFFER_SIZE (drop (min n 10922 * 6) (ts @ xs)))"
    using transfer_remainder_rep [OF t r, of "min n 10922 * 6"] by auto
  moreover from this wb have "ping_round net fd tbuf wbuf rbuf s = Some (ping_reply net fd tb wb rb s)"
    using assms(4) by (simp add: ping_round_def fv_rep_len [OF r] fv_as_slice_rep [OF t] fv_as_slice_rep [OF r])
  ultimately show ?thesis using wb(2) by blast
qed

text \<open>What becomes of the answers \<open>zs\<close>.\<close>

definition ping_step_ok ::
  "nat \<Rightarrow> ('s \<Rightarrow> u8 list) \<Rightarrow> ('s \<Rightarrow> u8 list) \<Rightarrow> u8 fixedvec \<Rightarrow> u8 list \<Rightarrow> 's \<Rightarrow> ping_flow \<Rightarrow> 's \<Rightarrow> bool" where
  "ping_step_ok L inn out tb zs s f s' \<longleftrightarrow> (case f of
       PingStop r \<Rightarrow> (\<exists>n. out s' = out s @ take n zs) \<and> r \<noteq> Inr ()
     | PingNext tbuf wbuf rbuf \<Rightarrow> tbuf = tb \<and> fv_rep wbuf BUFFER_SIZE [] \<and> out s' = out s @ zs \<and>
         (\<exists>ys. fv_rep rbuf BUFFER_SIZE ys \<and> length ys \<le> L \<and> inn s = ys @ inn s' \<and> (ys = [] \<longrightarrow> inn s = [])))"

text \<open>The last step of an iteration, once the answers are written.\<close>

lemma ping_finish_ok:
  assumes read: "read_ok L inn out s2 r s'" and w: "fv_rep wb BUFFER_SIZE zs"
    and "inn s2 = inn s" and "out s2 = out s @ zs"
  shows "\<exists>f. (case r of Inl e \<Rightarrow> Done (PingStop (Inl e), s')
      | Inr rbuf \<Rightarrow> and_then (fv_clear False wb) (\<lambda>(_, wbuf). Done (PingNext tb wbuf rbuf, s'))) = Done (f, s') \<and>
    ping_step_ok L inn out tb zs s f s'"
proof (cases r)
  case (Inl e)
  with assms show ?thesis
    by (auto simp: ping_step_ok_def read_ok_def intro!: exI [of _ "length zs"])
next
  case (Inr b)
  obtain wb' where "fv_clear False wb = Done ([], wb')" "fv_rep wb' BUFFER_SIZE []"
    using fv_truncate_rep [OF w, of False 0] by (auto simp: fv_clear_truncate)
  with Inr assms show ?thesis by (auto simp: ping_step_ok_def read_ok_def)
qed

lemma ping_reply_ok:
  assumes laws: "net_laws L net fd inn out" and w: "fv_rep wb BUFFER_SIZE zs"
  shows "\<exists>f s'. ping_reply net fd tb wb rb s = Done (f, s') \<and> ping_step_ok L inn out tb zs s f s'"
proof -
  note sl = fv_as_slice_rep [OF w] and len = fv_rep_len [OF w]
  obtain p a r s1 where c: "net_chain_pwr net fd rb zs BUFFER_SIZE s = ((p, a, r), s1)"
    by (metis prod_cases3 surj_pair)
  then obtain s0 where p: "provide_ok inn out rb s p s0" and rest: "if p = Inr ()
      then \<exists>s2. write_ok inn out zs s0 a s2 \<and>
        (if a = Inr (length zs) then read_ok L inn out s2 r s1 else r = Inl ECANCELED \<and> idle inn out s2 s1)
      else a = Inl ECANCELED \<and> r = Inl ECANCELED \<and> idle inn out s0 s1"
    using net_lawsD(5) [OF laws c] by (auto simp: pwr_ok_def)
  show ?thesis
  proof (cases p)
    case (Inl e)
    with p rest have "out s1 = out s @ take 0 zs" by (auto simp: provide_ok_def idle_def)
    then show ?thesis using Inl c by (auto simp: ping_reply_def sl ping_step_ok_def intro!: exI [of _ 0])
  next
    case pr: (Inr u)
    with rest obtain s2 where wr: "write_ok inn out zs s0 a s2"
      and rd: "if a = Inr (length zs) then read_ok L inn out s2 r s1 else r = Inl ECANCELED \<and> idle inn out s2 s1"
      by auto
    have io0: "inn s0 = inn s" "out s0 = out s" using p by (simp_all add: provide_ok_def idle_def)
    consider e where "a = Inl e" | "a = Inr (length zs)" | n where "a = Inr n" "n < length zs"
      using wr by (cases a) (auto simp: write_ok_def le_less)
    then show ?thesis
    proof cases
      case 1
      with wr rd io0 have "out s1 = out s @ take 0 zs" by (auto simp: write_ok_def idle_def)
      then show ?thesis using 1 pr c by (auto simp: ping_reply_def sl ping_step_ok_def intro!: exI [of _ 0])
    next
      case 2
      with wr rd io0 have "read_ok L inn out s2 r s1" "inn s2 = inn s" "out s2 = out s @ zs"
        by (simp_all add: write_ok_def)
      from ping_finish_ok [OF this(1) w this(2,3), of tb] show ?thesis
        using 2 pr c by (auto simp: ping_reply_def sl len)
    next
      case 3
      with wr rd io0 have i1: "inn s1 = inn s" "out s1 = out s @ take n zs"
        by (auto simp: write_ok_def idle_def)
      obtain t s3 m where wa: "write_all net fd (drop n zs) s1 = Done (t, s3)" "inn s3 = inn s1"
        "out s3 = out s1 @ take m (drop n zs)" "t = Inr () \<longrightarrow> length (drop n zs) \<le> m"
        using write_all_sends [OF laws] by blast
      show ?thesis
      proof (cases t)
        case (Inl e)
        have "out s3 = out s @ take (n + m) zs" using wa i1 by (simp add: take_add)
        then show ?thesis using 3 pr c wa Inl by (auto simp: ping_reply_def sl len ping_step_ok_def)
      next
        case (Inr u)
        with wa i1 have i3: "inn s3 = inn s" "out s3 = out s @ zs" by simp_all
        obtain q s4 where q: "net_read net fd BUFFER_SIZE s3 = (q, s4)" by fastforce
        from ping_finish_ok [OF net_lawsD(1) [OF laws q] w i3, of tb] show ?thesis
          using 3 pr c wa(1) Inr q by (auto simp: ping_reply_def sl len)
      qed
    qed
  qed
qed

section \<open>The loop\<close>

lemma ping_loop_serves:
  assumes laws: "net_laws 65521 net fd inn out"
  shows "fv_rep tbuf BUFFER_SIZE ts \<Longrightarrow> fv_rep wbuf BUFFER_SIZE [] \<Longrightarrow> fv_rep rbuf BUFFER_SIZE xs \<Longrightarrow>
    length ts < 6 \<Longrightarrow> length xs \<le> 65521 \<Longrightarrow> (xs = [] \<longrightarrow> inn s = []) \<Longrightarrow> (ts @ xs) @ inn s = rep_lines k PING \<Longrightarrow>
    \<exists>r s' n. ping_conn_loop net fd tbuf wbuf rbuf s = Some (Done (r, s')) \<and>
      out s' = out s @ take n (rep_lines k PONG) \<and> (r = Inr () \<longrightarrow> k * 6 \<le> n)"
proof (induction "length (inn s) + (if xs = [] then 0 else 1)" arbitrary: tbuf wbuf rbuf ts xs s k rule: less_induct)
  case less
  show ?case
  proof (cases "xs = []")
    case True
    obtain p s1 where p: "net_provide net rbuf s = (p, s1)" by fastforce
    have "ping_conn_loop net fd tbuf wbuf rbuf s = Some (Done (map_sum pe_into_error id p, s1))"
      using True p by (cases p) (simp_all add: ping_conn_loop.simps ping_round_def fv_rep_len [OF less.prems(3)])
    moreover have "out s1 = out s" using net_lawsD(3) [OF laws p] by (simp add: provide_ok_def idle_def)
    moreover have "k = 0"
      using less.prems(4,6) True arg_cong [OF less.prems(7), of length] by simp
    ultimately show ?thesis by simp
  next
    case False
    obtain n tail where pre: "n \<le> k" "ts @ xs = rep_lines n PING @ tail" "length tail < length PING"
      "tail @ inn s = rep_lines (k - n) PING"
      using rep_lines_prefix [OF less.prems(7)] by auto
    have "n * 6 + length tail = length ts + length xs" using arg_cong [OF pre(2), of length] by simp
    with less.prems(4,5) have "n \<le> 10922" by linarith
    then have m: "min n 10922 = n" by simp
    have rest: "drop (n * 6) (ts @ xs) = tail" unfolding pre(2) by simp
    have tl: "take BUFFER_SIZE tail = tail" using pre(3) by (simp add: BUFFER_SIZE_def)
    obtain tb wb rb where eq: "ping_round net fd tbuf wbuf rbuf s = Some (ping_reply net fd tb wb rb s)"
      and tb: "fv_rep tb BUFFER_SIZE tail" and wb: "fv_rep wb BUFFER_SIZE (rep_lines n PONG)"
      using ping_round_eq [OF less.prems(1-3) False pre(2), of net fd s] pre(3) unfolding m rest tl by auto
    obtain f s1 where f: "ping_reply net fd tb wb rb s = Done (f, s1)"
      "ping_step_ok 65521 inn out tb (rep_lines n PONG) s f s1"
      using ping_reply_ok [OF laws wb] by blast
    have k: "rep_lines k PONG = rep_lines n PONG @ rep_lines (k - n) PONG"
      using pre(1) by (metis le_add_diff_inverse rep_lines_add)
    show ?thesis
    proof (cases f)
      case (PingStop q)
      with f(2) obtain i where "out s1 = out s @ take i (rep_lines n PONG)" "q \<noteq> Inr ()"
        by (auto simp: ping_step_ok_def)
      moreover from this have "out s1 = out s @ take (min i (n * 6)) (rep_lines k PONG)"
        unfolding k by (simp add: min_def)
      ultimately show ?thesis using PingStop f(1) eq
        by (subst ping_conn_loop.simps) (auto intro!: exI [of _ "min i (n * 6)"])
    next
      case (PingNext tb' wb' rb')
      with f(2) obtain ys where y: "tb' = tb" "fv_rep wb' BUFFER_SIZE []" "out s1 = out s @ rep_lines n PONG"
        "fv_rep rb' BUFFER_SIZE ys" "length ys \<le> 65521" "inn s = ys @ inn s1" "ys = [] \<longrightarrow> inn s1 = []"
        by (auto simp: ping_step_ok_def)
      have smaller: "length (inn s1) + (if ys = [] then 0 else 1) < length (inn s) + (if xs = [] then 0 else 1)"
        using False by (auto simp: y(6) length_greater_0_conv)
      have "(tail @ ys) @ inn s1 = rep_lines (k - n) PING" using pre(4) y(6) by simp
      from less.hyps [OF smaller tb y(2,4) _ y(5,7) this] pre(3) obtain q s' i where
        "ping_conn_loop net fd tb wb' rb' s1 = Some (Done (q, s'))"
        "out s' = out s1 @ take i (rep_lines (k - n) PONG)" "q = Inr () \<longrightarrow> (k - n) * 6 \<le> i"
        by auto
      moreover from this(2) have "out s' = out s @ take (n * 6 + i) (rep_lines k PONG)"
        unfolding k y(3) by simp
      ultimately show ?thesis using PingNext y(1) f(1) eq pre(1)
        by (subst ping_conn_loop.simps) (auto simp: diff_mult_distrib intro!: exI [of _ "n * 6 + i"])
    qed
  qed
qed

section \<open>Properties\<close>

theorem transfer_remainder_keeps:
  assumes "fv_rep a c xs" and "fv_rep b d ys"
  shows "if n \<le> length (xs @ ys)
    then \<exists>a' b' us vs. transfer_remainder a b n = Done (a', b') \<and> fv_rep a' c us \<and> fv_rep b' d vs \<and>
      us @ vs = drop n (xs @ ys) \<and> (vs \<noteq> [] \<longrightarrow> length us = c)
    else transfer_remainder a b n = Panic"
proof (cases "n \<le> length (xs @ ys)")
  case True
  let ?zs = "drop n (xs @ ys)"
  have "take c ?zs @ drop c ?zs = ?zs" and "drop c ?zs \<noteq> [] \<longrightarrow> length (take c ?zs) = c"
    by (simp only: append_take_drop_id) (simp only: drop_eq_Nil length_take, simp)
  with transfer_remainder_rep [OF assms, of n] show ?thesis unfolding if_P [OF True] by blast
qed (use transfer_remainder_rep [OF assms, of n] in simp)

theorem transfer_remainder_keeps_witness:
  "\<exists>a' b' us vs. transfer_remainder \<lparr>fdata = [Some 1, Some 2, None], fsize = 2\<rparr>
      \<lparr>fdata = [Some 3, Some 4, Some 5], fsize = 3\<rparr> 1 = Done (a', b') \<and> us @ vs = [2 :: u8, 3, 4, 5] \<and> length us = 3"
proof -
  have "fv_rep \<lparr>fdata = [Some 1, Some 2, None], fsize = 2\<rparr> 3 [1, 2]"
    and "fv_rep \<lparr>fdata = [Some 3, Some 4, Some 5], fsize = 3\<rparr> 3 [3, 4, 5]"
    by (simp_all add: fv_rep_def)
  from transfer_remainder_keeps [OF this, of 1]
  have "\<exists>a' b' us vs. transfer_remainder \<lparr>fdata = [Some 1, Some 2, None], fsize = 2\<rparr>
      \<lparr>fdata = [Some 3, Some 4, Some 5], fsize = 3\<rparr> 1 = Done (a', b') \<and> fv_rep a' 3 us \<and> fv_rep b' 3 vs \<and>
      us @ vs = [2, 3, 4, 5] \<and> (vs \<noteq> [] \<longrightarrow> length us = 3)"
    by simp
  then obtain a' b' us vs where
    1: "transfer_remainder \<lparr>fdata = [Some 1, Some 2, None], fsize = 2\<rparr>
      \<lparr>fdata = [Some 3, Some 4, Some 5], fsize = 3\<rparr> 1 = Done (a', b')" and
    2: "fv_rep a' 3 us" "us @ vs = [2, 3, 4, 5]" "vs \<noteq> [] \<longrightarrow> length us = 3"
    by blast
  have "length us + length vs = 4" using arg_cong [OF 2(2), of length] by simp
  with 2(3) fv_rep_le [OF 2(1)] have len: "length us = 3" by (cases "vs = []") simp_all
  show ?thesis
    by (rule exI [of _ a'], rule exI [of _ b'], rule exI [of _ us], rule exI [of _ vs], intro conjI)
      (rule 1, rule 2(2), rule len)
qed



text \<open>The same server when reads may fill their buffer.\<close>

lemma ping_reply_slow:
  assumes w: "fv_rep wb BUFFER_SIZE zs" and "length zs \<le> W" and L: "L \<le> BUFFER_SIZE"
  shows "\<exists>wb' rb'. ping_reply (slow_net L W) fd tb wb rb s = Done (PingNext tb wb' rb', drop L (fst s), snd s @ zs) \<and>
    fv_rep wb' BUFFER_SIZE [] \<and> fv_rep rb' BUFFER_SIZE (take L (fst s))"
proof -
  obtain wb' where "fv_clear False wb = Done ([], wb')" "fv_rep wb' BUFFER_SIZE []"
    using fv_truncate_rep [OF w, of False 0] by (auto simp: fv_clear_truncate)
  moreover have "fv_rep \<lparr>fdata = map Some (take L (fst s)) @ replicate (BUFFER_SIZE - length (take L (fst s))) None,
      fsize = length (take L (fst s))\<rparr> BUFFER_SIZE (take L (fst s))"
    using L by (intro fv_repI) auto
  ultimately show ?thesis using assms(2)
    by (auto simp: ping_reply_def fv_as_slice_rep [OF w] fv_rep_len [OF w] slow_net_def slow_read_def slow_write_def Let_def)
qed

lemma ping_conn_step:
  assumes t: "fv_rep tbuf BUFFER_SIZE ts" and w: "fv_rep wbuf BUFFER_SIZE []" and r: "fv_rep rbuf BUFFER_SIZE xs"
    and "xs \<noteq> []" and "ts @ xs = rep_lines n PING @ tail" and "length tail < 6"
  shows "\<exists>tb wb rb. ping_conn_loop (slow_net 65536 65536) fd tbuf wbuf rbuf (inp, outp) =
      ping_conn_loop (slow_net 65536 65536) fd tb wb rb (drop 65536 inp, outp @ rep_lines (min n 10922) PONG) \<and>
    fv_rep tb BUFFER_SIZE (take BUFFER_SIZE (drop (min n 10922 * 6) (ts @ xs))) \<and>
    fv_rep wb BUFFER_SIZE [] \<and> fv_rep rb BUFFER_SIZE (take 65536 inp)"
proof -
  let ?net = "slow_net 65536 65536"
  obtain tb wb rb where 1: "ping_round ?net fd tbuf wbuf rbuf (inp, outp) = Some (ping_reply ?net fd tb wb rb (inp, outp))"
    "fv_rep tb BUFFER_SIZE (take BUFFER_SIZE (drop (min n 10922 * 6) (ts @ xs)))"
    "fv_rep wb BUFFER_SIZE (rep_lines (min n 10922) PONG)"
    using ping_round_eq [OF assms, of ?net fd "(inp, outp)"] by blast
  have le: "length (rep_lines (min n 10922) PONG) \<le> 65536" by (simp add: min_def)
  obtain wb' rb' where 2: "ping_reply ?net fd tb wb rb (inp, outp) =
      Done (PingNext tb wb' rb', drop 65536 inp, outp @ rep_lines (min n 10922) PONG)"
    "fv_rep wb' BUFFER_SIZE []" "fv_rep rb' BUFFER_SIZE (take 65536 inp)"
    using ping_reply_slow [OF 1(3) le, of 65536 fd tb rb "(inp, outp)"] by (auto simp: BUFFER_SIZE_def)
  have "ping_conn_loop ?net fd tbuf wbuf rbuf (inp, outp) =
      ping_conn_loop ?net fd tb wb' rb' (drop 65536 inp, outp @ rep_lines (min n 10922) PONG)"
    using 1(1) 2(1) by (subst ping_conn_loop.simps) simp
  with 1(2) 2(2,3) show ?thesis by blast
qed

theorem ping_burst_unanswered:
  "net_laws BUFFER_SIZE (slow_net 65536 65536) fd fst snd \<and>
   ping_conn_task (slow_net 65536 65536) fd (fv_with_capacity BUFFER_SIZE) (fv_with_capacity BUFFER_SIZE)
      (rep_lines 21845 PING, []) = Some (Done (Inr (), [], rep_lines 21844 PONG))"
proof
  show "net_laws BUFFER_SIZE (slow_net 65536 65536) fd fst snd"
    using slow_net_laws [of 65536 65536 fd] by (simp add: BUFFER_SIZE_def)
next
  let ?net = "slow_net 65536 65536" and ?I = "rep_lines 21845 PING"
  let ?x1 = "take 65536 ?I" and ?x2 = "drop 65536 ?I" and ?t1 = "drop 65532 (take 65536 ?I)"
  have split1: "?I = rep_lines 10922 PING @ rep_lines 10923 PING"
    using rep_lines_add [of 10922 10923 PING] by simp
  have x1: "[] @ ?x1 = rep_lines 10922 PING @ take 4 (rep_lines 10923 PING)"
    unfolding split1 by simp
  have t1: "?t1 = take 4 (rep_lines 10923 PING)" unfolding split1 by simp
  have x2: "?t1 @ ?x2 = rep_lines 10923 PING @ []"
    unfolding t1 split1 by simp
  have "length ?x1 = 65536" and "length ?x2 = 65534" by simp_all
  then have ne1: "?x1 \<noteq> []" and ne2: "?x2 \<noteq> []" by (metis list.size(3) zero_neq_numeral)+
  have short1: "length (take 4 (rep_lines 10923 PING)) < 6" by simp
  let ?v = "fv_with_capacity BUFFER_SIZE :: u8 fixedvec"
  obtain rb0 where 0: "net_read ?net fd BUFFER_SIZE (?I, []) = (Inr rb0, ?x2, [])" "fv_rep rb0 BUFFER_SIZE ?x1"
    by (simp add: slow_net_def slow_read_def Let_def BUFFER_SIZE_def fv_rep_def)
  obtain tb1 wb1 rb1 where 1:
    "ping_conn_loop ?net fd ?v ?v rb0 (?x2, []) =
      ping_conn_loop ?net fd tb1 wb1 rb1 (drop 65536 ?x2, [] @ rep_lines (min 10922 10922) PONG)"
    "fv_rep tb1 BUFFER_SIZE (take BUFFER_SIZE (drop (min 10922 10922 * 6) ([] @ ?x1)))"
    "fv_rep wb1 BUFFER_SIZE []" "fv_rep rb1 BUFFER_SIZE (take 65536 ?x2)"
    using ping_conn_step [OF fv_with_capacity_rep fv_with_capacity_rep 0(2) ne1 x1 short1, of fd ?x2 "[]"] by blast
  have tb1: "fv_rep tb1 BUFFER_SIZE ?t1" using 1(2) by (simp add: BUFFER_SIZE_def)
  have rb1: "fv_rep rb1 BUFFER_SIZE ?x2" using 1(4) by simp
  obtain tb2 wb2 rb2 where 2:
    "ping_conn_loop ?net fd tb1 wb1 rb1 ([], rep_lines 10922 PONG) =
      ping_conn_loop ?net fd tb2 wb2 rb2 (drop 65536 [], rep_lines 10922 PONG @ rep_lines (min 10923 10922) PONG)"
    "fv_rep rb2 BUFFER_SIZE (take 65536 [])"
    using ping_conn_step [OF tb1 1(3) rb1 ne2 x2, of fd "[]" "rep_lines 10922 PONG"] by auto
  have rb2: "fv_len rb2 = 0" using fv_rep_len [OF 2(2)] by simp
  have all: "rep_lines 10922 PONG @ rep_lines (min 10923 10922) PONG = rep_lines 21844 PONG"
    using rep_lines_add [of 10922 10922 PONG] by simp
  have "ping_conn_loop ?net fd tb2 wb2 rb2 ([], rep_lines 21844 PONG) = Some (Done (Inr (), [], rep_lines 21844 PONG))"
    using rb2 by (subst ping_conn_loop.simps) (simp add: ping_round_def slow_net_def)
  then have "ping_conn_loop ?net fd ?v ?v rb0 (?x2, []) = Some (Done (Inr (), [], rep_lines 21844 PONG))"
    using 1(1) 2(1) unfolding all by simp
  then show "ping_conn_task ?net fd ?v ?v (?I, []) = Some (Done (Inr (), [], rep_lines 21844 PONG))"
    using 0(1) by (simp add: ping_conn_task_def)
qed

end
