(* ===== verification/Acceptor.thy ===== *)
theory Acceptor
  imports Prelude
begin

text \<open>
  How a connection reaches its task in \<open>hamerkop/examples/echoserver.rs\<close> (and in
  \<open>pingserver.rs\<close>, which has the same code): \<open>acceptor_thread\<close> accepts connections, counts each
  one in an eventfd and sends it through a channel; the loop of \<open>main_task\<close> reads the eventfd and
  spawns a task for every connection in the channel.  The two run on different threads, so a
  system call or a channel operation of either of them is one step, and clients connect at any
  time.  A write to an eventfd adds to its counter and blocks when that would exceed
  \<open>2 ^ 64 - 2\<close>; a read blocks while the counter is 0, and takes all of it or, with the flag
  \<open>EFD_SEMAPHORE\<close>, one.
\<close>

section \<open>The eventfd\<close>

text \<open>\<open>main\<close> passes \<open>FD_CLOEXEC\<close>, which has the value of \<open>EFD_SEMAPHORE\<close>.\<close>

definition FD_CLOEXEC :: nat where "FD_CLOEXEC = 1"
definition EFD_SEMAPHORE :: nat where "EFD_SEMAPHORE = 1"

definition event_flags :: nat where "event_flags = FD_CLOEXEC"

definition eventfd_after_read :: "nat \<Rightarrow> nat \<Rightarrow> nat" where
  "eventfd_after_read flags n = (if odd (flags div EFD_SEMAPHORE) then n - 1 else 0)"

section \<open>The two loops\<close>

datatype 'c acceptor_pc = AtAccept | Accepted 'c | Notified 'c | AcceptorDone "io_error + unit"

datatype main_pc = AtRead | InTryIter | MainDone io_error

record 'c server =
  sv_arrived :: "'c list"
  sv_backlog :: "'c list"
  sv_eventfd :: nat
  sv_channel :: "'c list"
  sv_spawned :: "'c list"
  sv_acceptor :: "'c acceptor_pc"
  sv_main :: main_pc

definition sv_start :: "'c server" where
  "sv_start = \<lparr>sv_arrived = [], sv_backlog = [], sv_eventfd = 0, sv_channel = [], sv_spawned = [],
     sv_acceptor = AtAccept, sv_main = AtRead\<rparr>"

text \<open>A client connects.\<close>

definition sv_connect :: "'c \<Rightarrow> 'c server \<Rightarrow> 'c server" where
  "sv_connect c s = s\<lparr>sv_arrived := sv_arrived s @ [c], sv_backlog := sv_backlog s @ [c]\<rparr>"

text \<open>
  A step of the acceptor: \<open>fault\<close> is \<open>Some e\<close> when the system call of the step fails with error
  number \<open>e\<close>.  The error of a failed write is made from its return value, which is \<open>-1\<close>.
  Sending fails when the receiver, which the main task owns, is gone.  \<open>None\<close> means blocked or
  finished.
\<close>

fun acceptor_step :: "int option \<Rightarrow> 'c server \<Rightarrow> 'c server option" where
  "acceptor_step fault s =
     (case sv_acceptor s of
        AtAccept \<Rightarrow>
          (case fault of
             Some e \<Rightarrow> Some (s\<lparr>sv_acceptor := AcceptorDone (Inl (OsError e))\<rparr>)
           | None \<Rightarrow> (case sv_backlog s of
               [] \<Rightarrow> None
             | conn # rest \<Rightarrow> Some (s\<lparr>sv_backlog := rest, sv_acceptor := Accepted conn\<rparr>)))
      | Accepted conn \<Rightarrow>
          (case fault of
             Some e \<Rightarrow> (let ret = - 1 in Some (s\<lparr>sv_acceptor := AcceptorDone (Inl (OsError (- ret)))\<rparr>))
           | None \<Rightarrow>
               if sv_eventfd s + 1 \<le> 2 ^ 64 - 2
               then Some (s\<lparr>sv_eventfd := sv_eventfd s + 1, sv_acceptor := Notified conn\<rparr>) else None)
      | Notified conn \<Rightarrow>
          (case sv_main s of
             MainDone _ \<Rightarrow> Some (s\<lparr>sv_acceptor := AcceptorDone (Inr ())\<rparr>)
           | _ \<Rightarrow> Some (s\<lparr>sv_channel := sv_channel s @ [conn], sv_acceptor := AtAccept\<rparr>))
      | AcceptorDone r \<Rightarrow> None)"

text \<open>A step of the main task: the awaited read, or one round of the loop over \<open>try_iter\<close>.\<close>

fun main_step :: "int option \<Rightarrow> 'c server \<Rightarrow> 'c server option" where
  "main_step fault s =
     (case sv_main s of
        AtRead \<Rightarrow>
          (case fault of
             Some e \<Rightarrow> Some (s\<lparr>sv_main := MainDone (OsError e)\<rparr>)
           | None \<Rightarrow> if sv_eventfd s = 0 then None else Some (s\<lparr>sv_eventfd := eventfd_after_read event_flags (sv_eventfd s), sv_main := InTryIter\<rparr>))
      | InTryIter \<Rightarrow>
          (case sv_channel s of
             [] \<Rightarrow> Some (s\<lparr>sv_main := AtRead\<rparr>)
           | conn # rest \<Rightarrow> Some (s\<lparr>sv_channel := rest, sv_spawned := sv_spawned s @ [conn]\<rparr>))
      | MainDone e \<Rightarrow> None)"

inductive sv_reach :: "'c server \<Rightarrow> bool" where
  start: "sv_reach sv_start"
| connect: "sv_reach s \<Longrightarrow> sv_reach (sv_connect c s)"
| acceptor: "sv_reach s \<Longrightarrow> acceptor_step fault s = Some s' \<Longrightarrow> sv_reach s'"
| main: "sv_reach s \<Longrightarrow> main_step fault s = Some s' \<Longrightarrow> sv_reach s'"

section \<open>Invariants\<close>

definition in_hand :: "'c server \<Rightarrow> 'c list" where
  "in_hand s = (case sv_acceptor s of Accepted c \<Rightarrow> [c] | Notified c \<Rightarrow> [c] | _ \<Rightarrow> [])"

fun accepting :: "'c acceptor_pc \<Rightarrow> bool" where
  "accepting (AcceptorDone r) = False"
| "accepting pc = True"

text \<open>While the acceptor runs, a connection is in one place only, and the places are in order; and
  a main task that waits on a counter of 0 has at most one connection before it, which was sent
  after its notification was consumed.\<close>

definition sv_inv :: "'c server \<Rightarrow> bool" where
  "sv_inv s \<longleftrightarrow>
     (accepting (sv_acceptor s) \<longrightarrow> sv_arrived s = sv_spawned s @ sv_channel s @ in_hand s @ sv_backlog s) \<and>
     (\<exists>rest. sv_arrived s = sv_spawned s @ sv_channel s @ rest) \<and>
     (sv_main s = AtRead \<and> sv_eventfd s = 0 \<longrightarrow>
        length (sv_channel s) \<le> (case sv_acceptor s of Notified c \<Rightarrow> 0 | _ \<Rightarrow> 1))"

lemma sv_inv_connect: "sv_inv s \<Longrightarrow> sv_inv (sv_connect c s)"
  by (auto simp: sv_inv_def sv_connect_def in_hand_def)

lemma sv_inv_acceptor: "sv_inv s \<Longrightarrow> acceptor_step fault s = Some s' \<Longrightarrow> sv_inv s'"
  by (cases "sv_acceptor s")
    (auto simp: sv_inv_def in_hand_def Let_def split: option.splits list.splits main_pc.splits if_splits)

lemma sv_inv_main: "sv_inv s \<Longrightarrow> main_step fault s = Some s' \<Longrightarrow> sv_inv s'"
  by (cases "sv_main s")
    (auto simp: sv_inv_def in_hand_def split: option.splits list.splits acceptor_pc.splits if_splits)

lemma sv_reach_inv: "sv_reach s \<Longrightarrow> sv_inv s"
proof (induction rule: sv_reach.induct)
  case start
  show ?case by (simp add: sv_inv_def sv_start_def in_hand_def)
qed (blast intro: sv_inv_connect sv_inv_acceptor sv_inv_main)+

text \<open>Neither loop can go on.\<close>

definition quiescent :: "'c server \<Rightarrow> bool" where
  "quiescent s \<longleftrightarrow> acceptor_step None s = None \<and> main_step None s = None"

text \<open>A run that follows a list of choices: the acceptor (\<open>True\<close>) or the main task.\<close>

fun sv_run :: "bool list \<Rightarrow> 'c server \<Rightarrow> 'c server" where
  "sv_run [] s = s"
| "sv_run (b # bs) s =
     (case (if b then acceptor_step None s else main_step None s) of None \<Rightarrow> s | Some s' \<Rightarrow> sv_run bs s')"

lemma sv_run_reach: "sv_reach s \<Longrightarrow> sv_reach (sv_run bs s)"
proof (induction bs arbitrary: s)
  case (Cons b bs)
  then show ?case
    by (cases b) (auto simp del: acceptor_step.simps main_step.simps split: option.split
        intro: sv_reach.acceptor sv_reach.main)
qed simp

text \<open>The interleaving that strands a connection: the main task consumes the notification and finds
  the channel empty before the connection is sent.\<close>

definition sv_stranded :: "nat server" where
  "sv_stranded = sv_run [True, True, False, False, True] (sv_connect 7 sv_start)"

lemma sv_stranded_eq: "sv_stranded = sv_start\<lparr>sv_arrived := [7], sv_channel := [7]\<rparr>"
  by (simp add: sv_stranded_def sv_connect_def sv_start_def eventfd_after_read_def event_flags_def
      FD_CLOEXEC_def EFD_SEMAPHORE_def)

lemma sv_stranded_reach: "sv_reach sv_stranded"
  unfolding sv_stranded_def by (intro sv_run_reach sv_reach.intros)

section \<open>Properties\<close>

text \<open>C26: In every interleaving of the acceptor thread and the main task, connections are spawned
  in the order they arrive, each at most once, and when neither can go on at most one of them,
  the last, waits in the channel.\<close>

theorem acceptor_strands_at_most_one:
  assumes "sv_reach s"
  shows "(\<exists>rest. sv_arrived s = sv_spawned s @ rest) \<and>
    (quiescent s \<and> sv_acceptor s = AtAccept \<and> sv_main s = AtRead \<longrightarrow>
      sv_arrived s = sv_spawned s \<or> (\<exists>c. sv_channel s = [c] \<and> sv_arrived s = sv_spawned s @ [c]))"
proof -
  have inv: "sv_inv s" using assms by (rule sv_reach_inv)
  moreover have "sv_backlog s = []" and "sv_eventfd s = 0"
    if "quiescent s" and "sv_acceptor s = AtAccept" and "sv_main s = AtRead"
    using that by (auto simp: quiescent_def split: list.splits if_splits)
  ultimately show ?thesis
    by (cases "sv_channel s") (auto simp: sv_inv_def in_hand_def)
qed

theorem acceptor_strands_at_most_one_witness:
  "sv_arrived sv_stranded = [7] \<and> sv_spawned sv_stranded = [] \<and> sv_channel sv_stranded = [7]"
proof -
  have "quiescent sv_stranded" and "sv_acceptor sv_stranded = AtAccept" and "sv_main sv_stranded = AtRead"
    by (simp_all add: sv_stranded_eq quiescent_def sv_start_def)
  with acceptor_strands_at_most_one [OF sv_stranded_reach] show ?thesis
    by (simp add: sv_stranded_eq sv_start_def)
qed

theorem acceptor_loses_wakeup:
  "\<exists>s :: nat server. sv_reach s \<and> quiescent s \<and> sv_acceptor s = AtAccept \<and> sv_main s = AtRead \<and>
    sv_arrived s \<noteq> sv_spawned s"
  using sv_stranded_reach
  by (intro exI [of _ sv_stranded]) (simp add: sv_stranded_eq quiescent_def sv_start_def)

end
