(* ===== verification/Runtime_Run.thy ===== *)
theory Runtime_Run
  imports Runtime
begin

text \<open>
  Whole runs of \<open>hamerkop/src/executor/runtime.rs\<close>: when \<open>Runtime::run\<close> returns, and what
  \<open>Runtime::block_on\<close> leaves behind when a turn fails.
\<close>

section \<open>Tasks that only spawn tasks\<close>

text \<open>A future of weight \<open>sz f\<close> finishes in its first poll and creates futures of a smaller
  total weight.\<close>

definition spawn_tree :: "('f \<Rightarrow> nat) \<Rightarrow> ('f, 'k) task_poll \<Rightarrow> bool" where
  "spawn_tree sz poll \<longleftrightarrow> (\<forall>tid f ctx. \<exists>f' new.
     poll tid f ctx = Some (PReady, f', ctx\<lparr>io_created := io_created ctx @ new\<rparr>) \<and>
     sum_list (map sz new) < sz f)"

definition weight :: "('f \<Rightarrow> nat) \<Rightarrow> (nat \<Rightarrow> 'f option) \<Rightarrow> nat" where
  "weight sz m = (\<Sum>i\<in>dom m. sz (the (m i)))"

lemma weight_upd_None:
  assumes "finite (dom m)" and "m i = Some f"
  shows "weight sz m = sz f + weight sz (m(i := None))"
proof -
  have "dom m = insert i (dom (m(i := None)))" using assms(2) by auto
  then have "weight sz m = (\<Sum>j\<in>insert i (dom (m(i := None))). sz (the (m j)))"
    by (simp only: weight_def)
  also have "\<dots> = sz f + (\<Sum>j\<in>dom (m(i := None)). sz (the (m j)))"
    using assms by (subst sum.insert) simp_all
  also have "(\<Sum>j\<in>dom (m(i := None)). sz (the (m j))) = weight sz (m(i := None))"
    unfolding weight_def by (rule sum.cong) auto
  finally show ?thesis .
qed

lemma weight_upd_le:
  assumes "finite (dom m)"
  shows "weight sz (m(i \<mapsto> f)) \<le> weight sz m + sz f"
proof -
  have "weight sz (m(i \<mapsto> f)) = sz f + weight sz (m(i := None))"
    using weight_upd_None [of "m(i \<mapsto> f)" i f sz] assms by simp
  moreover have "weight sz (m(i := None)) \<le> weight sz m"
    using weight_upd_None [OF assms, of i _ sz] by (cases "m i") (simp_all add: fun_upd_idem)
  ultimately show ?thesis by simp
qed

lemma weight_upds_le:
  "finite (dom m) \<Longrightarrow> weight sz (m(is [\<mapsto>] fs)) \<le> weight sz m + sum_list (map sz fs)"
proof (induction fs arbitrary: m "is")
  case (Cons f fs)
  show ?case
  proof (cases "is")
    case (Cons i js)
    have "finite (dom (m(i \<mapsto> f)))" using "Cons.prems" by simp
    from "Cons.IH" [OF this, of js] weight_upd_le [OF "Cons.prems", of sz i f]
    have "weight sz ((m(i \<mapsto> f))(js [\<mapsto>] fs)) \<le> weight sz m + (sz f + sum_list (map sz fs))" by linarith
    then show ?thesis by (simp only: Cons map_upds_Cons list.map sum_list.Cons)
  qed simp
qed simp

lemma card_weight:
  assumes "finite (dom m)" and "\<And>f. 0 < sz f"
  shows "card (dom m) \<le> weight sz m"
proof -
  have "card (dom m) = (\<Sum>i\<in>dom m. 1)" by simp
  also have "\<dots> \<le> weight sz m"
    unfolding weight_def using assms(2) by (intro sum_mono) (simp add: Suc_leI)
  finally show ?thesis .
qed

lemma length_weight: "(\<And>f. 0 < sz f) \<Longrightarrow> length fs \<le> sum_list (map sz fs)"
proof (induction fs)
  case (Cons f fs)
  then have "length fs \<le> sum_list (map sz fs)" and "0 < sz f" by blast+
  then show ?case by simp
qed simp

text \<open>Polling the queue removes the tasks in it; \<open>n\<close> counts them.\<close>

lemma run_tasks_spawn:
  assumes tree: "spawn_tree sz poll"
  shows "rt_inv rt \<Longrightarrow> \<exists>rt' new n. run_tasks poll ids rt = Some (TOk, rt') \<and> rt_inv rt' \<and>
    rt_untracked rt' = rt_untracked rt \<and> rt_runqueue rt' = rt_runqueue rt \<and>
    dom (sm_get (rt_futures rt')) = dom (sm_get (rt_futures rt)) - set ids \<and>
    rt_ctx rt' = (rt_ctx rt)\<lparr>io_created := io_created (rt_ctx rt) @ new\<rparr> \<and>
    sum_list (map sz new) + weight sz (sm_get (rt_futures rt')) + n \<le> weight sz (sm_get (rt_futures rt)) \<and>
    (n = 0 \<longrightarrow> dom (sm_get (rt_futures rt')) = dom (sm_get (rt_futures rt)))"
proof (induction ids arbitrary: rt)
  case Nil
  then show ?case by (auto intro!: exI [of _ rt] exI [of _ "[]"] exI [of _ 0])
next
  case (Cons tid ids)
  let ?F = "rt_futures rt"
  have F: "sm_inv ?F" and io: "io_inv (rt_ctx rt)" using Cons.prems by (simp_all add: rt_inv_def)
  show ?case
  proof (cases "sm_get ?F tid")
    case None
    with Cons.IH [OF Cons.prems] show ?thesis by (auto simp: domIff)
  next
    case (Some f)
    obtain f' new where p: "poll tid f (rt_ctx rt) = Some (PReady, f', (rt_ctx rt)\<lparr>io_created := io_created (rt_ctx rt) @ new\<rparr>)"
      and less: "sum_list (map sz new) < sz f"
      using tree unfolding spawn_tree_def by blast
    let ?S = "sm_set ?F tid f'" and ?ctx = "(rt_ctx rt)\<lparr>io_created := io_created (rt_ctx rt) @ new\<rparr>"
    let ?gone = "rt\<lparr>rt_ctx := ?ctx, rt_futures := snd (sm_remove ?S tid), rt_active := rt_active rt - 1\<rparr>"
    have S: "sm_inv ?S" "sm_len ?S = sm_len ?F" "sm_get ?S = (sm_get ?F)(tid \<mapsto> f')"
      using sm.put_inv [OF F] sm.put_count [OF F] sm.put_get [OF F, of tid] Some by auto
    have G: "sm_get (snd (sm_remove ?S tid)) = (sm_get ?F)(tid := None)"
      using sm.del_get [OF S(1)] S(3) by simp
    have "sm_get ?S \<noteq> Map.empty" unfolding S(3) by (rule map_upd_nonempty)
    then have "0 < sm_len ?S" using sm.count_zero [OF S(1)] by simp
    then have gone: "rt_inv ?gone" "rt_untracked ?gone = rt_untracked rt"
      using S(1,2) io sm.del_inv [OF S(1)] sm.del_count [OF S(1), of tid] S(3)
      by (simp_all add: rt_inv_def rt_untracked_def of_nat_diff io_inv_def)
    have run: "run_tasks poll (tid # ids) rt = run_tasks poll ids ?gone" by (simp add: Some p Let_def)
    obtain rt' new' n where 1: "run_tasks poll ids ?gone = Some (TOk, rt')" "rt_inv rt'"
      "rt_untracked rt' = rt_untracked ?gone" "rt_runqueue rt' = rt_runqueue ?gone"
      "dom (sm_get (rt_futures rt')) = dom (sm_get (rt_futures ?gone)) - set ids"
      "rt_ctx rt' = (rt_ctx ?gone)\<lparr>io_created := io_created (rt_ctx ?gone) @ new'\<rparr>"
      "sum_list (map sz new') + weight sz (sm_get (rt_futures rt')) + n \<le> weight sz (sm_get (rt_futures ?gone))"
      using Cons.IH [OF gone(1)] by blast
    have "weight sz (sm_get ?F) = sz f + weight sz (sm_get (rt_futures ?gone))"
      using weight_upd_None [OF sm.get_finite [OF F] Some, of sz] by (simp add: G)
    with 1(7) less have "sum_list (map sz (new @ new')) + weight sz (sm_get (rt_futures rt')) + (n + 1)
        \<le> weight sz (sm_get ?F)"
      by simp
    moreover have "dom (sm_get (rt_futures rt')) = dom (sm_get ?F) - set (tid # ids)"
      unfolding 1(5) by (auto simp: G)
    ultimately show ?thesis using 1(1-4,6) gone(2) unfolding run
      by (intro exI [of _ rt'] exI [of _ "new @ new'"] exI [of _ "n + 1"]) simp
  qed
qed

text \<open>One turn when every stored task is queued: all of them finish.\<close>

lemma rt_turn_spawn:
  assumes tree: "spawn_tree sz poll" and inv: "rt_inv rt" and idle: "io_queued (rt_ctx rt) = 0"
    and queued: "dom (sm_get (rt_futures rt)) \<subseteq> set (rt_runqueue rt)" and ne: "\<not> rt_is_empty rt"
    and room: "weight sz (sm_get (rt_futures rt)) + sum_list (map sz (io_created (rt_ctx rt))) \<le> sm_cap"
  shows "\<exists>rt'. rt_turn False enter h poll rt = Some (Done (TOk, rt')) \<and> rt_inv rt' \<and>
    io_queued (rt_ctx rt') = 0 \<and> sm_len (rt_futures rt') = 0 \<and> sm_get (rt_futures rt') = Map.empty \<and>
    rt_untracked rt' = rt_untracked rt \<and>
    sum_list (map sz (io_created (rt_ctx rt')))
      < weight sz (sm_get (rt_futures rt)) + sum_list (map sz (io_created (rt_ctx rt)))"
proof -
  let ?C = "io_created (rt_ctx rt)" and ?m = "sm_get (rt_futures rt)"
  have F: "sm_inv (rt_futures rt)" using inv by (simp add: rt_inv_def)
  have fin: "finite (dom ?m)" by (rule sm.get_finite [OF F])
  have pos: "0 < sz f" for f
    using tree unfolding spawn_tree_def by (metis gr_zeroI not_less_zero)
  have "sm_len (rt_futures rt) + length ?C \<le> sm_cap"
    using room card_weight [of ?m sz, OF fin pos] length_weight [of sz ?C, OF pos] sm.count_card [OF F] by linarith
  then obtain ids rt0 where 0: "rt_gather rt = Done rt0" "rt_inv rt0" "rt_untracked rt0 = rt_untracked rt"
    "rt_ctx rt0 = (rt_ctx rt)\<lparr>io_created := [], io_woken := []\<rparr>"
    "rt_runqueue rt0 = rt_runqueue rt @ ids @ io_woken (rt_ctx rt)" "length ids = length ?C"
    "sm_get (rt_futures rt0) = ?m(ids [\<mapsto>] ?C)"
    using rt_gather_spec [OF inv] by blast
  have q0: "rt_runqueue rt0 \<noteq> []"
  proof (cases "?C = []")
    case True
    then have "?m \<noteq> Map.empty" using ne sm.count_zero [OF F] by (simp add: rt_is_empty_def sm_is_empty_def)
    then obtain i where "i \<in> dom ?m" by auto
    with queued show ?thesis using 0(5) by auto
  next
    case False
    then have "ids \<noteq> []" using 0(6) by auto
    with 0(5) show ?thesis by simp
  qed
  let ?rt1 = "rt0\<lparr>rt_ctx := (rt_ctx rt0)\<lparr>io_queued := 0\<rparr>\<rparr>"
  have 1: "rt_wait False enter rt0 = Some (Done (TOk, ?rt1))"
    using idle q0 by (simp add: rt_wait_def io_has_queued_def 0(4))
  have inv1: "rt_inv ?rt1" "rt_untracked ?rt1 = rt_untracked rt"
    using 0(2,3) by (simp_all add: rt_inv_def io_inv_def rt_untracked_def)
  obtain q ctx2 where 2: "rt_process_cqes False ?rt1 = Done (?rt1\<lparr>rt_runqueue := rt_runqueue rt0 @ q, rt_ctx := ctx2\<rparr>)"
    "io_inv ctx2" "io_same (rt_ctx ?rt1) ctx2"
    using rt_process_cqes_spec [OF inv1(1)] by auto
  obtain queue where 3: "dedup_partial h (rt_runqueue rt0 @ q) = Done queue"
    "set queue = set (rt_runqueue rt0 @ q)"
    using dedup_queue [of h "rt_runqueue rt0 @ q"] by blast
  let ?rt2 = "rt0\<lparr>rt_ctx := ctx2, rt_runqueue := [], rt_polled_dist := rt_polled_dist rt0 @ [length queue]\<rparr>"
  have turn: "rt_turn False enter h poll rt = map_option Done (run_tasks poll queue ?rt2)"
    using 0(1) 1 2(1) 3(1) by (simp add: rt_turn_def)
  have inv2: "rt_inv ?rt2" "rt_untracked ?rt2 = rt_untracked rt"
    using 0(2,3) 2(2) by (simp_all add: rt_inv_def rt_untracked_def)
  have c2: "io_created ctx2 = []" "io_queued ctx2 = 0" using 2(3) by (simp_all add: io_same_def 0(4))
  obtain rt' new n where 4: "run_tasks poll queue ?rt2 = Some (TOk, rt')" "rt_inv rt'"
    "rt_untracked rt' = rt_untracked ?rt2" "dom (sm_get (rt_futures rt')) = dom (sm_get (rt_futures ?rt2)) - set queue"
    "rt_ctx rt' = (rt_ctx ?rt2)\<lparr>io_created := io_created (rt_ctx ?rt2) @ new\<rparr>"
    "sum_list (map sz new) + weight sz (sm_get (rt_futures rt')) + n \<le> weight sz (sm_get (rt_futures ?rt2))"
    "n = 0 \<longrightarrow> dom (sm_get (rt_futures rt')) = dom (sm_get (rt_futures ?rt2))"
    using run_tasks_spawn [OF tree inv2(1), of queue] by blast
  have "dom (sm_get (rt_futures ?rt2)) \<subseteq> dom ?m \<union> set ids" by (auto simp: 0(7) dom_map_upds dest: in_set_takeD)
  then have "dom (sm_get (rt_futures ?rt2)) \<subseteq> set queue" using queued by (auto simp: 3(2) 0(5))
  with 4(4) have none: "dom (sm_get (rt_futures rt')) = {}" by blast
  have "dom (sm_get (rt_futures ?rt2)) \<noteq> {}"
  proof (cases "?C")
    case Nil
    then have "sm_get (rt_futures ?rt2) = ?m" by (simp add: 0(7))
    with Nil show ?thesis using ne sm.count_zero [OF F] by (simp add: rt_is_empty_def sm_is_empty_def)
  next
    case (Cons f fs)
    then obtain i js where "ids = i # js" using 0(6) by (cases ids) auto
    then have "i \<in> dom (sm_get (rt_futures ?rt2))" by (simp add: 0(7) Cons dom_map_upds)
    then show ?thesis by blast
  qed
  with none 4(7) have "0 < n" by auto
  with 4(6) weight_upds_le [OF fin, of sz ids ?C] have
    "sum_list (map sz new) < weight sz ?m + sum_list (map sz ?C)" by (simp add: 0(7))
  moreover have "sm_get (rt_futures rt') = Map.empty" using none by simp
  moreover from this have "sm_len (rt_futures rt') = 0"
    using sm.count_zero 4(2) by (auto simp: rt_inv_def)
  ultimately show ?thesis using turn 4(1-3,5) inv2(2) c2
    by (intro exI [of _ rt']) simp
qed

lemma rt_run_spawn:
  assumes tree: "spawn_tree sz poll"
  shows "rt_inv rt \<Longrightarrow> io_queued (rt_ctx rt) = 0 \<Longrightarrow>
    dom (sm_get (rt_futures rt)) \<subseteq> set (rt_runqueue rt) \<Longrightarrow>
    weight sz (sm_get (rt_futures rt)) + sum_list (map sz (io_created (rt_ctx rt))) \<le> sm_cap \<Longrightarrow>
    \<exists>rt'. rt_run False enter h poll rt = Some (Done (TOk, rt')) \<and> rt_is_empty rt' \<and>
      rt_untracked rt' = rt_untracked rt"
proof (induction "weight sz (sm_get (rt_futures rt)) + sum_list (map sz (io_created (rt_ctx rt)))"
    arbitrary: rt rule: less_induct)
  case less
  show ?case
  proof (cases "rt_is_empty rt")
    case True
    then show ?thesis by (subst rt_run.simps) simp
  next
    case False
    obtain rt1 where 1: "rt_turn False enter h poll rt = Some (Done (TOk, rt1))" "rt_inv rt1"
      "io_queued (rt_ctx rt1) = 0" "sm_get (rt_futures rt1) = Map.empty" "rt_untracked rt1 = rt_untracked rt"
      "sum_list (map sz (io_created (rt_ctx rt1)))
        < weight sz (sm_get (rt_futures rt)) + sum_list (map sz (io_created (rt_ctx rt)))"
      using rt_turn_spawn [OF tree less.prems(1-3) False less.prems(4)] by blast
    have w: "weight sz (sm_get (rt_futures rt1)) = 0" by (simp add: 1(4) weight_def)
    have step: "rt_run False enter h poll rt = rt_run False enter h poll rt1"
      using False 1(1) by (subst rt_run.simps) simp
    show ?thesis using less.hyps [of rt1] 1 w less.prems(4) unfolding step by simp
  qed
qed

section \<open>A turn that fails\<close>

lemma run_tasks_no_error: "run_tasks poll ids rt = Some (res, rt') \<Longrightarrow> res \<noteq> TErr e"
proof (induction ids arbitrary: rt)
  case (Cons tid ids)
  then show ?case by (auto simp: Let_def split: option.splits poll_result.splits)
qed simp

text \<open>The error is the one of the system call, and no task was touched.\<close>

lemma rt_turn_error_futures:
  assumes k: "kernel_keeps_cq enter" "kernel_settles m enter" and inv: "rt_inv rt"
    and room: "sm_len (rt_futures rt) + length (io_created (rt_ctx rt)) \<le> sm_cap"
    and err: "rt_turn False enter h poll rt = Some (Done (TErr e, rt'))"
    and f: "sm_get (rt_futures rt) tid = Some f"
  shows "sm_get (rt_futures rt') tid = Some f"
proof -
  obtain ids rt0 where 0: "rt_gather rt = Done rt0" "rt_inv rt0"
    "\<forall>i\<in>set ids. sm_get (rt_futures rt) i = None"
    "sm_get (rt_futures rt0) = (sm_get (rt_futures rt))(ids [\<mapsto>] io_created (rt_ctx rt))"
    using rt_gather_spec [OF inv room] by blast
  obtain res ctx1 where 1: "rt_wait False enter rt0 = Some (Done (res, rt0\<lparr>rt_ctx := ctx1\<rparr>))"
    "res = TOk \<or> (\<exists>e. res = TErr e)"
    using rt_wait_spec [OF k 0(2)] by blast
  have "res \<noteq> TOk"
  proof
    assume "res = TOk"
    then have "\<exists>queue rt2. run_tasks poll queue rt2 = Some (TErr e, rt')"
      using err 0(1) 1(1) by (auto simp: rt_turn_def obind_def split: outcome.splits)
    then show False using run_tasks_no_error by blast
  qed
  then have "rt' = rt0\<lparr>rt_ctx := ctx1\<rparr>" using err 0(1) 1 by (auto simp: rt_turn_def)
  moreover have "tid \<notin> set ids" using 0(3) f by auto
  ultimately show ?thesis using f by (simp add: 0(4))
qed

section \<open>Properties\<close>

text \<open>C4: Runtime::run returns without an error and leaves no future behind when every task
  finishes in one poll and spawns only tasks of a smaller total weight; the gauge of active
  tasks goes down by the number of futures that were stored.\<close>

theorem run_completes:
  assumes "spawn_tree sz poll" and "rt_inv rt" and "io_queued (rt_ctx rt) = 0"
    and "dom (sm_get (rt_futures rt)) \<subseteq> set (rt_runqueue rt)"
    and "weight sz (sm_get (rt_futures rt)) + sum_list (map sz (io_created (rt_ctx rt))) \<le> sm_cap"
  shows "\<exists>rt'. rt_run False enter h poll rt = Some (Done (TOk, rt')) \<and> rt_is_empty rt' \<and>
    rt_active rt' = rt_active rt - int (sm_len (rt_futures rt))"
  using rt_run_spawn [OF assms, of enter h]
  by (auto simp: rt_untracked_def rt_is_empty_def sm_is_empty_def)


section \<open>Witnesses\<close>

text \<open>Future \<open>n + 1\<close> spawns future \<open>n\<close> twice.\<close>

definition tree_poll :: "(nat, unit) task_poll" where
  "tree_poll tid f ctx =
     Some (PReady, f, ctx\<lparr>io_created := io_created ctx @ (case f of 0 \<Rightarrow> [] | Suc n \<Rightarrow> [n, n])\<rparr>)"

lemma tree_poll_spawns: "spawn_tree (\<lambda>n. 3 ^ n) tree_poll"
  by (auto simp: spawn_tree_def tree_poll_def split: nat.split)

definition tree_demo :: "(nat, unit) runtime" where
  "tree_demo = \<lparr>rt_futures = sm_new, rt_ctx = \<lparr>io_ring = ring_of sq_demo cq_demo, io_created = [2, 1],
     io_completions = sm_new, io_woken = [], io_buffers = sm_new, io_bufsize = 4, io_queued = 0, io_recv_dist = []\<rparr>,
     rt_runqueue = [], rt_polled_dist = [], rt_active = 0\<rparr>"

theorem run_completes_witness:
  "\<exists>rt'. rt_run False eager_kernel (\<lambda>seed v. v) tree_poll tree_demo = Some (Done (TOk, rt')) \<and>
    rt_is_empty rt' \<and> rt_active rt' = 0"
proof -
  have "rt_inv tree_demo"
    by (simp add: tree_demo_def rt_inv_def io_inv_def ring_of_def cq_demo_inv sm_inv_new)
  moreover have "sm_get (rt_futures tree_demo) = Map.empty" by (rule ext) (simp add: tree_demo_def sm_get_new)
  moreover have "sm_len (rt_futures tree_demo) = 0" by (simp add: tree_demo_def sm_len_def sm_new_def)
  moreover have "weight (\<lambda>n. 3 ^ n) Map.empty + sum_list (map (\<lambda>n. 3 ^ n) (io_created (rt_ctx tree_demo))) \<le> sm_cap"
    by (simp add: tree_demo_def weight_def sm_cap_def SENTINEL_def SLABSIZE_def USIZE_MAX_def)
  moreover have "io_queued (rt_ctx tree_demo) = 0" and "rt_active tree_demo = 0" by (simp_all add: tree_demo_def)
  ultimately show ?thesis
    using run_completes [OF tree_poll_spawns, of tree_demo eager_kernel "\<lambda>seed v. v"] by simp
qed

text \<open>A kernel that refuses the submission of what is queued.\<close>

definition bad_kernel :: "'k enter" where
  "bad_kernel fd n w fl u = (- 1, 9, u)"

lemma bad_kernel_laws: "kernel_keeps_cq bad_kernel" "kernel_settles m bad_kernel"
  by (simp_all add: kernel_keeps_cq_def kernel_settles_def bad_kernel_def EBUSY_def EAGAIN_def)

definition fail_demo :: "(unit, unit) runtime" where
  "fail_demo = \<lparr>rt_futures = sm_new, rt_ctx = ctx_demo\<lparr>io_queued := 1, io_ring := ring_of (sq_demo\<lparr>sq_ktail := 1\<rparr>) cq_demo\<rparr>,
     rt_runqueue = [], rt_polled_dist = [], rt_active = 0\<rparr>"


end
