(* ===== verification/Fixed_Vec_Traits.thy ===== *)
theory Fixed_Vec_Traits
  imports Fixed_Vec "HOL-Library.List_Lexorder"
begin

text \<open>
  The traits that \<open>hamerkop/src/fixedvec.rs\<close> implements for \<open>FixedVec\<close> by going to the slice of its
  elements: indexing, comparison, ordering and hashing; and \<open>Extend\<close> for an iterator over
  references.  What Rust asks of an implementation of \<open>Ord\<close> is the interface \<open>total_cmp\<close>.
\<close>

section \<open>Orderings\<close>

datatype ordering = Less | Equal | Greater

fun reverse_ordering :: "ordering \<Rightarrow> ordering" where
  "reverse_ordering Less = Greater"
| "reverse_ordering Equal = Equal"
| "reverse_ordering Greater = Less"

text \<open>\<open>cmp\<close> of the primitive types.\<close>

definition default_cmp :: "'a :: linorder \<Rightarrow> 'a \<Rightarrow> ordering" where
  "default_cmp x y = (if x < y then Less else if x = y then Equal else Greater)"

text \<open>\<open>cmp\<close> and \<open>partial_cmp\<close> of slices: the first difference decides, then the length.\<close>

fun slice_cmp :: "('a \<Rightarrow> 'a \<Rightarrow> ordering) \<Rightarrow> 'a list \<Rightarrow> 'a list \<Rightarrow> ordering" where
  "slice_cmp cmp [] [] = Equal"
| "slice_cmp cmp [] (y # ys) = Less"
| "slice_cmp cmp (x # xs) [] = Greater"
| "slice_cmp cmp (x # xs) (y # ys) = (case cmp x y of Equal \<Rightarrow> slice_cmp cmp xs ys | r \<Rightarrow> r)"

fun slice_partial_cmp :: "('a \<Rightarrow> 'a \<Rightarrow> ordering option) \<Rightarrow> 'a list \<Rightarrow> 'a list \<Rightarrow> ordering option" where
  "slice_partial_cmp cmp [] [] = Some Equal"
| "slice_partial_cmp cmp [] (y # ys) = Some Less"
| "slice_partial_cmp cmp (x # xs) [] = Some Greater"
| "slice_partial_cmp cmp (x # xs) (y # ys) =
     (case cmp x y of Some Equal \<Rightarrow> slice_partial_cmp cmp xs ys | r \<Rightarrow> r)"

section \<open>Implementations\<close>

text \<open>\<open>Deref\<close> and \<open>DerefMut\<close> with the indexing of slices.\<close>

definition fv_as_mut_slice :: "'a fixedvec \<Rightarrow> ('a list \<Rightarrow> 'a list outcome) \<Rightarrow> 'a fixedvec outcome" where
  "fv_as_mut_slice v f =
     and_then (fv_as_slice v) (\<lambda>xs. and_then (f xs) (\<lambda>ys.
       Done (v\<lparr>fdata := map Some ys @ drop (fsize v) (fdata v)\<rparr>)))"

definition fv_deref :: "'a fixedvec \<Rightarrow> 'a list outcome" where
  "fv_deref v = fv_as_slice v"

definition fv_deref_mut :: "'a fixedvec \<Rightarrow> ('a list \<Rightarrow> 'a list outcome) \<Rightarrow> 'a fixedvec outcome" where
  "fv_deref_mut v f = fv_as_mut_slice v f"

definition fv_index :: "'a fixedvec \<Rightarrow> nat \<Rightarrow> 'a outcome" where
  "fv_index v i = and_then (fv_deref v) (\<lambda>xs. if i < length xs then Done (xs ! i) else Panic)"

definition fv_index_mut :: "'a fixedvec \<Rightarrow> nat \<Rightarrow> 'a \<Rightarrow> 'a fixedvec outcome" where
  "fv_index_mut v i x = fv_deref_mut v (\<lambda>xs. if i < length xs then Done (xs[i := x]) else Panic)"

text \<open>Comparison with another vector or a slice on either side.\<close>

definition fv_ne :: "('a \<Rightarrow> 'b \<Rightarrow> bool) \<Rightarrow> 'a fixedvec \<Rightarrow> 'b fixedvec \<Rightarrow> bool outcome" where
  "fv_ne eq v w =
     and_then (fv_deref w) (\<lambda>ys. and_then (fv_deref v) (\<lambda>xs. Done (\<not> list_all2 eq xs ys)))"

definition fv_eq_slice :: "('a \<Rightarrow> 'b \<Rightarrow> bool) \<Rightarrow> 'a fixedvec \<Rightarrow> 'b list \<Rightarrow> bool outcome" where
  "fv_eq_slice eq v ys = and_then (fv_deref v) (\<lambda>xs. Done (list_all2 eq xs ys))"

definition fv_ne_slice :: "('a \<Rightarrow> 'b \<Rightarrow> bool) \<Rightarrow> 'a fixedvec \<Rightarrow> 'b list \<Rightarrow> bool outcome" where
  "fv_ne_slice eq v ys = and_then (fv_deref v) (\<lambda>xs. Done (\<not> list_all2 eq xs ys))"

definition slice_eq_fv :: "('a \<Rightarrow> 'b \<Rightarrow> bool) \<Rightarrow> 'a list \<Rightarrow> 'b fixedvec \<Rightarrow> bool outcome" where
  "slice_eq_fv eq xs w = and_then (fv_deref w) (\<lambda>ys. Done (list_all2 eq xs ys))"

definition slice_ne_fv :: "('a \<Rightarrow> 'b \<Rightarrow> bool) \<Rightarrow> 'a list \<Rightarrow> 'b fixedvec \<Rightarrow> bool outcome" where
  "slice_ne_fv eq xs w = and_then (fv_deref w) (\<lambda>ys. Done (\<not> list_all2 eq xs ys))"

definition fv_partial_cmp ::
  "('a \<Rightarrow> 'a \<Rightarrow> ordering option) \<Rightarrow> 'a fixedvec \<Rightarrow> 'a fixedvec \<Rightarrow> ordering option outcome" where
  "fv_partial_cmp cmp v w =
     and_then (fv_deref v) (\<lambda>xs. and_then (fv_deref w) (\<lambda>ys. Done (slice_partial_cmp cmp xs ys)))"

definition fv_cmp :: "('a \<Rightarrow> 'a \<Rightarrow> ordering) \<Rightarrow> 'a fixedvec \<Rightarrow> 'a fixedvec \<Rightarrow> ordering outcome" where
  "fv_cmp cmp v w =
     and_then (fv_deref v) (\<lambda>xs. and_then (fv_deref w) (\<lambda>ys. Done (slice_cmp cmp xs ys)))"

text \<open>The hash of a slice feeds its length and then its elements to the hasher.\<close>

definition fv_hash :: "(nat \<Rightarrow> 'h \<Rightarrow> 'h) \<Rightarrow> ('a \<Rightarrow> 'h \<Rightarrow> 'h) \<Rightarrow> 'a fixedvec \<Rightarrow> 'h \<Rightarrow> 'h outcome" where
  "fv_hash hash_len hash v state =
     and_then (fv_deref v) (\<lambda>xs. Done (fold hash xs (hash_len (length xs) state)))"

text \<open>\<open>Extend\<close> with references; the impossible error is \<open>unreachable_unchecked\<close>.\<close>

fun fv_extend_refs :: "('a \<Rightarrow> 'a) \<Rightarrow> 'a fixedvec \<Rightarrow> 'a list \<Rightarrow> ('a list \<times> 'a fixedvec) outcome" where
  "fv_extend_refs cl v [] = Done ([], v)"
| "fv_extend_refs cl v (x # xs) =
     (if fv_available v > 0
      then and_then (fv_push v (cl x)) (\<lambda>(r, v'). case r of Inr _ \<Rightarrow> fv_extend_refs cl v' xs | Inl _ \<Rightarrow> Undef)
      else Done (x # xs, v))"

section \<open>Lawful comparisons\<close>

locale total_cmp =
  fixes cmp :: "'a \<Rightarrow> 'a \<Rightarrow> ordering"
  assumes cmp_swap: "cmp y x = reverse_ordering (cmp x y)"
    and cmp_trans: "cmp x y = Less \<Longrightarrow> cmp y z = Less \<Longrightarrow> cmp x z = Less"
    and cmp_cong: "cmp x y = Equal \<Longrightarrow> cmp x z = cmp y z"
begin

lemma cmp_refl: "cmp x x = Equal"
  using cmp_swap [of x x] by (cases "cmp x x") auto

lemma cmp_greater: "cmp x y = Greater \<longleftrightarrow> cmp y x = Less"
  by (cases "cmp x y") (simp_all add: cmp_swap [of y x])

lemma cmp_equal: "cmp x y = Equal \<longleftrightarrow> cmp y x = Equal"
  by (cases "cmp x y") (simp_all add: cmp_swap [of y x])

lemma cmp_cong_right: "cmp x y = Equal \<Longrightarrow> cmp z x = cmp z y"
  using cmp_cong [of x y z] by (simp add: cmp_swap [of z x] cmp_swap [of z y])

lemma slice_swap: "slice_cmp cmp ys xs = reverse_ordering (slice_cmp cmp xs ys)"
proof (induction xs arbitrary: ys)
  case Nil
  then show ?case by (cases ys) auto
next
  case (Cons x xs)
  then show ?case
  proof (cases ys)
    case (Cons y ys')
    then show ?thesis
      using cmp_swap [of x y] Cons.IH [of ys'] by (cases "cmp x y") (auto split: ordering.splits)
  qed simp
qed

lemma slice_cong: "slice_cmp cmp xs ys = Equal \<Longrightarrow> slice_cmp cmp xs zs = slice_cmp cmp ys zs"
proof (induction xs arbitrary: ys zs)
  case Nil
  then show ?case by (cases ys) auto
next
  case (Cons x xs)
  then obtain y ys' where ys: "ys = y # ys'" and xy: "cmp x y = Equal" "slice_cmp cmp xs ys' = Equal"
    by (cases ys) (auto split: ordering.splits)
  show ?case
  proof (cases zs)
    case (Cons z zs')
    then show ?thesis
      using cmp_cong [OF xy(1), of z] Cons.IH [OF xy(2), of zs'] ys by (auto split: ordering.splits)
  qed (simp add: ys)
qed

lemma slice_trans:
  "slice_cmp cmp xs ys = Less \<Longrightarrow> slice_cmp cmp ys zs = Less \<Longrightarrow> slice_cmp cmp xs zs = Less"
proof (induction xs arbitrary: ys zs)
  case Nil
  then show ?case by (cases ys; cases zs) auto
next
  case (Cons x xs)
  then obtain y ys' where ys: "ys = y # ys'" by (cases ys) auto
  moreover obtain z zs' where zs: "zs = z # zs'" using Cons.prems(2) ys by (cases zs) auto
  ultimately have l: "cmp x y = Less \<or> cmp x y = Equal \<and> slice_cmp cmp xs ys' = Less"
    and r: "cmp y z = Less \<or> cmp y z = Equal \<and> slice_cmp cmp ys' zs' = Less"
    using Cons.prems by (auto split: ordering.splits)
  then show ?case
    using cmp_trans [of x y z] cmp_cong [of x y z] cmp_cong_right [of y z x] Cons.IH [of ys' zs']
    by (auto simp: ys zs)
qed

lemma slice_equal: "slice_cmp cmp xs ys = Equal \<longleftrightarrow> list_all2 (\<lambda>x y. cmp x y = Equal) xs ys"
  by (induction cmp xs ys rule: slice_cmp.induct) (auto split: ordering.splits)

lemma slice_total: "total_cmp (slice_cmp cmp)"
  by unfold_locales (fact slice_swap, fact slice_trans, fact slice_cong)

lemma slice_partial: "slice_partial_cmp (\<lambda>x y. Some (cmp x y)) xs ys = Some (slice_cmp cmp xs ys)"
  by (induction cmp xs ys rule: slice_cmp.induct) (auto split: ordering.splits)

end

interpretation prim: total_cmp "default_cmp :: 'a :: linorder \<Rightarrow> 'a \<Rightarrow> ordering"
  by unfold_locales (auto simp: default_cmp_def split: if_splits)

interpretation prims: total_cmp "slice_cmp default_cmp :: 'a :: linorder list \<Rightarrow> 'a list \<Rightarrow> ordering"
  by (rule prim.slice_total)

section \<open>The order of vectors\<close>

lemma slice_cmp_default: "slice_cmp default_cmp xs ys = default_cmp xs ys"
proof (induction "default_cmp :: 'a \<Rightarrow> _" xs ys rule: slice_cmp.induct)
  case (4 x xs y ys)
  then show ?case by (auto simp: default_cmp_def split: ordering.splits if_splits)
qed (auto simp: default_cmp_def)

text \<open>
  A vector is compared by its contents: two vectors of different capacities can be equivalent
  without being the same, so the order of vectors is a preorder.
\<close>

definition fv_contents :: "('a, 'z) fixedvec_scheme \<Rightarrow> 'a list" where
  "fv_contents v = map the (take (fsize v) (fdata v))"

instantiation fixedvec_ext :: (linorder, type) preorder
begin

definition less_eq_fixedvec_ext :: "('a, 'b) fixedvec_ext \<Rightarrow> ('a, 'b) fixedvec_ext \<Rightarrow> bool" where
  "v \<le> w \<longleftrightarrow> fv_contents v \<le> fv_contents w"

definition less_fixedvec_ext :: "('a, 'b) fixedvec_ext \<Rightarrow> ('a, 'b) fixedvec_ext \<Rightarrow> bool" where
  "v < w \<longleftrightarrow> fv_contents v < fv_contents w"

instance
  by standard (auto simp: less_eq_fixedvec_ext_def less_fixedvec_ext_def)

end

lemma fv_contents_rep: "fv_rep v c xs \<Longrightarrow> fv_contents v = xs"
  by (erule fv_repE) (simp add: fv_contents_def comp_def)

lemma fv_deref_rep: "fv_rep v c xs \<Longrightarrow> fv_deref v = Done xs"
  by (simp add: fv_deref_def fv_as_slice_rep)

lemma fv_less_rep: "fv_rep v c xs \<Longrightarrow> fv_rep w d ys \<Longrightarrow> v < w \<longleftrightarrow> xs < ys"
  by (simp add: less_fixedvec_ext_def fv_contents_rep)

lemma fv_as_mut_slice_rep:
  assumes "fv_rep v c xs" "f xs = Done ys" "length ys = length xs"
  shows "\<exists>w. fv_as_mut_slice v f = Done w \<and> fv_rep w c ys"
  using assms by (simp add: fv_as_mut_slice_def fv_as_slice_rep [OF assms(1)] fv_rep_def)

lemma fv_index_rep: "fv_rep v c xs \<Longrightarrow> fv_index v i = (if i < length xs then Done (xs ! i) else Panic)"
  by (simp add: fv_index_def fv_deref_rep)

lemma fv_index_mut_rep:
  assumes "fv_rep v c xs"
  shows "if i < length xs then \<exists>w. fv_index_mut v i x = Done w \<and> fv_rep w c (xs[i := x])
         else fv_index_mut v i x = Panic"
  using fv_as_mut_slice_rep [OF assms, of _ "xs[i := x]"]
  by (auto simp: fv_index_mut_def fv_deref_mut_def fv_as_mut_slice_def fv_as_slice_rep [OF assms])

lemma fv_extend_refs_extend: "fv_rep v c xs \<Longrightarrow> fv_extend_refs cl v ys = fv_extend cl v ys"
proof (induction ys arbitrary: v xs)
  case (Cons y ys)
  show ?case
  proof (cases "length xs < c")
    case True
    obtain w where w: "fv_push v (cl y) = Done (Inr (), w)" "fv_rep w c (xs @ [cl y])"
      using fv_push_rep [OF Cons.prems, of "cl y"] True by auto
    then show ?thesis using Cons.IH [OF w(2)] True by (simp add: fv_rep_available [OF Cons.prems])
  next
    case False
    then show ?thesis by (simp add: fv_rep_available [OF Cons.prems])
  qed
qed simp

lemmas fv_compare_defs = fv_cmp_def fv_partial_cmp_def fv_eq_def fv_ne_def fv_eq_slice_def
  fv_ne_slice_def slice_eq_fv_def slice_ne_fv_def fv_hash_def

text \<open>C31: Comparison, ordering and hashing of fixed vectors depend on their contents only: they
  are the lexicographic order and the equality of the element lists, whatever the capacities,
  and equal vectors hash alike.\<close>

theorem fixedvec_compares_contents:
  assumes v: "fv_rep v c xs" and w: "fv_rep w d ys"
  shows "fv_cmp default_cmp v w = Done (default_cmp xs ys) \<and>
    fv_cmp default_cmp v w = Done (if v < w then Less else if w < v then Greater else Equal) \<and>
    fv_partial_cmp (\<lambda>x y. Some (default_cmp x y)) v w = Done (Some (default_cmp xs ys)) \<and>
    fv_eq (=) v w = Done (xs = ys) \<and> fv_ne (=) v w = Done (xs \<noteq> ys) \<and>
    fv_eq_slice (=) v ys = Done (xs = ys) \<and> fv_ne_slice (=) v ys = Done (xs \<noteq> ys) \<and>
    slice_eq_fv (=) xs w = Done (xs = ys) \<and> slice_ne_fv (=) xs w = Done (xs \<noteq> ys) \<and>
    (xs = ys \<longrightarrow> fv_hash hash_len hash v h = fv_hash hash_len hash w h)"
  by (simp add: fv_compare_defs fv_deref_rep [OF v] fv_deref_rep [OF w] fv_as_slice_rep [OF v]
      fv_as_slice_rep [OF w] slice_cmp_default prim.slice_partial list.rel_eq fv_less_rep [OF v w]
      fv_less_rep [OF w v]) (auto simp: default_cmp_def)

text \<open>Two vectors with the same contents and different capacities.\<close>

theorem fixedvec_compares_contents_witness:
  "fv_cmp default_cmp \<lparr>fdata = [Some 1, Some 2, Some 3, Some (4 :: nat), None], fsize = 4\<rparr>
     \<lparr>fdata = [Some 1, Some 2, Some 3, Some 4], fsize = 4\<rparr> = Done Equal \<and>
   fv_hash (+) (+) \<lparr>fdata = [Some 1, Some 2, Some 3, Some (4 :: nat), None], fsize = 4\<rparr> 0 =
   fv_hash (+) (+) \<lparr>fdata = [Some 1, Some 2, Some 3, Some (4 :: nat)], fsize = 4\<rparr> 0"
proof -
  have "fv_rep \<lparr>fdata = [Some 1, Some 2, Some 3, Some (4 :: nat)], fsize = 4\<rparr> 4 [1, 2, 3, 4]"
    by (simp add: fv_rep_def)
  from fixedvec_compares_contents [OF fv_rep_demo this, of "(+)" "(+)" 0] show ?thesis
    by (simp add: default_cmp_def)
qed

end
