(* ===== verification/Buffer_Setup.thy ===== *)
theory Buffer_Setup
  imports Connection Runtime Join
begin

text \<open>
  The start of \<open>main_task\<close> in \<open>hamerkop/examples/echoserver.rs\<close> and \<open>pingserver.rs\<close>: it hands
  \<open>STARTING_BUFFERS\<close> empty buffers to the pool and waits for all of them through \<open>Join\<close>.
\<close>

section \<open>Operations\<close>

definition STARTING_BUFFERS :: nat where "STARTING_BUFFERS = 256"

text \<open>\<open>ptrs\<close> are the addresses the allocator gives the buffers.\<close>

fun offer_buffers ::
  "bool \<Rightarrow> 'k enter \<Rightarrow> u64 list \<Rightarrow> ('f, 'k) ioctx \<Rightarrow> (io_future list \<times> ('f, 'k) ioctx) outcome option" where
  "offer_buffers dbg enter [] ctx = Some (Done ([], ctx))"
| "offer_buffers dbg enter (ptr # ptrs) ctx =
     obind (h_provide_buffer dbg enter ptr (fv_with_capacity BUFFER_SIZE) ctx) (\<lambda>(fut, ctx).
       obind (offer_buffers dbg enter ptrs ctx) (\<lambda>(futs, ctx). Some (Done (fut # futs, ctx))))"

text \<open>The poll of a future as \<open>Join\<close> calls it; a poll that panics leaves a context in which
  nothing goes on.\<close>

definition poll_in ::
  "bool \<Rightarrow> 'k enter \<Rightarrow> nat option \<Rightarrow> (io_future, ('f, 'k) ioctx outcome option, io_result) poll_fn" where
  "poll_in dbg enter current fut w =
     (case w of
        Some (Done ctx) \<Rightarrow>
          (case io_poll dbg enter current fut ctx of
             Some (Done (p, ctx')) \<Rightarrow> (p, fut, Some (Done ctx'))
           | Some Panic \<Rightarrow> (Pending, fut, Some Panic)
           | Some Undef \<Rightarrow> (Pending, fut, Some Undef)
           | None \<Rightarrow> (Pending, fut, None))
      | bad \<Rightarrow> (Pending, fut, bad))"

text \<open>A poll of \<open>main_task\<close> while it waits: the loop over \<open>next\<close>, which returns the first error
  it sees and drops the rest.  The recursion ends because every result finishes a future.\<close>

lemma join_scan_unfinished:
  "join_scan poll polled fs sts w = (Ready (Some x), fs', sts', w') \<Longrightarrow>
   unfinished sts' < unfinished sts"
proof (induction poll polled fs sts w arbitrary: fs' sts' w' rule: join_scan.induct)
  case (1 poll polled f fs s sts w)
  then show ?case
    by (auto split: if_splits prod.splits poll.splits)
qed (auto split: if_splits)

lemma join_poll_unfinished:
  "join_poll poll j w = (Ready (Some x), j', w') \<Longrightarrow> unfinished (state j') < unfinished (state j)"
  by (auto simp: join_poll_def split: prod.splits dest: join_scan_unfinished)

function await_buffers ::
  "(io_future, 'w, io_result) poll_fn \<Rightarrow> io_future join \<Rightarrow> 'w \<Rightarrow>
    (io_error + unit) poll \<times> io_future join \<times> 'w" where
  "await_buffers poll j w =
     (case join_poll poll j w of
        (Pending, j', w') \<Rightarrow> (Pending, j', w')
      | (Ready None, j', w') \<Rightarrow> (Ready (Inr ()), j', w')
      | (Ready (Some (ProvideDone (Inl e))), j', w') \<Rightarrow> (Ready (Inl (pe_into_error e)), j', w')
      | (Ready (Some _), j', w') \<Rightarrow> await_buffers poll j' w')"
  by pat_completeness auto
termination
  by (relation "measure (\<lambda>(poll, j, w). unfinished (state j))")
    (auto dest: join_poll_unfinished dest!: sym [of "(_, _, _)"])

declare await_buffers.simps [simp del]

section \<open>Offering the buffers\<close>

definition empty_buffer :: "u8 fixedvec" where "empty_buffer = fv_with_capacity BUFFER_SIZE"

lemma empty_buffer_simps [simp]:
  "fv_capacity empty_buffer = BUFFER_SIZE" "fv_len empty_buffer = 0" "empty_buffer\<lparr>fsize := 0\<rparr> = empty_buffer"
  "fsize empty_buffer = 0"
  by (simp_all add: empty_buffer_def fv_with_capacity_def fv_capacity_def fv_len_def make_boxed_slice_def)

text \<open>The event of an offered buffer, with or without the answer of the kernel.\<close>

definition offer_event :: "nat \<Rightarrow> completion_event" where
  "offer_event bufid =
     \<lparr>cev_cqe = None, cev_task = NO_TASK_SENTINEL, cev_action = DeleteBufferOnError bufid\<rparr>"

lemma offer_buffers_spec:
  assumes "sub_inv ctx" and "io_bufsize ctx = BUFFER_SIZE"
    and "sm_len (io_buffers ctx) + length ptrs \<le> 2 ^ 16 - 1"
    and "sm_len (io_completions ctx) + length ptrs \<le> sm_cap"
    and "sq_in_flight (io_sq ctx) + length ptrs \<le> sq_size (io_sq ctx)"
  shows "\<exists>futs ctx'. offer_buffers False enter ptrs ctx = Some (Done (map (\<lambda>p. Provide 0 (Inr p)) futs, ctx')) \<and>
    sub_inv ctx' \<and> length futs = length ptrs \<and> distinct (map (cf_cqid \<circ> fst) futs) \<and> distinct (map snd futs) \<and>
    (\<forall>(fut, bufid)\<in>set futs. \<not> cf_must_wait fut \<and> sm_get (io_completions ctx) (cf_cqid fut) = None \<and>
       sm_get (io_buffers ctx) bufid = None) \<and>
    sm_get (io_buffers ctx') = (sm_get (io_buffers ctx))(map snd futs [\<mapsto>] replicate (length ptrs) empty_buffer) \<and>
    sm_get (io_completions ctx') =
      (sm_get (io_completions ctx))(map (cf_cqid \<circ> fst) futs [\<mapsto>] map (offer_event \<circ> snd) futs) \<and>
    sq_window (io_sq ctx') = sq_window (io_sq ctx) @
      map2 (\<lambda>ptr (fut, bufid). provided ptr BUFFER_SIZE bufid (cf_cqid fut)) ptrs futs \<and>
    io_bufsize ctx' = BUFFER_SIZE \<and> io_queued ctx' = io_queued ctx + length ptrs"
  using assms
proof (induction ptrs arbitrary: ctx)
  case Nil
  then show ?case by simp
next
  case (Cons ptr ptrs)
  obtain fut bufid ctx1 where 1:
    "h_provide_buffer False enter ptr empty_buffer ctx = Some (Done (Provide 0 (Inr (fut, bufid)), ctx1))"
    "sub_inv ctx1" "sm_get (io_buffers ctx) bufid = None"
    "sm_get (io_buffers ctx1) = (sm_get (io_buffers ctx))(bufid \<mapsto> empty_buffer)"
    "sm_get (io_completions ctx) (cf_cqid fut) = None"
    "sm_get (io_completions ctx1) = (sm_get (io_completions ctx))(cf_cqid fut \<mapsto> offer_event bufid)"
    "\<not> cf_must_wait fut"
    "sq_window (io_sq ctx1) = sq_window (io_sq ctx) @ [provided ptr BUFFER_SIZE bufid (cf_cqid fut)]"
    "sq_size (io_sq ctx1) = sq_size (io_sq ctx)" "io_bufsize ctx1 = BUFFER_SIZE"
    "io_queued ctx1 = io_queued ctx + 1"
    using h_provide_spec [OF Cons.prems(1), of empty_buffer enter ptr] Cons.prems
    by (auto simp: offer_event_def)
  have inv: "sm_inv (io_buffers ctx)" "sm_inv (io_buffers ctx1)" "sm_inv (io_completions ctx)"
    "sm_inv (io_completions ctx1)"
    using Cons.prems(1) 1(2) by (simp_all add: sub_inv_def io_inv_def)
  have len: "sm_len (io_buffers ctx1) = sm_len (io_buffers ctx) + 1"
    "sm_len (io_completions ctx1) = sm_len (io_completions ctx) + 1"
    "sq_in_flight (io_sq ctx1) = sq_in_flight (io_sq ctx) + 1"
    using sm.upd_count [OF inv(1,2) 1(3,4)] sm.upd_count [OF inv(3,4) 1(5,6)]
      arg_cong [OF 1(8), of length] by simp_all
  have room: "sm_len (io_buffers ctx1) + length ptrs \<le> 2 ^ 16 - 1"
    "sm_len (io_completions ctx1) + length ptrs \<le> sm_cap"
    "sq_in_flight (io_sq ctx1) + length ptrs \<le> sq_size (io_sq ctx1)"
    using Cons.prems(3-5) len 1(9) by simp_all
  obtain futs ctx2 where 2:
    "offer_buffers False enter ptrs ctx1 = Some (Done (map (\<lambda>p. Provide 0 (Inr p)) futs, ctx2))"
    "sub_inv ctx2" "length futs = length ptrs" "distinct (map (cf_cqid \<circ> fst) futs)" "distinct (map snd futs)"
    "\<forall>(fut, bufid)\<in>set futs. \<not> cf_must_wait fut \<and> sm_get (io_completions ctx1) (cf_cqid fut) = None \<and>
       sm_get (io_buffers ctx1) bufid = None"
    "sm_get (io_buffers ctx2) = (sm_get (io_buffers ctx1))(map snd futs [\<mapsto>] replicate (length ptrs) empty_buffer)"
    "sm_get (io_completions ctx2) =
      (sm_get (io_completions ctx1))(map (cf_cqid \<circ> fst) futs [\<mapsto>] map (offer_event \<circ> snd) futs)"
    "sq_window (io_sq ctx2) = sq_window (io_sq ctx1) @
      map2 (\<lambda>ptr (fut, bufid). provided ptr BUFFER_SIZE bufid (cf_cqid fut)) ptrs futs"
    "io_bufsize ctx2 = BUFFER_SIZE" "io_queued ctx2 = io_queued ctx1 + length ptrs"
    using Cons.IH [OF 1(2,10) room] by blast
  have fresh: "\<forall>(f, b)\<in>set futs. cf_cqid f \<noteq> cf_cqid fut \<and> b \<noteq> bufid \<and> \<not> cf_must_wait f \<and>
      sm_get (io_completions ctx) (cf_cqid f) = None \<and> sm_get (io_buffers ctx) b = None"
    using 2(6) 1(4,6) by (auto split: if_splits)
  have "offer_buffers False enter (ptr # ptrs) ctx
      = Some (Done (map (\<lambda>p. Provide 0 (Inr p)) ((fut, bufid) # futs), ctx2))"
    using 1(1) 2(1) by (simp add: empty_buffer_def)
  moreover have "distinct (map (cf_cqid \<circ> fst) ((fut, bufid) # futs))" "distinct (map snd ((fut, bufid) # futs))"
    using 2(4,5) fresh by auto
  moreover have "\<forall>(f, b)\<in>set ((fut, bufid) # futs). \<not> cf_must_wait f \<and>
      sm_get (io_completions ctx) (cf_cqid f) = None \<and> sm_get (io_buffers ctx) b = None"
    using fresh 1(3,5,7) by auto
  ultimately show ?case using 1 2
    by (intro exI [of _ "(fut, bufid) # futs"] exI [of _ ctx2]) (simp add: comp_def del: offer_buffers.simps)
qed

section \<open>Waiting for the kernel\<close>

text \<open>
  \<open>waiting t ctx0 ps done ctx\<close>: the context \<open>ctx\<close> is what the task \<open>t\<close> made of \<open>ctx0\<close> when it saw
  the answers of the futures that are done, all of them successes.
\<close>

definition same_answer :: "completion_event option \<Rightarrow> completion_event option \<Rightarrow> bool" where
  "same_answer e e' \<longleftrightarrow> map_option (\<lambda>ce. (cev_cqe ce, cev_action ce)) e = map_option (\<lambda>ce. (cev_cqe ce, cev_action ce)) e'"

definition waiting ::
  "('f, 'k) ioctx \<Rightarrow> (cfut \<times> nat) list \<Rightarrow> bool list \<Rightarrow> ('f, 'k) ioctx \<Rightarrow> bool" where
  "waiting ctx0 ps sts ctx \<longleftrightarrow> io_inv ctx \<and> io_buffers ctx = io_buffers ctx0 \<and>
     (\<forall>i<length ps. if sts ! i then sm_get (io_completions ctx) (cf_cqid (fst (ps ! i))) = None
        else same_answer (sm_get (io_completions ctx) (cf_cqid (fst (ps ! i))))
               (sm_get (io_completions ctx0) (cf_cqid (fst (ps ! i))))) \<and>
     (\<forall>k. k \<notin> cf_cqid ` fst ` set ps \<longrightarrow> sm_get (io_completions ctx) k = sm_get (io_completions ctx0) k)"

text \<open>The answer to an offered buffer.\<close>

definition reply :: "('f, 'k) ioctx \<Rightarrow> cfut \<Rightarrow> (io_error + nat) option" where
  "reply ctx fut = map_option ce_result (Option.bind (sm_get (io_completions ctx) (cf_cqid fut)) cev_cqe)"

lemma await_cf_pending:
  assumes inv: "io_inv ctx" and e: "sm_get (io_completions ctx) (cf_cqid fut) = Some ce"
    and c: "cev_cqe ce = None"
  shows "\<exists>ctx'. await_cf dbg enter (Some t) fut ctx = Some (Done (Pending, ctx')) \<and> io_inv ctx' \<and>
    io_buffers ctx' = io_buffers ctx \<and>
    sm_get (io_completions ctx') = (sm_get (io_completions ctx))(cf_cqid fut \<mapsto> ce\<lparr>cev_task := t\<rparr>)"
proof -
  obtain ctx1 where 1: "cf_poll (Some t) fut ctx = Done (Pending, ctx1)" "io_inv ctx1"
    "sm_get (io_completions ctx1) = (sm_get (io_completions ctx))(cf_cqid fut \<mapsto> ce\<lparr>cev_task := t\<rparr>)"
    "ctx1 = ctx\<lparr>io_completions := io_completions ctx1\<rparr>"
    using cf_poll_spec [OF inv e, of t] c by auto
  have "io_buffers ctx1 = io_buffers ctx" by (subst 1(4)) simp
  with 1 show ?thesis by (simp add: await_cf_def)
qed

lemma waiting_event:
  assumes "waiting ctx0 ps sts ctx" and "i < length ps" and "\<not> sts ! i"
    and "sm_get (io_completions ctx0) (cf_cqid (fst (ps ! i))) = Some ce0"
  obtains (event) ce where "sm_get (io_completions ctx) (cf_cqid (fst (ps ! i))) = Some ce"
    and "cev_cqe ce = cev_cqe ce0"
proof -
  have "same_answer (sm_get (io_completions ctx) (cf_cqid (fst (ps ! i)))) (Some ce0)"
    using assms(1-4) by (auto simp: waiting_def)
  with that show thesis by (auto simp: same_answer_def)
qed

lemma waiting_upd:
  assumes w: "waiting ctx0 ps sts ctx" and i: "i < length ps" "\<not> sts ! i" "length sts = length ps"
    and d: "distinct (map (cf_cqid \<circ> fst) ps)"
    and inv: "io_inv ctx'" "io_buffers ctx' = io_buffers ctx"
    and e: "sm_get (io_completions ctx') = (sm_get (io_completions ctx))(cf_cqid (fst (ps ! i)) := e)"
    and r: "if st then e = None else same_answer e (sm_get (io_completions ctx) (cf_cqid (fst (ps ! i))))"
  shows "waiting ctx0 ps (sts[i := st]) ctx'"
proof -
  have other: "cf_cqid (fst (ps ! j)) \<noteq> cf_cqid (fst (ps ! i))" if "j < length ps" "j \<noteq> i" for j
    using d that i(1) by (auto simp: distinct_conv_nth)
  have mem: "cf_cqid (fst (ps ! i)) \<in> cf_cqid ` fst ` set ps" using i(1) by force
  show ?thesis unfolding waiting_def
  proof (intro conjI allI impI)
    fix j assume j: "j < length ps"
    show "if sts[i := st] ! j then sm_get (io_completions ctx') (cf_cqid (fst (ps ! j))) = None
       else same_answer (sm_get (io_completions ctx') (cf_cqid (fst (ps ! j))))
              (sm_get (io_completions ctx0) (cf_cqid (fst (ps ! j))))"
    proof (cases "j = i")
      case True
      then show ?thesis using w r i e j by (auto simp: waiting_def same_answer_def split: if_splits)
    next
      case False
      then show ?thesis using w e j other [OF j False] by (simp add: waiting_def)
    qed
  next
    fix k assume "k \<notin> cf_cqid ` fst ` set ps"
    then show "sm_get (io_completions ctx') k = sm_get (io_completions ctx0) k"
      using w e mem by (auto simp: waiting_def)
  qed (use w inv in \<open>simp_all add: waiting_def\<close>)
qed

text \<open>One poll of one future that is not done.\<close>

lemma poll_waiting:
  assumes w: "waiting ctx0 ps sts ctx" and i: "i < length ps" "\<not> sts ! i" "length sts = length ps"
    and d: "distinct (map (cf_cqid \<circ> fst) ps)"
    and e0: "sm_get (io_completions ctx0) (cf_cqid (fst (ps ! i))) = Some ce0"
  shows "case reply ctx0 (fst (ps ! i)) of
      None \<Rightarrow> \<exists>ctx'. poll_in dbg enter (Some t) (Provide 0 (Inr (ps ! i))) (Some (Done ctx)) =
          (Pending, Provide 0 (Inr (ps ! i)), Some (Done ctx')) \<and> waiting ctx0 ps sts ctx'
    | Some (Inr n) \<Rightarrow> \<exists>ctx'. poll_in dbg enter (Some t) (Provide 0 (Inr (ps ! i))) (Some (Done ctx)) =
          (Ready (ProvideDone (Inr ())), Provide 0 (Inr (ps ! i)), Some (Done ctx')) \<and>
          waiting ctx0 ps (sts[i := True]) ctx'
    | Some (Inl er) \<Rightarrow> \<forall>b. sm_get (io_buffers ctx0) (snd (ps ! i)) = Some b \<longrightarrow>
        (\<exists>ctx'. poll_in dbg enter (Some t) (Provide 0 (Inr (ps ! i))) (Some (Done ctx)) =
          (Ready (ProvideDone (Inl (pe_new er (b\<lparr>fsize := 0\<rparr>)))), Provide 0 (Inr (ps ! i)), Some (Done ctx')) \<and>
          io_inv ctx' \<and> sm_get (io_buffers ctx') = (sm_get (io_buffers ctx0))(snd (ps ! i) := None))"
proof -
  obtain fut bufid where p: "ps ! i = (fut, bufid)" by (cases "ps ! i")
  obtain ce where e: "sm_get (io_completions ctx) (cf_cqid fut) = Some ce" "cev_cqe ce = cev_cqe ce0"
    using waiting_event [OF w i(1,2) e0] p by auto
  have inv: "io_inv ctx" and bufs: "io_buffers ctx = io_buffers ctx0" using w by (auto simp: waiting_def)
  note upd = waiting_upd [OF w i d, unfolded p fst_conv]
  show ?thesis
  proof (cases "cev_cqe ce0")
    case None
    then obtain ctx' where 1: "await_cf dbg enter (Some t) fut ctx = Some (Done (Pending, ctx'))" "io_inv ctx'"
      "io_buffers ctx' = io_buffers ctx"
      "sm_get (io_completions ctx') = (sm_get (io_completions ctx))(cf_cqid fut \<mapsto> ce\<lparr>cev_task := t\<rparr>)"
      using await_cf_pending [OF inv e(1), of dbg enter t] e(2) by auto
    have "waiting ctx0 ps (sts[i := False]) ctx'"
      by (rule upd [OF 1(2,3,4)]) (simp add: e(1) same_answer_def)
    moreover have "sts[i := False] = sts" using i by (simp add: list_update_same_conv)
    ultimately show ?thesis using 1(1) None e0 by (simp add: reply_def p poll_in_def)
  next
    case (Some c)
    then obtain ctx' where 1: "await_cf dbg enter (Some t) fut ctx = Some (Done (Ready c, ctx'))" "io_inv ctx'"
      "io_buffers ctx' = io_buffers ctx"
      "sm_get (io_completions ctx') = (sm_get (io_completions ctx))(cf_cqid fut := None)"
      using await_cf_ready [OF inv e(1), of c dbg enter t] e(2) by auto
    show ?thesis
    proof (cases "ce_result c")
      case (Inr n)
      have "waiting ctx0 ps (sts[i := True]) ctx'" by (rule upd [OF 1(2,3,4)]) simp
      then show ?thesis using 1(1) Some Inr e0 by (simp add: reply_def p poll_in_def provide_finish_def)
    next
      case (Inl er)
      have "\<exists>ctx''. poll_in dbg enter (Some t) (Provide 0 (Inr (fut, bufid))) (Some (Done ctx)) =
          (Ready (ProvideDone (Inl (pe_new er (b\<lparr>fsize := 0\<rparr>)))), Provide 0 (Inr (fut, bufid)), Some (Done ctx'')) \<and>
          io_inv ctx'' \<and> sm_get (io_buffers ctx'') = (sm_get (io_buffers ctx0))(bufid := None)"
        if b: "sm_get (io_buffers ctx0) bufid = Some b" for b
      proof -
        have "sm_inv (io_buffers ctx')" using 1(2) by (simp add: io_inv_def)
        moreover have "sm_get (io_buffers ctx') bufid = Some b" using 1(3) bufs b by simp
        ultimately obtain s' where 2: "sm_remove (io_buffers ctx') bufid = (Some b, s')" "sm_inv s'"
          "sm_get s' = (sm_get (io_buffers ctx'))(bufid := None)"
          using sm_remove_present [of "io_buffers ctx'" bufid b] by metis
        then show ?thesis using 1 Inl bufs
          by (simp add: poll_in_def provide_finish_def fv_set_len_def io_inv_def)
      qed
      then show ?thesis using Some Inl e0 by (simp add: reply_def p)
    qed
  qed
qed

text \<open>What a poll of the waiting loop returns: the error of the first refused buffer among those that
  are not done, or else the end when all were accepted.\<close>

abbreviation offers :: "(cfut \<times> nat) list \<Rightarrow> io_future list" where
  "offers ps \<equiv> map (\<lambda>p. Provide 0 (Inr p)) ps"

definition offered_in :: "('f, 'k) ioctx \<Rightarrow> (cfut \<times> nat) list \<Rightarrow> bool" where
  "offered_in ctx ps \<longleftrightarrow> distinct (map (cf_cqid \<circ> fst) ps) \<and>
     (\<forall>p\<in>set ps. sm_get (io_completions ctx) (cf_cqid (fst p)) \<noteq> None \<and>
        sm_get (io_buffers ctx) (snd p) = Some empty_buffer)"

lemma scan_offers:
  assumes o0: "offered_in ctx0 ps" and w: "waiting ctx0 ps sts ctx" and len: "length sts = length ps"
    and j: "join_poll (poll_in dbg enter (Some t)) \<lparr>futures = offers ps, state = sts\<rparr> (Some (Done ctx)) = (r, j', w')"
  shows "futures j' = offers ps \<and>
    ((\<exists>k<length ps. \<not> sts ! k \<and> (\<forall>i<k. \<not> sts ! i \<longrightarrow> reply ctx0 (fst (ps ! i)) = None) \<and>
        state j' = sts[k := True] \<and> (\<exists>ctx'. w' = Some (Done ctx') \<and>
        (case reply ctx0 (fst (ps ! k)) of
           None \<Rightarrow> False
         | Some (Inr n) \<Rightarrow> r = Ready (Some (ProvideDone (Inr ()))) \<and> waiting ctx0 ps (sts[k := True]) ctx'
         | Some (Inl er) \<Rightarrow> r = Ready (Some (ProvideDone (Inl (pe_new er empty_buffer)))) \<and> io_inv ctx' \<and>
             sm_get (io_buffers ctx') = (sm_get (io_buffers ctx0))(snd (ps ! k) := None)))) \<or>
     ((\<forall>i<length ps. \<not> sts ! i \<longrightarrow> reply ctx0 (fst (ps ! i)) = None) \<and> state j' = sts \<and>
       (\<exists>ctx'. w' = Some (Done ctx') \<and> waiting ctx0 ps sts ctx') \<and>
       r = (if \<exists>i<length ps. \<not> sts ! i then Pending else Ready None)))"
proof -
  let ?poll = "poll_in dbg enter (Some t)" and ?I = "\<lambda>w. \<exists>ctx. w = Some (Done ctx) \<and> waiting ctx0 ps sts ctx"
    and ?rdy = "\<lambda>i. reply ctx0 (fst (ps ! i)) \<noteq> None"
  have d: "distinct (map (cf_cqid \<circ> fst) ps)" using o0 by (simp add: offered_in_def)
  have ev: "\<exists>ce0. sm_get (io_completions ctx0) (cf_cqid (fst (ps ! i))) = Some ce0"
      "sm_get (io_buffers ctx0) (snd (ps ! i)) = Some empty_buffer" if "i < length ps" for i
    using o0 nth_mem [OF that] by (auto simp: offered_in_def)
  have one: "case reply ctx0 (fst (ps ! i)) of
      None \<Rightarrow> \<exists>ctx'. ?poll (Provide 0 (Inr (ps ! i))) (Some (Done ctx)) =
          (Pending, Provide 0 (Inr (ps ! i)), Some (Done ctx')) \<and> waiting ctx0 ps sts ctx'
    | Some (Inr n) \<Rightarrow> \<exists>ctx'. ?poll (Provide 0 (Inr (ps ! i))) (Some (Done ctx)) =
          (Ready (ProvideDone (Inr ())), Provide 0 (Inr (ps ! i)), Some (Done ctx')) \<and>
          waiting ctx0 ps (sts[i := True]) ctx'
    | Some (Inl er) \<Rightarrow> \<exists>ctx'. ?poll (Provide 0 (Inr (ps ! i))) (Some (Done ctx)) =
          (Ready (ProvideDone (Inl (pe_new er empty_buffer))), Provide 0 (Inr (ps ! i)), Some (Done ctx')) \<and>
          io_inv ctx' \<and> sm_get (io_buffers ctx') = (sm_get (io_buffers ctx0))(snd (ps ! i) := None)"
    if i: "i < length ps" "\<not> sts ! i" and c: "waiting ctx0 ps sts ctx" for i ctx
  proof -
    obtain ce0 where e0: "sm_get (io_completions ctx0) (cf_cqid (fst (ps ! i))) = Some ce0"
      using ev(1) [OF i(1)] by blast
    from poll_waiting [OF c i len d e0, of dbg enter t] ev(2) [OF i(1)] show ?thesis
      by (cases "reply ctx0 (fst (ps ! i))") (auto split: sum.splits)
  qed
  obtain fs' sts' where scan: "join_scan ?poll False (offers ps) sts (Some (Done ctx)) = (r, fs', sts', w')"
    and j': "j' = \<lparr>futures = fs', state = sts'\<rparr>"
    using j by (auto simp: join_poll_def split: prod.splits)
  have step: "f' = offers ps ! i \<and> (if ?rdy i then r \<noteq> Pending else r = Pending \<and> ?I w')"
    if i: "i < length (offers ps)" "\<not> sts ! i" "?I w" "?poll (offers ps ! i) w = (r, f', w')" for i w r f' w'
  proof -
    obtain ctx where c: "w = Some (Done ctx)" "waiting ctx0 ps sts ctx" using i(3) by blast
    show ?thesis using one [of i ctx] i c
      by (cases "reply ctx0 (fst (ps ! i))") (auto split: sum.splits)
  qed
  have len': "length sts = length (offers ps)" and I0: "?I (Some (Done ctx))" using len w by auto
  from join_scan_first [where I = ?I and rdy = ?rdy, OF scan len' I0 step]
  have "fs' = offers ps" and
    cases: "(\<exists>k<length ps. \<not> sts ! k \<and> ?rdy k \<and> (\<forall>i<k. \<not> sts ! i \<longrightarrow> \<not> ?rdy i) \<and> sts' = sts[k := True] \<and>
       (\<exists>wk x. ?I wk \<and> ?poll (offers ps ! k) wk = (Ready x, offers ps ! k, w') \<and> r = Ready (Some x))) \<or>
     ((\<forall>i<length ps. \<not> sts ! i \<longrightarrow> \<not> ?rdy i) \<and> ?I w' \<and> sts' = sts \<and>
       r = (if \<exists>i<length ps. \<not> sts ! i then Pending else Ready None))"
    by auto
  from cases show ?thesis
  proof (elim disjE exE conjE)
    fix k wk x ctxk
    assume k: "k < length ps" "\<not> sts ! k" "?rdy k" "\<forall>i<k. \<not> sts ! i \<longrightarrow> \<not> ?rdy i" "sts' = sts[k := True]"
      "?poll (offers ps ! k) wk = (Ready x, offers ps ! k, w')" "r = Ready (Some x)"
      "wk = Some (Done ctxk)" "waiting ctx0 ps sts ctxk"
    from one [OF k(1,2,9)] k \<open>fs' = offers ps\<close> j' show ?thesis
      by (cases "reply ctx0 (fst (ps ! k))") (auto split: sum.splits intro!: exI [of _ k])
  qed (use \<open>fs' = offers ps\<close> j' in auto)
qed

lemma await_buffers_result:
  assumes o0: "offered_in ctx0 ps"
  shows "waiting ctx0 ps sts ctx \<Longrightarrow> length sts = length ps \<Longrightarrow>
    await_buffers (poll_in dbg enter (Some t)) \<lparr>futures = offers ps, state = sts\<rparr> (Some (Done ctx)) = (r, j', w') \<Longrightarrow>
    \<exists>ctx'. w' = Some (Done ctx') \<and> futures j' = offers ps \<and>
    ((\<exists>k<length ps. \<not> sts ! k \<and> (\<exists>er. reply ctx0 (fst (ps ! k)) = Some (Inl er) \<and> r = Ready (Inl er)) \<and>
        (\<forall>i<k. \<not> sts ! i \<longrightarrow> (\<forall>er. reply ctx0 (fst (ps ! i)) \<noteq> Some (Inl er))) \<and> io_inv ctx' \<and>
        sm_get (io_buffers ctx') = (sm_get (io_buffers ctx0))(snd (ps ! k) := None)) \<or>
     ((\<forall>k<length ps. \<not> sts ! k \<longrightarrow> (\<forall>er. reply ctx0 (fst (ps ! k)) \<noteq> Some (Inl er))) \<and>
        state j' = map (\<lambda>i. sts ! i \<or> reply ctx0 (fst (ps ! i)) \<noteq> None) [0..<length ps] \<and>
        waiting ctx0 ps (state j') ctx' \<and>
        r = (if \<forall>b\<in>set (state j'). b then Ready (Inr ()) else Pending)))"
proof (induction "unfinished sts" arbitrary: sts ctx rule: less_induct)
  case less
  let ?poll = "poll_in dbg enter (Some t)" and ?j = "\<lparr>futures = offers ps, state = sts\<rparr>"
  obtain r1 j1 w1 where jp: "join_poll ?poll ?j (Some (Done ctx)) = (r1, j1, w1)" by (metis prod_cases3)
  have fut: "futures j1 = offers ps" using scan_offers [OF o0 less.prems(1,2) jp] by blast
  from scan_offers [OF o0 less.prems(1,2) jp] show ?case
  proof (elim conjE disjE exE)
    fix k ctx1
    assume k: "k < length ps" "\<not> sts ! k" "\<forall>i<k. \<not> sts ! i \<longrightarrow> reply ctx0 (fst (ps ! i)) = None"
      and j1: "state j1 = sts[k := True]" "w1 = Some (Done ctx1)"
      and c: "case reply ctx0 (fst (ps ! k)) of
           None \<Rightarrow> False
         | Some (Inr n) \<Rightarrow> r1 = Ready (Some (ProvideDone (Inr ()))) \<and> waiting ctx0 ps (sts[k := True]) ctx1
         | Some (Inl er) \<Rightarrow> r1 = Ready (Some (ProvideDone (Inl (pe_new er empty_buffer)))) \<and> io_inv ctx1 \<and>
             sm_get (io_buffers ctx1) = (sm_get (io_buffers ctx0))(snd (ps ! k) := None)"
    consider (bad) er where "reply ctx0 (fst (ps ! k)) = Some (Inl er)"
      | (good) n where "reply ctx0 (fst (ps ! k)) = Some (Inr n)"
      using c by (auto split: option.splits sum.splits)
    then show ?thesis
    proof cases
      case bad
      then have "r = Ready (Inl er)" "w' = w1" "j' = j1"
        using less.prems(3) jp c by (subst (asm) await_buffers.simps, simp add: pe_into_error_def pe_new_def)+
      then show ?thesis using bad k j1 c fut by (intro exI [of _ ctx1]) auto
    next
      case good
      have w2: "waiting ctx0 ps (sts[k := True]) ctx1" and r1: "r1 = Ready (Some (ProvideDone (Inr ())))"
        using c good by auto
      have "j1 = \<lparr>futures = offers ps, state = sts[k := True]\<rparr>" using fut j1(1) by (cases j1) simp
      then have rec: "await_buffers ?poll \<lparr>futures = offers ps, state = sts[k := True]\<rparr> (Some (Done ctx1)) = (r, j', w')"
        using less.prems(3) jp r1 j1(2) by (subst (asm) await_buffers.simps) simp
      have lt: "unfinished (sts[k := True]) < unfinished sts"
        using join_poll_unfinished [OF jp [unfolded r1]] j1(1) by simp
      have upd: "sts[k := True] ! i \<longleftrightarrow> i = k \<or> sts ! i" if "i < length ps" for i
        using k(1) less.prems(2) that by (simp add: nth_list_update)
      have mp: "map (\<lambda>i. sts[k := True] ! i \<or> reply ctx0 (fst (ps ! i)) \<noteq> None) [0..<length ps]
          = map (\<lambda>i. sts ! i \<or> reply ctx0 (fst (ps ! i)) \<noteq> None) [0..<length ps]"
        using upd good by auto
      have ok: "(\<forall>er. reply ctx0 (fst (ps ! i)) \<noteq> Some (Inl er)) \<longleftrightarrow> i = k \<or> (\<forall>er. reply ctx0 (fst (ps ! i)) \<noteq> Some (Inl er))"
        for i using good by auto
      have len: "length (sts[k := True]) = length ps" using less.prems(2) by simp
      from less.hyps [OF lt w2 len rec] show ?thesis unfolding mp
      proof (elim exE conjE disjE)
        fix ctx' k' er
        assume a: "w' = Some (Done ctx')" "futures j' = offers ps" "k' < length ps" "\<not> sts[k := True] ! k'"
          "reply ctx0 (fst (ps ! k')) = Some (Inl er)" "r = Ready (Inl er)"
          "\<forall>i<k'. \<not> sts[k := True] ! i \<longrightarrow> (\<forall>er. reply ctx0 (fst (ps ! i)) \<noteq> Some (Inl er))" "io_inv ctx'"
          "sm_get (io_buffers ctx') = (sm_get (io_buffers ctx0))(snd (ps ! k') := None)"
        have "\<forall>i<k'. \<not> sts ! i \<longrightarrow> (\<forall>er. reply ctx0 (fst (ps ! i)) \<noteq> Some (Inl er))"
          using a(3,7) upd ok by (metis less_trans)
        moreover have "\<not> sts ! k'" using a(3,4) upd by auto
        ultimately show ?thesis using a by blast
      next
        fix ctx'
        assume a: "\<forall>i<length ps. \<not> sts[k := True] ! i \<longrightarrow> (\<forall>er. reply ctx0 (fst (ps ! i)) \<noteq> Some (Inl er))"
        have "\<forall>i<length ps. \<not> sts ! i \<longrightarrow> (\<forall>er. reply ctx0 (fst (ps ! i)) \<noteq> Some (Inl er))"
          using a upd ok by metis
        then show ?thesis if "w' = Some (Done ctx')" "futures j' = offers ps"
          "state j' = map (\<lambda>i. sts ! i \<or> reply ctx0 (fst (ps ! i)) \<noteq> None) [0..<length ps]"
          "waiting ctx0 ps (state j') ctx'"
          "r = (if \<forall>b\<in>set (state j'). b then Ready (Inr ()) else Pending)"
          using that by blast
      qed
    qed
  next
    fix ctx1
    assume n: "\<forall>i<length ps. \<not> sts ! i \<longrightarrow> reply ctx0 (fst (ps ! i)) = None" "state j1 = sts"
      "w1 = Some (Done ctx1)" "waiting ctx0 ps sts ctx1"
      "r1 = (if \<exists>i<length ps. \<not> sts ! i then Pending else Ready None)"
    have "map (\<lambda>i. sts ! i \<or> reply ctx0 (fst (ps ! i)) \<noteq> None) [0..<length ps] = map ((!) sts) [0..<length ps]"
      using n(1) by auto
    also have "\<dots> = sts" by (simp add: less.prems(2) [symmetric] map_nth)
    finally have mp: "map (\<lambda>i. sts ! i \<or> reply ctx0 (fst (ps ! i)) \<noteq> None) [0..<length ps] = sts" .
    have "j' = j1 \<and> w' = w1 \<and> r = (if \<exists>i<length ps. \<not> sts ! i then Pending else Ready (Inr ()))"
      using less.prems(3) jp n(5) by (subst (asm) await_buffers.simps) (auto split: if_splits)
    moreover have "(\<exists>i<length ps. \<not> sts ! i) \<longleftrightarrow> \<not> (\<forall>b\<in>set sts. b)"
      using less.prems(2) by (auto simp: set_conv_nth)
    ultimately show ?thesis using n fut mp by (intro exI [of _ ctx1] conjI disjI2) auto
  qed
qed

section \<open>Properties\<close>

lemma waiting_start: "io_inv ctx0 \<Longrightarrow> waiting ctx0 ps (replicate (length ps) False) ctx0"
  by (simp add: waiting_def same_answer_def)

lemma sm_new_empty: "sm_get sm_new = Map.empty" "sm_len sm_new = 0"
  by (simp_all add: fun_eq_iff sm_len_def sm_new_def) (simp add: sm_new_def [symmetric])

lemma upds_distinct: "distinct ks \<Longrightarrow> length vs = length ks \<Longrightarrow> i < length ks \<Longrightarrow> (m(ks [\<mapsto>] vs)) (ks ! i) = Some (vs ! i)"
proof (induction ks arbitrary: m vs i)
  case (Cons k ks)
  then obtain v vs' where "vs = v # vs'" by (cases vs) auto
  with Cons show ?case by (cases i) auto
qed simp

lemma card_dom_upds:
  assumes "distinct ks" and "length vs = length ks" and "set ks \<inter> dom m = {}" and "finite (dom m)"
  shows "card (dom (m(ks [\<mapsto>] vs))) = card (dom m) + length ks"
  using assms by (simp add: card_Un_disjoint distinct_card Un_commute Int_commute)

text \<open>On a new runtime whose ring is large enough all buffers go into the pool and one entry for each
  is queued.\<close>

text \<open>C23: On a new runtime whose ring has room for them, the start of the main task of the
  servers puts 256 empty buffers into the pool and queues one entry for each, in order,
  carrying its address, its size, its buffer identifier and the identifier of its future.\<close>

theorem main_task_offers_buffers:
  assumes rt: "rt_new ring BUFFER_SIZE active = Done rt"
    and ring: "sq_inv (u_sq ring)" "sq_queue_size (u_sq ring) = sq_size (u_sq ring)" "cq_inv (u_cq ring)"
    and room: "sq_in_flight (u_sq ring) + STARTING_BUFFERS \<le> sq_size (u_sq ring)"
    and ptrs: "length ptrs = STARTING_BUFFERS"
  shows "\<exists>ps ctx. offer_buffers False enter ptrs (rt_ctx rt) = Some (Done (offers ps, ctx)) \<and> sub_inv ctx \<and>
    length ps = STARTING_BUFFERS \<and> offered_in ctx ps \<and> (\<forall>p\<in>set ps. reply ctx (fst p) = None) \<and>
    sm_len (io_buffers ctx) = STARTING_BUFFERS \<and> (\<forall>b\<in>ran (sm_get (io_buffers ctx)). b = empty_buffer) \<and>
    sq_window (io_sq ctx) = sq_window (u_sq ring) @
      map2 (\<lambda>ptr (fut, bufid). provided ptr BUFFER_SIZE bufid (cf_cqid fut)) ptrs ps \<and>
    io_queued ctx = STARTING_BUFFERS"
proof -
  have ctx: "sub_inv (rt_ctx rt)" "io_bufsize (rt_ctx rt) = BUFFER_SIZE" "io_sq (rt_ctx rt) = u_sq ring"
    "io_buffers (rt_ctx rt) = sm_new" "io_completions (rt_ctx rt) = sm_new" "io_queued (rt_ctx rt) = 0"
    using rt ring by (auto simp: rt_new_def assert_then_def sub_inv_def io_inv_def sm_inv_new split: if_splits)
  have cap: "STARTING_BUFFERS \<le> 2 ^ 16 - 1" "STARTING_BUFFERS \<le> sm_cap"
    by (simp_all add: STARTING_BUFFERS_def sm_cap_def SENTINEL_def SLABSIZE_def USIZE_MAX_def)
  obtain ps ctx' where 1: "offer_buffers False enter ptrs (rt_ctx rt) = Some (Done (offers ps, ctx'))"
    "sub_inv ctx'" "length ps = STARTING_BUFFERS" "distinct (map (cf_cqid \<circ> fst) ps)" "distinct (map snd ps)"
    "sm_get (io_buffers ctx') = Map.empty(map snd ps [\<mapsto>] replicate STARTING_BUFFERS empty_buffer)"
    "sm_get (io_completions ctx') = Map.empty(map (cf_cqid \<circ> fst) ps [\<mapsto>] map (offer_event \<circ> snd) ps)"
    "sq_window (io_sq ctx') = sq_window (u_sq ring) @
      map2 (\<lambda>ptr (fut, bufid). provided ptr BUFFER_SIZE bufid (cf_cqid fut)) ptrs ps"
    "io_queued ctx' = STARTING_BUFFERS"
    using offer_buffers_spec [OF ctx(1,2), of ptrs enter] ctx cap room ptrs by (auto simp: sm_new_empty)
  have get: "sm_get (io_completions ctx') (cf_cqid (fst (ps ! i))) = Some (offer_event (snd (ps ! i)))"
    "sm_get (io_buffers ctx') (snd (ps ! i)) = Some empty_buffer" if "i < length ps" for i
    using upds_distinct [OF 1(4), of "map (offer_event \<circ> snd) ps" i Map.empty]
      upds_distinct [OF 1(5), of "replicate STARTING_BUFFERS empty_buffer" i Map.empty] 1(3,6,7) that by simp_all
  have off: "offered_in ctx' ps" "\<forall>p\<in>set ps. reply ctx' (fst p) = None"
    using get 1(4) by (simp_all add: offered_in_def all_set_conv_all_nth reply_def offer_event_def)
  have "sm_inv (io_buffers ctx')" using 1(2) by (simp add: sub_inv_def io_inv_def)
  then have len: "sm_len (io_buffers ctx') = STARTING_BUFFERS"
    using card_dom_upds [OF 1(5), of "replicate STARTING_BUFFERS empty_buffer" Map.empty] 1(3,6)
    by (simp add: sm.count_card)
  have "dom (sm_get (io_buffers ctx')) = set (map snd ps)" using 1(3,6) by simp
  then have "\<forall>b\<in>ran (sm_get (io_buffers ctx')). b = empty_buffer"
  proof (intro ballI)
    fix b assume "b \<in> ran (sm_get (io_buffers ctx'))"
    then obtain k where k: "sm_get (io_buffers ctx') k = Some b" by (auto simp: ran_def)
    then have "k \<in> set (map snd ps)" using \<open>dom _ = _\<close> by blast
    then obtain i where "i < length ps" "k = snd (ps ! i)" by (metis in_set_conv_nth length_map nth_map)
    with get(2) k show "b = empty_buffer" by simp
  qed
  with 1 off len show ?thesis by blast
qed

text \<open>A poll while the kernel has answered some offers.\<close>


text \<open>A ring of 512 entries, which is what \<open>main\<close> asks for.\<close>

definition ring_demo_512 :: "unit uring" where
  "ring_demo_512 = ring_of \<lparr>sq_khead = 0, sq_ktail = 0, sq_kmask = 511, sq_kentries = 512, sq_kflags = 0,
     sq_array = map of_nat [0..<512], sq_sqes = replicate 512 sqe_zeroed, sq_sqe_head = 0, sq_sqe_tail = 0\<rparr> cq_demo"

lemma ring_demo_512: "sq_inv (u_sq ring_demo_512)" "sq_queue_size (u_sq ring_demo_512) = sq_size (u_sq ring_demo_512)"
    "cq_inv (u_cq ring_demo_512)" "sq_in_flight (u_sq ring_demo_512) + STARTING_BUFFERS \<le> sq_size (u_sq ring_demo_512)"
proof -
  have "map unat (map of_nat [0..<512] :: u32 list) = [0..<512]"
    by (simp only: map_map comp_def) (rule map_idI, simp add: unat_of_nat)
  then show "sq_inv (u_sq ring_demo_512)" "sq_queue_size (u_sq ring_demo_512) = sq_size (u_sq ring_demo_512)"
    "cq_inv (u_cq ring_demo_512)" "sq_in_flight (u_sq ring_demo_512) + STARTING_BUFFERS \<le> sq_size (u_sq ring_demo_512)"
    by (simp_all add: ring_demo_512_def ring_of_def sq_inv_def sq_defs ring_mask_ok_def cq_demo_inv
        sq_queue_size_def STARTING_BUFFERS_def del: upt_Suc)
qed

theorem main_task_offers_buffers_witness:
  "\<exists>rt :: (unit, unit) runtime. \<exists>ps ctx. rt_new ring_demo_512 BUFFER_SIZE 0 = Done rt \<and>
    offer_buffers False eager_kernel (replicate STARTING_BUFFERS 64) (rt_ctx rt) = Some (Done (offers ps, ctx)) \<and>
    sm_len (io_buffers ctx) = 256 \<and> io_queued ctx = 256"
proof -
  obtain rt :: "(unit, unit) runtime" where rt: "rt_new ring_demo_512 BUFFER_SIZE 0 = Done rt"
    by (simp add: rt_new_def assert_then_def BUFFER_SIZE_def)
  from main_task_offers_buffers [OF rt ring_demo_512, of "replicate STARTING_BUFFERS 64" eager_kernel]
  show ?thesis using rt by (auto simp: STARTING_BUFFERS_def)
qed


end
