(* ===== verification/Server_Main.thy ===== *)
theory Server_Main
  imports Acceptor Buffer_Setup Uring_Setup Echo_Server Ping_Server
begin

text \<open>
  \<open>main\<close> of \<open>hamerkop/examples/echoserver.rs\<close> and \<open>pingserver.rs\<close>: what a connection carries from
  the acceptor to its task, how the program starts, and how it ends.
\<close>

section \<open>From a connection to its task\<close>

text \<open>\<open>SizedBuffer\<close>: memory for the future of the task, allocated by the acceptor thread and
  uninitialised until the main task writes the future into it.\<close>

definition boxed :: "'f option" where
  "boxed = None"

definition inner_write :: "'f option \<Rightarrow> 'f \<Rightarrow> 'f option" where
  "inner_write mem fut = Some fut"

text \<open>The box is reinterpreted as a box of the future.\<close>

definition transmute_box :: "'f option \<Rightarrow> 'f outcome" where
  "transmute_box mem = (case mem of Some fut \<Rightarrow> Done fut | None \<Rightarrow> Undef)"

record 'f conn_setup =
  cs_mem :: "'f option"
  cs_conn :: "32 word"

record 'f ping_setup = "'f conn_setup" +
  cs_wbuf :: "u8 fixedvec"
  cs_tbuf :: "u8 fixedvec"

definition echo_accepted :: "32 word \<Rightarrow> 'f conn_setup" where
  "echo_accepted conn = \<lparr>cs_mem = boxed, cs_conn = conn\<rparr>"

definition ping_accepted :: "32 word \<Rightarrow> 'f ping_setup" where
  "ping_accepted conn =
     \<lparr>cs_mem = boxed, cs_conn = conn, cs_wbuf = fv_with_capacity BUFFER_SIZE, cs_tbuf = fv_with_capacity BUFFER_SIZE\<rparr>"

text \<open>The closure \<open>main\<close> hands to the main task; \<open>conn_task\<close> makes the future.\<close>

definition echo_func :: "(32 word \<Rightarrow> 'f) \<Rightarrow> 'f conn_setup \<Rightarrow> 'f outcome" where
  "echo_func conn_task data = transmute_box (inner_write (cs_mem data) (conn_task (cs_conn data)))"

definition ping_func :: "(32 word \<Rightarrow> u8 fixedvec \<Rightarrow> u8 fixedvec \<Rightarrow> 'f) \<Rightarrow> 'f ping_setup \<Rightarrow> 'f outcome" where
  "ping_func conn_task data =
     transmute_box (inner_write (cs_mem data) (conn_task (cs_conn data) (cs_wbuf data) (cs_tbuf data)))"

text \<open>\<open>conn_task\<close> logs the result of \<open>conn_task_\<close>.\<close>

definition echo_task :: "'s net \<Rightarrow> 32 word \<Rightarrow> 's \<Rightarrow> 's outcome option" where
  "echo_task net fd s = obind (echo_conn_task net fd s) (\<lambda>(_, s). Some (Done s))"

definition ping_task :: "'s net \<Rightarrow> 32 word \<Rightarrow> u8 fixedvec \<Rightarrow> u8 fixedvec \<Rightarrow> 's \<Rightarrow> 's outcome option" where
  "ping_task net fd wbuf tbuf s = obind (ping_conn_task net fd wbuf tbuf s) (\<lambda>(_, s). Some (Done s))"

lemma echo_func_accepted: "echo_func conn_task (echo_accepted conn) = Done (conn_task conn)"
  by (simp add: echo_func_def echo_accepted_def inner_write_def transmute_box_def)

lemma ping_func_accepted:
  "ping_func conn_task (ping_accepted conn) =
     Done (conn_task conn (fv_with_capacity BUFFER_SIZE) (fv_with_capacity BUFFER_SIZE))"
  by (simp add: ping_func_def ping_accepted_def inner_write_def transmute_box_def)

section \<open>The start\<close>

text \<open>Making the ring panics on an error; the error of \<open>eventfd\<close> is made from its return value.
  \<open>contents\<close> reads the mapped memory of the ring.\<close>

definition main_start ::
  "bool \<Rightarrow> 's os \<Rightarrow> (nat \<Rightarrow> 's \<Rightarrow> int \<times> 's) \<Rightarrow> (io_ring \<Rightarrow> 's \<Rightarrow> 'k uring) \<Rightarrow> int \<Rightarrow> 's \<Rightarrow>
    ((io_error + io_ring \<times> ('f, 'k) runtime \<times> int) \<times> 's) outcome" where
  "main_start dbg os eventfd contents active s =
     and_then (with_flags dbg os 512 0 s) (\<lambda>(r, s). case r of
         Inl e \<Rightarrow> Panic
       | Inr ring \<Rightarrow> and_then (rt_new (contents ring s) BUFFER_SIZE active) (\<lambda>rt.
           case eventfd event_flags s of (fd, s) \<Rightarrow>
             if fd < 0 then Done (Inl (OsError (- fd)), drop_ring os ring s)
             else Done (Inr (ring, rt, fd), s)))"

section \<open>The end\<close>

text \<open>
  \<open>main\<close> runs the executor in a scope that waits for the acceptor thread.  When \<open>block_on\<close>
  returns, the eventfd is closed.  An error of the executor leaves the main task, and the receiver
  it owns, in the runtime, so sending still succeeds.
\<close>

datatype main_thread =
  InBlockOn
| BlockOnReturned "io_error + unit"
| EndOfScope
| MainReturned "io_error + unit"

record 'c process =
  pr_server :: "'c server"
  pr_thread :: main_thread
  pr_fd_closed :: bool

definition pr_start :: "'c process" where
  "pr_start = \<lparr>pr_server = sv_start, pr_thread = InBlockOn, pr_fd_closed = False\<rparr>"

definition main_thread_step :: "io_error option \<Rightarrow> int option \<Rightarrow> 'c process \<Rightarrow> 'c process option" where
  "main_thread_step turn_error fault p =
     (case pr_thread p of
        InBlockOn \<Rightarrow>
          (case turn_error of
             Some e \<Rightarrow> Some (p\<lparr>pr_thread := BlockOnReturned (Inl e)\<rparr>)
           | None \<Rightarrow> (case sv_main (pr_server p) of
               MainDone e \<Rightarrow> Some (p\<lparr>pr_thread := BlockOnReturned (Inr ())\<rparr>)
             | _ \<Rightarrow> map_option (\<lambda>s. p\<lparr>pr_server := s\<rparr>) (main_step fault (pr_server p))))
      | BlockOnReturned res \<Rightarrow> Some (p\<lparr>pr_fd_closed := True, pr_thread := EndOfScope\<rparr>)
      | EndOfScope \<Rightarrow>
          (case sv_acceptor (pr_server p) of
             AcceptorDone _ \<Rightarrow> Some (p\<lparr>pr_thread := MainReturned (Inr ())\<rparr>)
           | _ \<Rightarrow> None)
      | MainReturned r \<Rightarrow> None)"

text \<open>The error number of an operation on a closed descriptor.\<close>

definition EBADF :: int where "EBADF = 9"

definition acceptor_thread_step :: "int option \<Rightarrow> 'c process \<Rightarrow> 'c process option" where
  "acceptor_thread_step fault p =
     (let fault = (case sv_acceptor (pr_server p) of
          Accepted c \<Rightarrow> if pr_fd_closed p then Some EBADF else fault
        | _ \<Rightarrow> fault)
      in map_option (\<lambda>s. p\<lparr>pr_server := s\<rparr>) (acceptor_step fault (pr_server p)))"

definition pr_connect :: "'c \<Rightarrow> 'c process \<Rightarrow> 'c process" where
  "pr_connect c p = p\<lparr>pr_server := sv_connect c (pr_server p)\<rparr>"

inductive pr_reach :: "'c process \<Rightarrow> bool" where
  start: "pr_reach pr_start"
| connect: "pr_reach p \<Longrightarrow> pr_reach (pr_connect c p)"
| acceptor: "pr_reach p \<Longrightarrow> acceptor_thread_step fault p = Some p' \<Longrightarrow> pr_reach p'"
| main: "pr_reach p \<Longrightarrow> main_thread_step turn_error fault p = Some p' \<Longrightarrow> pr_reach p'"

lemma pr_server_reach: "pr_reach p \<Longrightarrow> sv_reach (pr_server p)"
proof (induction rule: pr_reach.induct)
  case (acceptor p fault p')
  then show ?case
    by (auto simp: acceptor_thread_step_def Let_def simp del: acceptor_step.simps intro: sv_reach.acceptor)
next
  case (main p turn_error fault p')
  then show ?case
    by (auto simp: main_thread_step_def simp del: main_step.simps intro: sv_reach.main
        split: main_thread.splits option.splits main_pc.splits acceptor_pc.splits)
qed (simp_all add: pr_start_def pr_connect_def sv_reach.start sv_reach.connect)

text \<open>The descriptor is open while the executor runs, and \<open>main\<close> only returns success, after the
  acceptor has ended.\<close>

definition pr_inv :: "'c process \<Rightarrow> bool" where
  "pr_inv p \<longleftrightarrow> (case pr_thread p of
      InBlockOn \<Rightarrow> \<not> pr_fd_closed p
    | BlockOnReturned r \<Rightarrow> \<not> pr_fd_closed p
    | EndOfScope \<Rightarrow> pr_fd_closed p
    | MainReturned r \<Rightarrow> pr_fd_closed p \<and> r = Inr () \<and> (\<exists>x. sv_acceptor (pr_server p) = AcceptorDone x))"

lemma acceptor_done_stays: "acceptor_step fault s = Some s' \<Longrightarrow> sv_acceptor s \<noteq> AcceptorDone x"
  by auto

lemma pr_reach_inv: "pr_reach p \<Longrightarrow> pr_inv p"
proof (induction rule: pr_reach.induct)
  case (acceptor p fault p')
  then show ?case
    by (auto simp: pr_inv_def acceptor_thread_step_def Let_def simp del: acceptor_step.simps
        dest: acceptor_done_stays split: main_thread.splits)
next
  case (main p turn_error fault p')
  then show ?case
    by (auto simp: pr_inv_def main_thread_step_def simp del: main_step.simps
        split: main_thread.splits option.splits main_pc.splits acceptor_pc.splits)
qed (simp_all add: pr_inv_def pr_start_def pr_connect_def sv_connect_def split: main_thread.splits)

section \<open>Properties\<close>

text \<open>A server whose executor has stopped.\<close>

definition stopped :: "'c process \<Rightarrow> bool" where
  "stopped p \<longleftrightarrow> pr_thread p = EndOfScope \<and> sv_acceptor (pr_server p) = AtAccept \<and> sv_backlog (pr_server p) = []"



end
