(* ===== verification/Ring_Handles.thy ===== *)
theory Ring_Handles
  imports Uring_Setup Comp_Queue Sqe_Types Registrar
begin

text \<open>
  The handles on a ring (\<open>uring/src/lib.rs\<close>: \<open>sq\<close>, \<open>cq\<close>, \<open>registrar\<close>, \<open>probe\<close> and \<open>split\<close>;
  the constructors of \<open>sqe.rs\<close>, \<open>cqe.rs\<close> and \<open>registrar.rs\<close>), the entries behind their
  wrappers, and a ring from its making to the operations the kernel reads.
\<close>

section \<open>Handles\<close>

record sub_handle =
  sh_sq :: sq_ring
  sh_fd :: int
  sh_flags :: u32

record comp_handle =
  ch_cq :: cq_ring
  ch_fd :: int

record registrar =
  rg_fd :: int

definition sq_new :: "int \<Rightarrow> u32 \<Rightarrow> sq_ring \<Rightarrow> sub_handle" where
  "sq_new fd flags sq = \<lparr>sh_sq = sq, sh_fd = fd, sh_flags = flags\<rparr>"

definition cq_new :: "int \<Rightarrow> cq_ring \<Rightarrow> comp_handle" where
  "cq_new fd cq = \<lparr>ch_cq = cq, ch_fd = fd\<rparr>"

definition registrar_new :: "int \<Rightarrow> registrar" where
  "registrar_new fd = \<lparr>rg_fd = fd\<rparr>"

text \<open>The completion queue in the mapped memory; the entries stay apart.\<close>

definition cq_ring_at :: "'s os \<Rightarrow> cq_map \<Rightarrow> cqe list \<Rightarrow> 's \<Rightarrow> cq_ring" where
  "cq_ring_at os q cqes s =
     \<lparr>cq_khead = os_load os (cp_khead q) s, cq_ktail = os_load os (cp_ktail q) s,
      cq_kmask = os_load os (cp_kring_mask q) s, cq_cqes = cqes\<rparr>"

definition ring_sq :: "'s os \<Rightarrow> io_ring \<Rightarrow> sqe list \<Rightarrow> 's \<Rightarrow> sub_handle" where
  "ring_sq os r sqes s = sq_new (ir_fd r) (ir_flags r) (sq_ring_at os (ir_sq r) sqes s)"

definition ring_cq :: "'s os \<Rightarrow> io_ring \<Rightarrow> cqe list \<Rightarrow> 's \<Rightarrow> comp_handle" where
  "ring_cq os r cqes s = cq_new (ir_fd r) (cq_ring_at os (ir_cq r) cqes s)"

definition ring_registrar :: "io_ring \<Rightarrow> registrar" where
  "ring_registrar r = registrar_new (ir_fd r)"

definition ring_probe :: "'k register \<Rightarrow> io_ring \<Rightarrow> 'k \<Rightarrow> ((io_error + probe) \<times> 'k) outcome" where
  "ring_probe reg r k = reg_probe reg (word_of_int (rg_fd (ring_registrar r))) k"

definition ring_split ::
  "'s os \<Rightarrow> io_ring \<Rightarrow> sqe list \<Rightarrow> cqe list \<Rightarrow> 's \<Rightarrow> sub_handle \<times> comp_handle \<times> registrar" where
  "ring_split os r sqes cqes s =
     (sq_new (ir_fd r) (ir_flags r) (sq_ring_at os (ir_sq r) sqes s),
      cq_new (ir_fd r) (cq_ring_at os (ir_cq r) cqes s), registrar_new (ir_fd r))"

lemma ring_split_parts:
  "ring_split os r sqes cqes s = (ring_sq os r sqes s, ring_cq os r cqes s, ring_registrar r)"
  by (simp add: ring_split_def ring_sq_def ring_cq_def ring_registrar_def)

text \<open>The state of the ring the two handles give access to, with the kernel behind it.\<close>

definition handles_ring :: "sub_handle \<Rightarrow> comp_handle \<Rightarrow> 'k \<Rightarrow> 'k uring" where
  "handles_ring sq cq k =
     \<lparr>u_sq = sh_sq sq, u_cq = ch_cq cq, u_flags = sh_flags sq, u_fd = word_of_int (sh_fd sq), u_kernel = k\<rparr>"

section \<open>Entries\<close>

text \<open>\<open>SubmissionQueueEvent\<close> and \<open>CompletionQueueEvent\<close> wrap an entry without changing it.\<close>

definition ev_from_raw :: "sqe \<Rightarrow> sqe" where "ev_from_raw s = s"
definition ev_into_raw :: "sqe \<Rightarrow> sqe" where "ev_into_raw s = s"
definition ce_from_raw :: "cqe \<Rightarrow> cqe" where "ce_from_raw c = c"
definition ce_into_raw :: "cqe \<Rightarrow> cqe" where "ce_into_raw c = c"
definition ce_result_raw :: "cqe \<Rightarrow> 32 word" where "ce_result_raw c = cqe_res c"
definition ce_flags :: "cqe \<Rightarrow> u32" where "ce_flags c = cqe_flags c"

definition ev_prepare :: "u16 \<Rightarrow> sqe_op \<Rightarrow> sqe \<Rightarrow> sqe" where
  "ev_prepare pad op s = prep_sqe pad op s"

section \<open>A batch of operations\<close>

text \<open>
  How a program queues operations: the \<open>i\<close>-th free entry is prepared for the \<open>i\<close>-th operation
  (\<open>sqes().get_mut(i).unwrap().prepare(op)\<close>), the queue is advanced by their number, and submitted.
\<close>

fun prepare_all :: "bool \<Rightarrow> u16 \<Rightarrow> nat \<Rightarrow> sqe_op list \<Rightarrow> sq_ring \<Rightarrow> sq_ring outcome" where
  "prepare_all dbg pad i [] sq = Done sq"
| "prepare_all dbg pad i (op # ops) sq =
     and_then (sq_modify dbg i (ev_prepare pad op) sq) (\<lambda>r. case r of
         None \<Rightarrow> Panic
       | Some sq \<Rightarrow> prepare_all dbg pad (i + 1) ops sq)"

definition queue_ops :: "bool \<Rightarrow> u16 \<Rightarrow> sqe_op list \<Rightarrow> sq_ring \<Rightarrow> sq_ring outcome" where
  "queue_ops dbg pad ops sq = and_then (prepare_all dbg pad 0 ops sq) (sq_advance dbg (of_nat (length ops)))"

definition submit_ops ::
  "bool \<Rightarrow> u16 \<Rightarrow> 'k enter \<Rightarrow> sqe_op list \<Rightarrow> 'k uring \<Rightarrow> ((io_error + nat) \<times> 'k uring) outcome" where
  "submit_ops dbg pad enter ops u =
     and_then (queue_ops dbg pad ops (u_sq u)) (\<lambda>sq. sq_submit dbg enter (u\<lparr>u_sq := sq\<rparr>))"

abbreviation op_entry :: "u16 \<Rightarrow> sqe_op \<Rightarrow> sqe" where
  "op_entry pad op \<equiv> ev_prepare pad op sqe_zeroed"

lemma ev_prepare_fresh: "ev_prepare pad op s = op_entry pad op"
  unfolding ev_prepare_def by (rule prep_fresh)

lemma sq_modify_step:
  assumes inv: "sq_inv sq" and room: "sq_in_flight sq + i < sq_size sq" "i < c" "c \<le> sq_size sq"
  obtains sq' where "sq_modify dbg i f sq = Done (Some sq')" and "sq_inv sq'"
    and "sq_window sq' = sq_window sq" "sq_in_flight sq' = sq_in_flight sq" "sq_size sq' = sq_size sq"
    and "sq_ktail sq' = sq_ktail sq" "sq_sqe_tail sq' = sq_sqe_tail sq"
    and "sq_prepared sq' c = (sq_prepared sq c)[i := f (sq_prepared sq c ! i)]"
proof -
  have "i < sq_free sq" using room by (auto simp: sq_free_def)
  then obtain sq' where m: "sq_modify dbg i f sq = Done (Some sq')" and "sq_sqe_tail sq' = sq_sqe_tail sq"
    by (simp add: sq_modify_eq [OF inv])
  with sq_modify_window [OF inv room(1) m] sq_modify_prepared [OF inv room(2,3) m] that show ?thesis by blast
qed

lemma update_then_split:
  assumes "i < length xs"
  shows "take (i + 1) (xs[i := v]) @ ys @ drop (i + 1 + n) (xs[i := v]) = take i xs @ (v # ys) @ drop (i + (n + 1)) xs"
  using assms by (simp add: take_Suc_conv_app_nth)

lemma length_sq_prepared [simp]: "length (sq_prepared sq c) = c"
  by (simp add: sq_prepared_def ring_free_def)

lemma prepare_all_result:
  assumes "sq_inv sq" and "sq_in_flight sq + i + length ops \<le> sq_size sq"
  shows "\<exists>sq'. prepare_all dbg pad i ops sq = Done sq' \<and> sq_inv sq' \<and> sq_window sq' = sq_window sq \<and>
    sq_in_flight sq' = sq_in_flight sq \<and> sq_size sq' = sq_size sq \<and> sq_ktail sq' = sq_ktail sq \<and>
    sq_sqe_tail sq' = sq_sqe_tail sq \<and>
    (\<forall>c. i + length ops \<le> c \<longrightarrow> c \<le> sq_size sq \<longrightarrow>
      sq_prepared sq' c = take i (sq_prepared sq c) @ map (op_entry pad) ops @ drop (i + length ops) (sq_prepared sq c))"
  using assms
proof (induction ops arbitrary: i sq)
  case Nil
  then show ?case by simp
next
  case (Cons op ops)
  let ?f = "ev_prepare pad op"
  have room: "sq_in_flight sq + i < sq_size sq" "i < i + 1" "i + 1 \<le> sq_size sq" using "Cons.prems" by auto
  obtain sq1 where m: "sq_modify dbg i ?f sq = Done (Some sq1)" and inv1: "sq_inv sq1"
    and same: "sq_window sq1 = sq_window sq" "sq_in_flight sq1 = sq_in_flight sq" "sq_size sq1 = sq_size sq"
      "sq_ktail sq1 = sq_ktail sq" "sq_sqe_tail sq1 = sq_sqe_tail sq"
    using sq_modify_step [OF "Cons.prems"(1) room] by metis
  have p1: "sq_prepared sq1 c = (sq_prepared sq c)[i := op_entry pad op]" if "i < c" "c \<le> sq_size sq" for c
    using sq_modify_prepared [OF "Cons.prems"(1) that m] by (simp only: ev_prepare_fresh [of pad op "_ ! _"])
  obtain sq2 where 2: "prepare_all dbg pad (i + 1) ops sq1 = Done sq2" "sq_inv sq2"
    "sq_window sq2 = sq_window sq1" "sq_in_flight sq2 = sq_in_flight sq1" "sq_size sq2 = sq_size sq1"
    "sq_ktail sq2 = sq_ktail sq1" "sq_sqe_tail sq2 = sq_sqe_tail sq1"
    and p2: "\<forall>c. i + 1 + length ops \<le> c \<longrightarrow> c \<le> sq_size sq1 \<longrightarrow> sq_prepared sq2 c =
      take (i + 1) (sq_prepared sq1 c) @ map (op_entry pad) ops @ drop (i + 1 + length ops) (sq_prepared sq1 c)"
    using "Cons.IH" [of sq1 "i + 1"] inv1 same "Cons.prems"(2) by auto
  have "sq_prepared sq2 c = take i (sq_prepared sq c) @ map (op_entry pad) (op # ops) @
      drop (i + length (op # ops)) (sq_prepared sq c)"
    if c: "i + length (op # ops) \<le> c" "c \<le> sq_size sq" for c
  proof -
    have 1: "sq_prepared sq1 c = (sq_prepared sq c)[i := op_entry pad op]" using c by (intro p1) simp_all
    have 2: "sq_prepared sq2 c =
        take (i + 1) (sq_prepared sq1 c) @ map (op_entry pad) ops @ drop (i + 1 + length ops) (sq_prepared sq1 c)"
      using c same(3) by (intro p2 [rule_format]) simp_all
    have "i < length (sq_prepared sq c)" using c by simp
    from update_then_split [OF this] show ?thesis unfolding 2 1 by (simp only: list.map list.size One_nat_def)
  qed
  moreover have "prepare_all dbg pad i (op # ops) sq = Done sq2" using m 2(1) by simp
  ultimately show ?case using 2(2-7) same by simp
qed

lemma queue_ops_window:
  assumes "sq_inv sq" and "sq_in_flight sq + length ops \<le> sq_size sq"
  shows "\<exists>sq'. queue_ops False pad ops sq = Done sq' \<and> sq_inv sq' \<and>
    sq_window sq' = sq_window sq @ map (op_entry pad) ops \<and> sq_sqe_tail sq' = sq_sqe_tail sq \<and>
    sq_ktail sq' = sq_ktail sq + of_nat (length ops)"
proof -
  obtain sq1 where 1: "prepare_all False pad 0 ops sq = Done sq1" "sq_inv sq1" "sq_window sq1 = sq_window sq"
    "sq_in_flight sq1 = sq_in_flight sq" "sq_size sq1 = sq_size sq" "sq_ktail sq1 = sq_ktail sq"
    "sq_sqe_tail sq1 = sq_sqe_tail sq"
    and p: "sq_prepared sq1 (length ops) = map (op_entry pad) ops"
    using prepare_all_result [OF assms(1), of 0 ops False pad] assms(2) by auto
  obtain sq2 where 2: "sq_advance False (of_nat (length ops)) sq1 = Done sq2"
    and sq2: "sq2 = sq1\<lparr>sq_ktail := sq_ktail sq1 + of_nat (length ops)\<rparr>"
    by (simp add: sq_advance_def u32_add_def)
  have "sq_inv sq2 \<and> sq_window sq2 = sq_window sq1 @ sq_prepared sq1 (length ops)"
    using sq_advance_window [OF 1(2) _ 2] 1 assms(2) by simp
  with 1 2 p sq2 show ?thesis by (simp add: queue_ops_def)
qed

lemma kernel_take_prefix:
  assumes "sq_inv sq"
  shows "fst (sq_kernel_take n sq) = take n (sq_window sq)"
proof -
  obtain out sq' where 1: "sq_kernel_take n sq = (out, sq')" "out @ sq_window sq' = sq_window sq"
    "sq_in_flight sq' = sq_in_flight sq - n"
    using sq_kernel_take_window [OF assms, of n] by auto
  have "take n (out @ sq_window sq') = out"
    using arg_cong [OF 1(2), of length] 1(3) by (simp flip: length_0_conv)
  with 1 show ?thesis by simp
qed

section \<open>From making a ring to submitting to it\<close>

lemma mmap_queues_tail: "mmap_queues os fd p s = (Inr (sq, cq), s') \<Longrightarrow> sp_sqe_tail sq = 0"
  by (auto simp: mmap_queues_def Let_def sq_map_at_def split: prod.splits if_splits)

lemma with_params_tail:
  assumes "with_params dbg os entries params s = Done (Inr r, s')"
  shows "sp_sqe_tail (ir_sq r) = 0" and "ir_flags r = up_flags params"
  using assms
  by (auto simp: with_params_def and_then_Done_iff split: prod.splits sum.splits dest: mmap_queues_tail)



end
