(* ===== verification/Slotmap_Mut.thy ===== *)
theory Slotmap_Mut
  imports Slotmap
begin

text \<open>
  Mutable access to the slot map of \<open>hamerkop/src/stable_slotmap.rs\<close>: \<open>IndexMut\<close> and
  \<open>iter_mut\<close>.  A mutable reference is the place of its entry, the number of the slab and the
  position in it; an assignment through it overwrites this entry.
\<close>

section \<open>Operations\<close>

definition sm_index_mut :: "'a slotmap \<Rightarrow> nat \<Rightarrow> 'a \<Rightarrow> 'a slotmap outcome" where
  "sm_index_mut s index v =
     (case sm_get s index of Some _ \<Rightarrow> Done (sm_set s index v) | None \<Rightarrow> Panic)"

definition sm_iter_mut :: "'a slotmap \<Rightarrow> (nat \<times> nat) list" where
  "sm_iter_mut s = List.map_filter
     (\<lambda>(place, entry). case entry of Element e \<Rightarrow> Some place | Link _ \<Rightarrow> None)
     (concat (map (\<lambda>(k, slab). map (\<lambda>(j, entry). ((k, j), entry)) (enumerate 0 slab)) (enumerate 0 (slabs s))))"

definition place_read :: "'a slotmap \<Rightarrow> nat \<times> nat \<Rightarrow> 'a outcome" where
  "place_read s = (\<lambda>(k, j). case slabs s ! k ! j of Element v \<Rightarrow> Done v | Link _ \<Rightarrow> Undef)"

definition place_write :: "nat \<times> nat \<Rightarrow> 'a \<Rightarrow> 'a slotmap \<Rightarrow> 'a slotmap" where
  "place_write = (\<lambda>(k, j) v s. s\<lparr>slabs := (slabs s)[k := (slabs s ! k)[j := Element v]]\<rparr>)"

text \<open>\<open>for x in s.iter_mut() { *x = f(x) }\<close>.\<close>

fun update_places :: "('a \<Rightarrow> 'a) \<Rightarrow> (nat \<times> nat) list \<Rightarrow> 'a slotmap \<Rightarrow> 'a slotmap outcome" where
  "update_places f [] s = Done s"
| "update_places f (p # ps) s =
     and_then (place_read s p) (\<lambda>v. update_places f ps (place_write p (f v) s))"

definition place_index :: "nat \<times> nat \<Rightarrow> nat" where
  "place_index = (\<lambda>(k, j). k * SLABSIZE + j)"

section \<open>The places are the occupied indices\<close>

lemma enumerate_concat_uniform:
  assumes "\<forall>xs\<in>set xss. length xs = n"
  shows "map (\<lambda>((k, j), x). (k * n + j, x))
      (concat (map (\<lambda>(k, xs). map (\<lambda>(j, x). ((k, j), x)) (enumerate 0 xs)) (enumerate m xss)))
    = enumerate (m * n) (concat xss)"
  using assms
proof (induction xss arbitrary: m)
  case Nil
  then show ?case by simp
next
  case (Cons xs xss)
  have "map (\<lambda>(j, x). (m * n + j, x)) (enumerate 0 xs) = enumerate (m * n) xs"
    by (intro nth_equalityI) (simp_all add: nth_enumerate_eq)
  with Cons show ?case by (simp add: enumerate_append_eq comp_def case_prod_unfold add.commute)
qed

lemma set_map_filter: "x \<in> set (List.map_filter f xs) \<longleftrightarrow> (\<exists>y\<in>set xs. f y = Some x)"
  by (force simp: List.map_filter_def)

lemma map_filter_map: "List.map_filter f (map g xs) = List.map_filter (f \<circ> g) xs"
  by (simp add: List.map_filter_def filter_map comp_def)

lemma map_map_filter: "map g (List.map_filter f xs) = List.map_filter (map_option g \<circ> f) xs"
  by (induction xs) (auto simp: List.map_filter_def)

lemma map_filter_enumerate:
  "List.map_filter f (enumerate 0 xs) = List.map_filter (\<lambda>i. f (i, xs ! i)) [0..<length xs]"
proof -
  have "enumerate 0 xs = map (\<lambda>i. (i, xs ! i)) [0..<length xs]"
    by (intro nth_equalityI) (simp_all add: nth_enumerate_eq)
  then show ?thesis by (simp add: map_filter_map comp_def)
qed

lemma sm_iter_mut_indices:
  assumes "shaped s"
  shows "map place_index (sm_iter_mut s) = filter (\<lambda>i. sm_get s i \<noteq> None) [0..<length (flat s)]"
proof -
  let ?sel = "\<lambda>(i :: nat, e :: 'a entry). case e of Element v \<Rightarrow> Some i | Link _ \<Rightarrow> None"
  let ?places = "concat (map (\<lambda>(k, slab). map (\<lambda>(j, e). ((k, j), e)) (enumerate 0 slab)) (enumerate 0 (slabs s)))"
  have "map place_index (sm_iter_mut s)
      = List.map_filter ?sel (map (\<lambda>((k, j), x). (k * SLABSIZE + j, x)) ?places)"
    unfolding sm_iter_mut_def map_map_filter map_filter_map
    by (intro arg_cong2 [where f = List.map_filter] ext refl)
      (auto simp: place_index_def split: entry.splits)
  also have "\<dots> = List.map_filter ?sel (enumerate 0 (flat s))"
    using enumerate_concat_uniform [of "slabs s" SLABSIZE 0] assms by (simp add: shaped_def flat_def)
  also have "\<dots> = List.map_filter (\<lambda>i. if sm_get s i \<noteq> None then Some i else None) [0..<length (flat s)]"
    unfolding map_filter_enumerate using assms
    by (auto simp: List.map_filter_def sm_get_flat intro!: map_cong filter_cong split: entry.splits)
  also have "\<dots> = filter (\<lambda>i. sm_get s i \<noteq> None) [0..<length (flat s)]"
    by (auto simp: List.map_filter_def intro!: map_idI cong: filter_cong)
  finally show ?thesis .
qed

lemma place_index_slot: "j < SLABSIZE \<Longrightarrow> place_index (k, j) div SLABSIZE = k \<and> place_index (k, j) mod SLABSIZE = j"
  by (simp add: place_index_def)

text \<open>A place of an element.\<close>

definition place_ok :: "'a slotmap \<Rightarrow> nat \<times> nat \<Rightarrow> bool" where
  "place_ok s p \<longleftrightarrow> snd p < SLABSIZE \<and> sm_get s (place_index p) \<noteq> None"

lemma place_index_inject:
  "snd p < SLABSIZE \<Longrightarrow> snd q < SLABSIZE \<Longrightarrow> place_index p = place_index q \<longleftrightarrow> p = q"
  by (metis place_index_slot prod.collapse)

lemma sm_iter_mut_ok:
  assumes sh: "shaped s" and p: "p \<in> set (sm_iter_mut s)"
  shows "place_ok s p"
proof -
  have "snd p < SLABSIZE"
    using p sh by (auto simp: sm_iter_mut_def set_map_filter in_set_enumerate_eq shaped_def split: entry.split_asm)
      (metis entry.exhaust)
  moreover have "place_index p \<in> set (map place_index (sm_iter_mut s))" using p by simp
  ultimately show ?thesis unfolding sm_iter_mut_indices [OF sh] by (simp add: place_ok_def)
qed

lemma sm_iter_mut_distinct: "shaped s \<Longrightarrow> distinct (sm_iter_mut s)"
  by (rule distinct_map [THEN iffD1, THEN conjunct1, of place_index]) (simp add: sm_iter_mut_indices)

lemma place_ok_access:
  assumes "place_ok s p"
  shows "\<exists>v. place_read s p = Done v \<and> sm_get s (place_index p) = Some v"
    and "place_write p v s = sm_set s (place_index p) v"
proof -
  obtain k j where p: "p = (k, j)" by (cases p)
  with assms have j: "j < SLABSIZE" and "sm_get s (place_index p) \<noteq> None" by (simp_all add: place_ok_def)
  then obtain w where w: "slot_at s (place_index p) = Some (Element w)" by (auto simp: sm_get_Some_iff)
  then have "slabs s ! k ! j = Element w"
    using place_index_slot [OF j, of k] by (auto simp: slot_at_def p Let_def split: if_splits)
  with w show "\<exists>v. place_read s p = Done v \<and> sm_get s (place_index p) = Some v"
    by (simp add: place_read_def p sm_get_Some_iff)
  show "place_write p v s = sm_set s (place_index p) v"
    using w place_index_slot [OF j, of k] by (simp add: place_write_def sm_set_def set_slot_def p)
qed

section \<open>Mutable access\<close>

lemma sm_index_mut_spec:
  assumes "sm_inv s"
  shows "case sm_get s i of
      None \<Rightarrow> sm_index_mut s i v = Panic
    | Some _ \<Rightarrow> \<exists>s'. sm_index_mut s i v = Done s' \<and> sm_inv s' \<and> sm_get s' = (sm_get s)(i \<mapsto> v)"
  using assms by (auto simp: sm_index_mut_def sm_set_spec split: option.splits)

lemma update_places_result:
  assumes "sm_inv s" and "\<forall>p\<in>set ps. place_ok s p" and "distinct ps"
  shows "\<exists>s'. update_places f ps s = Done s' \<and> sm_inv s' \<and>
    sm_get s' = (\<lambda>i. if i \<in> place_index ` set ps then map_option f (sm_get s i) else sm_get s i)"
  using assms
proof (induction ps arbitrary: s)
  case Nil
  then show ?case by simp
next
  case (Cons p ps)
  let ?i = "place_index p"
  obtain v where v: "place_read s p = Done v" "sm_get s ?i = Some v"
    using place_ok_access(1) [of s p] "Cons.prems"(2) by auto
  let ?s = "sm_set s ?i (f v)"
  have w: "place_write p (f v) s = ?s" using place_ok_access(2) [of s p] "Cons.prems"(2) by simp
  have g: "sm_get ?s = (sm_get s)(?i \<mapsto> f v)" and inv: "sm_inv ?s"
    using sm_set_spec [OF "Cons.prems"(1)] v(2) by simp_all
  have "\<forall>q\<in>set ps. place_ok ?s q" using "Cons.prems"(2) by (simp add: place_ok_def g)
  from "Cons.IH" [OF inv this] "Cons.prems"(3) obtain s' where s': "update_places f ps ?s = Done s'" "sm_inv s'"
    "sm_get s' = (\<lambda>i. if i \<in> place_index ` set ps then map_option f (sm_get ?s i) else sm_get ?s i)" by auto
  have "?i \<notin> place_index ` set ps"
    using "Cons.prems"(2,3) by (auto simp: place_ok_def place_index_inject)
  with s' v g show ?case by (auto simp: w fun_eq_iff)
qed

text \<open>Mutable iteration visits each element once, and a loop over it is a map over the elements.\<close>

lemma sm_iter_mut_maps:
  assumes "sm_inv s"
  shows "\<exists>s'. update_places f (sm_iter_mut s) s = Done s' \<and> sm_inv s' \<and> sm_get s' = map_option f \<circ> sm_get s"
proof -
  have sh: "shaped s" using assms by (rule sm_inv_shaped)
  have "place_index ` set (sm_iter_mut s) = {i. i < length (flat s) \<and> sm_get s i \<noteq> None}"
    using arg_cong [OF sm_iter_mut_indices [OF sh], of set] by auto
  moreover have "sm_get s i = None" if "\<not> i < length (flat s)" for i using sh that by (simp add: sm_get_flat)
  ultimately have "(\<lambda>i. if i \<in> place_index ` set (sm_iter_mut s) then map_option f (sm_get s i) else sm_get s i)
      = map_option f \<circ> sm_get s" by (auto simp: fun_eq_iff)
  with update_places_result [OF assms _ sm_iter_mut_distinct [OF sh], of f] sm_iter_mut_ok [OF sh]
  show ?thesis by auto
qed

end
