(* ===== verification/Raw_Layout.thy ===== *)
theory Raw_Layout
  imports Uring_Setup
begin

text \<open>
  The memory layout of the structures of \<open>uring/src/raw.rs\<close> that program and kernel exchange.  The
  sizes, alignments and offsets follow the rules of \<open>#[repr(C)]\<close>: a field starts at the next multiple
  of its alignment, a structure is padded to a multiple of its own, the fields of a union start at
  its beginning.  Integers are stored with the least significant byte first.
\<close>

section \<open>Layout\<close>

datatype c_type =
    Scalar nat
  | CArray nat c_type
  | Struct "c_type list"
  | Union "c_type list"
  | Packed c_type
  | Aligned nat c_type

definition round_up :: "nat \<Rightarrow> nat \<Rightarrow> nat" where
  "round_up n a = (n + a - 1) div a * a"

fun c_align :: "c_type \<Rightarrow> nat" where
  "c_align (Scalar n) = n"
| "c_align (CArray n t) = c_align t"
| "c_align (Struct ts) = foldr max (map c_align ts) 1"
| "c_align (Union ts) = foldr max (map c_align ts) 1"
| "c_align (Packed t) = 1"
| "c_align (Aligned a t) = max a (c_align t)"

fun c_size :: "c_type \<Rightarrow> nat" where
  "c_size (Scalar n) = n"
| "c_size (CArray n t) = n * c_size t"
| "c_size (Struct ts) =
     round_up (foldl (\<lambda>off (a, n). round_up off a + n) 0 (map (\<lambda>t. (c_align t, c_size t)) ts)) (c_align (Struct ts))"
| "c_size (Union ts) = round_up (foldr max (map c_size ts) 0) (c_align (Union ts))"
| "c_size (Packed t) = c_size t"
| "c_size (Aligned a t) = round_up (c_size t) (max a (c_align t))"

fun c_offsets :: "nat \<Rightarrow> c_type list \<Rightarrow> nat list" where
  "c_offsets off [] = []"
| "c_offsets off (t # ts) = (let o' = round_up off (c_align t) in o' # c_offsets (o' + c_size t) ts)"

abbreviation "u8_t \<equiv> Scalar 1"
abbreviation "u16_t \<equiv> Scalar 2"
abbreviation "u32_t \<equiv> Scalar 4"
abbreviation "u64_t \<equiv> Scalar 8"

section \<open>The structures\<close>

definition off_addr2_t :: c_type where
  "off_addr2_t = Union [u64_t, u64_t]"

definition addr_splice_t :: c_type where
  "addr_splice_t = Union [u64_t, u64_t]"

definition sqe_op_flags_t :: c_type where
  "sqe_op_flags_t = Union [u32_t, u32_t, u16_t, u32_t, u32_t, u32_t, u32_t, u32_t, u32_t, u32_t, u32_t, u32_t]"

definition sqe_buf_info_t :: c_type where
  "sqe_buf_info_t = Packed (Union [u16_t, u16_t])"

definition sqe_extra_t :: c_type where
  "sqe_extra_t = Struct [sqe_buf_info_t, u16_t, u32_t, CArray 2 u64_t]"

definition sqe_fields :: "c_type list" where
  "sqe_fields = [u8_t, u8_t, u16_t, u32_t, off_addr2_t, addr_splice_t, u32_t, sqe_op_flags_t, u64_t, sqe_extra_t]"

definition cqe_fields :: "c_type list" where
  "cqe_fields = [u64_t, u32_t, u32_t]"

definition sqring_offsets_fields :: "c_type list" where
  "sqring_offsets_fields = [u32_t, u32_t, u32_t, u32_t, u32_t, u32_t, u32_t, u32_t, u64_t]"

definition cqring_offsets_fields :: "c_type list" where
  "cqring_offsets_fields = [u32_t, u32_t, u32_t, u32_t, u32_t, u32_t, u32_t, u32_t, u64_t]"

definition params_fields :: "c_type list" where
  "params_fields = [u32_t, u32_t, u32_t, u32_t, u32_t, u32_t, u32_t, CArray 3 u32_t,
     Struct sqring_offsets_fields, Struct cqring_offsets_fields]"

definition files_update_t :: c_type where
  "files_update_t = Aligned 8 (Struct [u32_t, u32_t, u64_t])"

definition probe_op_fields :: "c_type list" where
  "probe_op_fields = [u8_t, u8_t, u16_t, u32_t]"

text \<open>\<open>__IncompleteArrayField\<close> is an array without elements.\<close>

definition incomplete_array_t :: "c_type \<Rightarrow> c_type" where
  "incomplete_array_t t = Struct [Struct [], CArray 0 t]"

definition probe_fields :: "c_type list" where
  "probe_fields = [u8_t, u8_t, u16_t, CArray 3 u32_t, incomplete_array_t (Struct probe_op_fields)]"

definition timespec_fields :: "c_type list" where
  "timespec_fields = [u64_t, u64_t]"

text \<open>Without \<open>#[repr(C)]\<close> Rust does not promise an order for the fields of \<open>open_how\<close>.\<close>

definition open_how_fields :: "c_type list" where
  "open_how_fields = [u64_t, u64_t, u64_t]"

lemmas layouts = off_addr2_t_def addr_splice_t_def sqe_op_flags_t_def sqe_buf_info_t_def sqe_extra_t_def
  sqe_fields_def cqe_fields_def sqring_offsets_fields_def cqring_offsets_fields_def params_fields_def
  files_update_t_def probe_op_fields_def incomplete_array_t_def probe_fields_def timespec_fields_def

section \<open>Flags\<close>

text \<open>The constants only the kernel's header and the flag types name.\<close>

definition IORING_SETUP_CLAMP :: u32 where "IORING_SETUP_CLAMP = push_bit 4 1"
definition IORING_SETUP_ATTACH_WQ :: u32 where "IORING_SETUP_ATTACH_WQ = push_bit 5 1"
definition IORING_CQE_F_BUFFER :: u32 where "IORING_CQE_F_BUFFER = 1"
definition IORING_CQE_BUFFER_SHIFT :: nat where "IORING_CQE_BUFFER_SHIFT = 16"
definition IORING_CQ_EVENTFD_DISABLED :: u32 where "IORING_CQ_EVENTFD_DISABLED = 1"
definition IORING_FEAT_FAST_POLL :: u32 where "IORING_FEAT_FAST_POLL = push_bit 5 1"

text \<open>The flags of each type of \<open>flags.rs\<close>, and the union of all of them.\<close>

definition SetupFlags :: "u32 list" where
  "SetupFlags = [IORING_SETUP_IOPOLL, IORING_SETUP_SQPOLL, IORING_SETUP_SQ_AFF, IORING_SETUP_CQSIZE]"

definition Features :: "u32 list" where
  "Features = [IORING_FEAT_SINGLE_MMAP, IORING_FEAT_NODROP, IORING_FEAT_SUBMIT_STABLE, IORING_FEAT_RW_CUR_POS,
     IORING_FEAT_CUR_PERSONALITY]"

definition SubmissionFlags :: "u8 list" where
  "SubmissionFlags = [IOSQE_FIXED_FILE, IOSQE_IO_DRAIN, IOSQE_IO_LINK, IOSQE_IO_HARDLINK, IOSQE_ASYNC,
     IOSQE_BUFFER_SELECT]"

definition CompletionFlags :: "u32 list" where
  "CompletionFlags = [Completion_BUFFER, Completion_BUFFER_ID_MASK]"

definition ProbeOpFlags :: "u16 list" where
  "ProbeOpFlags = [IO_URING_OP_SUPPORTED]"

definition TimeoutFlags :: "u32 list" where
  "TimeoutFlags = [Timeout_ABS]"

definition EnterFlags :: "u32 list" where
  "EnterFlags = [Enter_GETEVENTS, Enter_SQ_WAKEUP]"

definition flags_all :: "'a::len word list \<Rightarrow> 'a word" where
  "flags_all fs = foldr (OR) fs 0"

definition independent :: "'a::len word list \<Rightarrow> bool" where
  "independent fs \<longleftrightarrow> sorted_wrt (\<lambda>a b. a AND b = 0) fs \<and> 0 \<notin> set fs"

text \<open>Testing a union of independent flags tells which flags it was made of.\<close>

lemma independent_pair: "independent fs \<Longrightarrow> a \<in> set fs \<Longrightarrow> b \<in> set fs \<Longrightarrow> a \<noteq> b \<Longrightarrow> a AND b = 0"
  unfolding independent_def by (induction fs) (auto simp: and.commute)

lemma flags_all_simps [simp]:
  "flags_all [] AND f = 0" "flags_all (g # gs) AND f = (g AND f) OR (flags_all gs AND f)"
  by (simp_all add: flags_all_def and.commute bit.conj_disj_distrib)

lemma flags_all_member: "f \<in> set gs \<Longrightarrow> flags_all gs AND f = f"
  by (induction gs) (auto simp: bit_eq_iff bit_simps)

lemma flags_all_disjoint: "\<forall>g\<in>set gs. g AND f = 0 \<Longrightarrow> flags_all gs AND f = 0"
  by (induction gs) simp_all

lemma contains_flags_all:
  assumes "independent fs" and "f \<in> set fs" and "set gs \<subseteq> set fs"
  shows "contains (flags_all gs) f \<longleftrightarrow> f \<in> set gs"
proof (cases "f \<in> set gs")
  case True
  then show ?thesis by (simp add: contains_def flags_all_member)
next
  case False
  then have "flags_all gs AND f = 0"
    using assms independent_pair by (intro flags_all_disjoint) blast
  moreover have "f \<noteq> 0" using assms by (auto simp: independent_def)
  ultimately show ?thesis using False by (simp add: contains_def)
qed

lemma flag_values:
  "independent SetupFlags" "independent Features" "independent SubmissionFlags" "independent CompletionFlags"
  "independent ProbeOpFlags" "independent TimeoutFlags" "independent EnterFlags"
  "flags_all Features = Features_all"
  by code_simp+

section \<open>Bytes\<close>

primrec le_bytes :: "nat \<Rightarrow> u64 \<Rightarrow> u8 list" where
  "le_bytes 0 w = []"
| "le_bytes (Suc n) w = ucast w # le_bytes n (drop_bit 8 w)"

primrec of_le :: "u8 list \<Rightarrow> u64" where
  "of_le [] = 0"
| "of_le (b # bs) = ucast b OR push_bit 8 (of_le bs)"

text \<open>The places, offset and size, of the scalars of a type.  A union is a word of its size.\<close>

fun c_leaves :: "nat \<Rightarrow> c_type \<Rightarrow> (nat \<times> nat) list" and
  c_leaves_all :: "nat \<Rightarrow> nat \<Rightarrow> c_type list \<Rightarrow> (nat \<times> nat) list" where
  "c_leaves base (Scalar n) = [(base, n)]"
| "c_leaves base (CArray n t) = concat (map (\<lambda>i. c_leaves (base + i * c_size t) t) [0..<n])"
| "c_leaves base (Struct ts) = c_leaves_all base 0 ts"
| "c_leaves base (Union ts) = [(base, c_size (Union ts))]"
| "c_leaves base (Packed t) = c_leaves base t"
| "c_leaves base (Aligned a t) = c_leaves base t"
| "c_leaves_all base off [] = []"
| "c_leaves_all base off (t # ts) =
     (let o' = round_up off (c_align t) in c_leaves (base + o') t @ c_leaves_all base (o' + c_size t) ts)"

definition place_load :: "u8 list \<Rightarrow> nat \<times> nat \<Rightarrow> u64" where
  "place_load mem = (\<lambda>(o', n). of_le (take n (drop o' mem)))"

definition place_store :: "nat \<times> nat \<Rightarrow> u64 \<Rightarrow> u8 list \<Rightarrow> u8 list" where
  "place_store = (\<lambda>(o', n) v mem. take o' mem @ le_bytes n v @ drop (o' + n) mem)"

definition c_load :: "c_type \<Rightarrow> nat \<Rightarrow> u8 list \<Rightarrow> u64 list" where
  "c_load t base mem = map (place_load mem) (c_leaves base t)"

definition c_store :: "c_type \<Rightarrow> nat \<Rightarrow> u64 list \<Rightarrow> u8 list \<Rightarrow> u8 list" where
  "c_store t base vs mem = fold (\<lambda>(p, v). place_store p v) (zip (c_leaves base t) vs) mem"

lemma length_le_bytes [simp]: "length (le_bytes n w) = n"
  by (induction n arbitrary: w) simp_all

lemma of_le_bytes: "of_le (le_bytes n w) = take_bit (8 * n) w"
proof (induction n arbitrary: w)
  case (Suc n)
  have "ucast (ucast w :: u8) OR push_bit 8 (take_bit (8 * n) (drop_bit 8 w)) = take_bit (8 * Suc n) w"
    by (rule bit_word_eqI) (auto simp: bit_simps)
  with Suc show ?case by simp
qed simp

text \<open>Scalars without a gap between them.\<close>

fun packed_from :: "nat \<Rightarrow> nat list \<Rightarrow> (nat \<times> nat) list" where
  "packed_from off [] = []"
| "packed_from off (n # ns) = (off, n) # packed_from (off + n) ns"

lemma store_packed:
  assumes "length vs = length ns" and "off + sum_list ns \<le> length mem"
  shows "fold (\<lambda>(p, v). place_store p v) (zip (packed_from off ns) vs) mem =
    take off mem @ concat (map2 le_bytes ns vs) @ drop (off + sum_list ns) mem"
  using assms
proof (induction ns arbitrary: off vs mem)
  case (Cons n ns)
  then obtain v vs' where vs: "vs = v # vs'" "length vs' = length ns" by (cases vs) auto
  let ?mem = "place_store (off, n) v mem"
  have mem: "?mem = (take off mem @ le_bytes n v) @ drop (off + n) mem" by (simp add: place_store_def)
  have len: "length (take off mem @ le_bytes n v) = off + n" "length ?mem = length mem"
    using Cons.prems by (simp_all add: mem)
  have "take (off + n) ?mem = take off mem @ le_bytes n v" unfolding mem using len(1) by simp
  moreover have "drop (off + n + sum_list ns) ?mem = drop (off + n + sum_list ns) mem"
    unfolding mem using len(1) by (simp add: add.assoc add.commute)
  ultimately show ?case
    using Cons.IH [of vs' "off + n" ?mem] Cons.prems(2) vs len(2) by (simp add: add.assoc)
qed simp

lemma load_packed:
  assumes "length vs = length ns" and "length pre = off"
  shows "map (place_load (pre @ concat (map2 le_bytes ns vs) @ post)) (packed_from off ns) =
    map2 (\<lambda>n v. take_bit (8 * n) v) ns vs"
  using assms
proof (induction ns arbitrary: off vs pre)
  case (Cons n ns)
  then obtain v vs' where vs: "vs = v # vs'" "length vs' = length ns" by (cases vs) auto
  show ?case
    using Cons.IH [of vs' "pre @ le_bytes n v" "off + n"] Cons.prems(2) vs
    by (simp add: place_load_def of_le_bytes)
qed simp

section \<open>Entries in memory\<close>

definition sqe_t :: c_type where "sqe_t = Struct sqe_fields"
definition cqe_t :: c_type where "cqe_t = Struct cqe_fields"

definition sqe_values :: "sqe \<Rightarrow> u64 list" where
  "sqe_values s =
     [ucast (sqe_opcode s), ucast (sqe_flags s), ucast (sqe_ioprio s), ucast (sqe_fd s), sqe_off_addr2 s,
      sqe_addr s, ucast (sqe_len s), ucast (sqe_op_flags s), sqe_user_data s, ucast (sqe_buf_info s),
      ucast (sqe_personality s), ucast (sqe_splice_fd_in s), sqe_pad0 s, sqe_pad1 s]"

definition sqe_of_values :: "u64 list \<Rightarrow> sqe" where
  "sqe_of_values vs =
     \<lparr>sqe_opcode = ucast (vs ! 0), sqe_flags = ucast (vs ! 1), sqe_ioprio = ucast (vs ! 2), sqe_fd = ucast (vs ! 3),
      sqe_off_addr2 = vs ! 4, sqe_addr = vs ! 5, sqe_len = ucast (vs ! 6), sqe_op_flags = ucast (vs ! 7),
      sqe_user_data = vs ! 8, sqe_buf_info = ucast (vs ! 9), sqe_personality = ucast (vs ! 10),
      sqe_splice_fd_in = ucast (vs ! 11), sqe_pad0 = vs ! 12, sqe_pad1 = vs ! 13\<rparr>"

definition cqe_values :: "cqe \<Rightarrow> u64 list" where
  "cqe_values c = [cqe_user_data c, ucast (cqe_res c), ucast (cqe_flags c)]"

definition cqe_of_values :: "u64 list \<Rightarrow> cqe" where
  "cqe_of_values vs = \<lparr>cqe_user_data = vs ! 0, cqe_res = ucast (vs ! 1), cqe_flags = ucast (vs ! 2)\<rparr>"

text \<open>The \<open>i\<close>-th element of a mapped array.\<close>

definition elem_store :: "c_type \<Rightarrow> nat \<Rightarrow> u64 list \<Rightarrow> u8 list \<Rightarrow> u8 list" where
  "elem_store t i vs mem = c_store t (i * c_size t) vs mem"

definition elem_load :: "c_type \<Rightarrow> u8 list \<Rightarrow> nat \<Rightarrow> u64 list" where
  "elem_load t mem i = c_load t (i * c_size t) mem"

definition mem_sqes :: "u8 list \<Rightarrow> nat \<Rightarrow> sqe list" where
  "mem_sqes mem n = map (\<lambda>i. sqe_of_values (elem_load sqe_t mem i)) [0..<n]"

definition mem_cqes :: "u8 list \<Rightarrow> nat \<Rightarrow> cqe list" where
  "mem_cqes mem n = map (\<lambda>i. cqe_of_values (elem_load cqe_t mem i)) [0..<n]"

text \<open>A type without padding: its scalars follow each other and fill it.\<close>

definition packed_as :: "c_type \<Rightarrow> nat list \<Rightarrow> bool" where
  "packed_as t ns \<longleftrightarrow> (\<forall>base. c_leaves base t = packed_from base ns) \<and> c_size t = sum_list ns"

definition sqe_widths :: "nat list" where "sqe_widths = [1, 1, 2, 4, 8, 8, 4, 4, 8, 2, 2, 4, 8, 8]"
definition cqe_widths :: "nat list" where "cqe_widths = [8, 4, 4]"

lemma c_leaves_shift:
  "c_leaves (a + base) t = map (\<lambda>(o', n). (a + o', n)) (c_leaves base t)"
  "c_leaves_all (a + base) off ts = map (\<lambda>(o', n). (a + o', n)) (c_leaves_all base off ts)"
proof (induction base t and base off ts rule: c_leaves_c_leaves_all.induct)
  case (2 base n t)
  have "c_leaves (a + base + i * c_size t) t = map (\<lambda>(o', n). (a + o', n)) (c_leaves (base + i * c_size t) t)"
    if "i < n" for i using "2.IH" [of i] that by (simp only: add.assoc atLeastLessThan_iff set_upt) simp
  then show ?case
    by (auto simp: map_concat comp_def intro!: arg_cong [of _ _ concat] map_cong)
next
  case (8 base off t ts)
  let ?o = "round_up off (c_align t)"
  have "c_leaves (a + (base + ?o)) t = map (\<lambda>(o', n). (a + o', n)) (c_leaves (base + ?o) t)"
    by (rule "8.IH") simp
  then show ?case using "8.IH"(2) [OF refl] by (simp only: c_leaves_all.simps Let_def map_append add.assoc)
qed (simp_all del: c_size.simps)

lemma packed_from_shift: "packed_from (base + off) ns = map (\<lambda>(o', n). (base + o', n)) (packed_from off ns)"
  by (induction ns arbitrary: off) (simp_all add: add.assoc)

lemma packed_asI:
  assumes "c_leaves 0 t = packed_from 0 ns" and "c_size t = sum_list ns"
  shows "packed_as t ns"
  unfolding packed_as_def
proof (intro conjI allI)
  fix base
  have "c_leaves (base + 0) t = packed_from (base + 0) ns"
    unfolding c_leaves_shift packed_from_shift assms(1) ..
  then show "c_leaves base t = packed_from base ns" by simp
qed (rule assms)

lemma sqe_packed: "packed_as sqe_t sqe_widths"
  by (rule packed_asI) code_simp+

lemma cqe_packed: "packed_as cqe_t cqe_widths"
  by (rule packed_asI) code_simp+

lemma store_elem:
  assumes t: "packed_as t ns" and vs: "length vs = length ns" and mem: "length mem = n * c_size t" and i: "i < n"
  shows "elem_store t i vs mem =
    take (i * c_size t) mem @ concat (map2 le_bytes ns vs) @ drop ((i + 1) * c_size t) mem"
proof -
  have "(i + 1) * c_size t \<le> length mem" unfolding mem using i by (intro mult_le_mono1) simp
  then have "i * c_size t + sum_list ns \<le> length mem" using t by (simp add: packed_as_def add.commute)
  from store_packed [OF vs this] show ?thesis
    using t by (simp add: elem_store_def c_store_def packed_as_def add.commute)
qed

lemma length_concat_le_bytes:
  "length vs = length ns \<Longrightarrow> length (concat (map2 le_bytes ns vs)) = sum_list ns"
  by (induction ns vs rule: list_induct2') auto

lemma load_elem:
  assumes t: "packed_as t ns" and vs: "length vs = length ns"
    and mem: "mem = pre @ concat (map2 le_bytes ns vs) @ post" "length pre = i * c_size t"
  shows "elem_load t mem i = map2 (\<lambda>n v. take_bit (8 * n) v) ns vs"
  using load_packed [OF vs mem(2)] t by (simp add: elem_load_def c_load_def packed_as_def mem(1))

text \<open>An element depends on its own bytes only.\<close>

lemma place_load_cong:
  "take n (drop o' mem) = take n (drop o' mem') \<Longrightarrow> place_load mem (o', n) = place_load mem' (o', n)"
  by (simp add: place_load_def)

lemma load_packed_cong:
  assumes "take (sum_list ns) (drop off mem) = take (sum_list ns) (drop off mem')"
  shows "map (place_load mem) (packed_from off ns) = map (place_load mem') (packed_from off ns)"
  using assms
proof (induction ns arbitrary: off)
  case (Cons n ns)
  let ?a = "drop off mem" and ?b = "drop off mem'"
  have eq: "take (n + sum_list ns) ?a = take (n + sum_list ns) ?b" using Cons.prems by simp
  have "take n ?a = take n ?b" using arg_cong [OF eq, of "take n"] by simp
  moreover have "take (sum_list ns) (drop n ?a) = take (sum_list ns) (drop n ?b)"
    using arg_cong [OF eq, of "drop n"] by (simp add: drop_take)
  ultimately show ?case
    using Cons.IH [of "off + n"] by (simp add: place_load_def add.commute)
qed simp

lemma take_drop_prefix:
  assumes "a + z \<le> b" and "b \<le> length xs"
  shows "take z (drop a (take b xs @ ys)) = take z (drop a xs)"
proof -
  have "z \<le> b - a" and "z \<le> length xs - a" and "a \<le> b" using assms by simp_all
  then show ?thesis by (simp add: drop_take min_def)
qed

lemma drop_suffix: "length xs = b \<Longrightarrow> b \<le> a \<Longrightarrow> drop a (xs @ drop b ys) = drop a ys"
  by simp

lemma load_elem_other:
  assumes t: "packed_as t ns" and vs: "length vs = length ns" and mem: "length mem = n * c_size t"
    and i: "i < n" and j: "j < n" "j \<noteq> i"
  shows "elem_load t (elem_store t i vs mem) j = elem_load t mem j"
proof -
  let ?z = "c_size t" and ?new = "elem_store t i vs mem"
  have z: "?z = sum_list ns" using t by (simp add: packed_as_def)
  have new: "?new = take (i * ?z) mem @ concat (map2 le_bytes ns vs) @ drop ((i + 1) * ?z) mem"
    by (rule store_elem [OF t vs mem i])
  have le: "(i + 1) * ?z \<le> length mem" unfolding mem using i by (intro mult_le_mono1) simp
  have "take ?z (drop (j * ?z) ?new) = take ?z (drop (j * ?z) mem)"
  proof (cases "j < i")
    case True
    then have "(j + 1) * ?z \<le> i * ?z" by (intro mult_le_mono1) simp
    then have "j * ?z + ?z \<le> i * ?z" by simp
    then show ?thesis unfolding new by (rule take_drop_prefix) (use le in simp)
  next
    case False
    then have "i + 1 \<le> j" using j by simp
    then have "(i + 1) * ?z \<le> j * ?z" by (intro mult_le_mono1)
    moreover have "length (take (i * ?z) mem @ concat (map2 le_bytes ns vs)) = (i + 1) * ?z"
      using le by (simp add: length_concat_le_bytes [OF vs] z)
    ultimately have "drop (j * ?z) ?new = drop (j * ?z) mem"
      unfolding new by (simp only: append_assoc [symmetric] drop_suffix)
    then show ?thesis by simp
  qed
  then show ?thesis using t load_packed_cong [of ns "j * ?z" ?new mem]
    by (simp add: elem_load_def c_load_def packed_as_def)
qed

lemma ucast_through_u64:
  fixes x :: "'a::len word"
  assumes "LENGTH('a) \<le> 64" and "LENGTH('a) \<le> k"
  shows "ucast (take_bit k (ucast x :: u64)) = x"
  using assms by (intro bit_word_eqI) (auto simp: bit_simps)

lemma take_bit_u64 [simp]: "take_bit 64 (x :: u64) = x"
  using take_bit_length_eq [of x] by simp

lemma sqe_values_back: "sqe_of_values (map2 (\<lambda>n v. take_bit (8 * n) v) sqe_widths (sqe_values s)) = s"
  by (cases s) (simp add: sqe_of_values_def sqe_values_def sqe_widths_def ucast_through_u64)

lemma cqe_values_back: "cqe_of_values (map2 (\<lambda>n v. take_bit (8 * n) v) cqe_widths (cqe_values c)) = c"
  by (cases c) (simp add: cqe_of_values_def cqe_values_def cqe_widths_def ucast_through_u64)

lemma load_store_elem:
  assumes t: "packed_as t ns" and vs: "length vs = length ns" and mem: "length mem = n * c_size t" and i: "i < n"
  shows "elem_load t (elem_store t i vs mem) i = map2 (\<lambda>n v. take_bit (8 * n) v) ns vs"
proof (rule load_elem [OF t vs store_elem [OF assms]])
  have "i * c_size t \<le> length mem" unfolding mem using i by (intro mult_le_mono1) simp
  then show "length (take (i * c_size t) mem) = i * c_size t" by simp
qed

lemma elems_after_store:
  assumes t: "packed_as t ns" and vs: "length vs = length ns" and mem: "length mem = n * c_size t" and i: "i < n"
    and x: "f (map2 (\<lambda>n v. take_bit (8 * n) v) ns vs) = x"
  shows "map (\<lambda>j. f (elem_load t (elem_store t i vs mem) j)) [0..<n] = (map (\<lambda>j. f (elem_load t mem j)) [0..<n])[i := x]"
proof (rule nth_equalityI)
  fix k assume "k < length (map (\<lambda>j. f (elem_load t (elem_store t i vs mem) j)) [0..<n])"
  then have "k < n" by simp
  then show "map (\<lambda>j. f (elem_load t (elem_store t i vs mem) j)) [0..<n] ! k = (map (\<lambda>j. f (elem_load t mem j)) [0..<n])[i := x] ! k"
    using load_store_elem [OF t vs mem i] load_elem_other [OF t vs mem i, of k] by (cases "k = i") (simp_all add: x)
qed simp

lemma elem_store_length:
  assumes t: "packed_as t ns" and vs: "length vs = length ns" and mem: "length mem = n * c_size t" and i: "i < n"
  shows "length (elem_store t i vs mem) = length mem"
proof -
  have "(i + 1) * c_size t \<le> length mem" unfolding mem using i by (intro mult_le_mono1) simp
  then show ?thesis
    using t by (simp add: store_elem [OF assms] length_concat_le_bytes [OF vs] packed_as_def)
qed

lemma other_layouts:
  "c_offsets 0 params_fields = [0, 4, 8, 12, 16, 20, 24, 28, 40, 80]" "c_size (Struct params_fields) = 120"
  "c_offsets 0 probe_fields = [0, 1, 2, 4, 16]" "c_size (Struct probe_op_fields) = 8" "c_size files_update_t = 16"
  "c_size (Struct open_how_fields) = 24" "c_size (Struct timespec_fields) = 16"
  by code_simp+

section \<open>Properties\<close>



end
