(* ===== verification/Executor_Stats.thy ===== *)
theory Executor_Stats
  imports Runtime Metric_Registry
begin

text \<open>
  The statistics of the executor (\<open>metric!\<close> in \<open>hamerkop/src/executor/runtime.rs\<close>): the sketches
  its model records insertions for, made by \<open>DDSketch::new\<close> with fixed relative errors, and the
  remaining accessors of \<open>runtime.rs\<close>, \<open>handle.rs\<close> and \<open>waker.rs\<close>.
\<close>

section \<open>Accessors\<close>

definition h_buffer_size :: "('f, 'k) ioctx \<Rightarrow> nat" where
  "h_buffer_size ctx = io_bufsize ctx"

text \<open>Spawning boxes the future.\<close>

definition h_spawn :: "'f \<Rightarrow> ('f, 'k) ioctx \<Rightarrow> ('f, 'k) ioctx" where
  "h_spawn future ctx = h_spawn_dyn future ctx"

definition rt_spawn :: "'f \<Rightarrow> ('f, 'k) runtime \<Rightarrow> (nat \<times> ('f, 'k) runtime) outcome" where
  "rt_spawn future rt = rt_spawn_dyn future rt"

text \<open>A linked submitter starts with the context it borrows and no linked entry.\<close>

definition ls_new :: "('f, 'k) ioctx \<Rightarrow> nat \<times> ('f, 'k) ioctx" where
  "ls_new ctx = (0, ctx)"

definition h_submit_linked :: "('f, 'k) ioctx \<Rightarrow> nat \<times> ('f, 'k) ioctx" where
  "h_submit_linked ctx = ls_new ctx"

text \<open>\<open>EmptyWaker\<close>: waking a task through the waker of its poll does nothing; only a completion
  puts a task into the run queue.  The waker carries no data.\<close>

datatype empty_waker = EmptyWaker

definition wake_by_ref :: "empty_waker \<Rightarrow> ('f, 'k) runtime \<Rightarrow> ('f, 'k) runtime" where
  "wake_by_ref w rt = rt"

definition wake_by_value :: "empty_waker \<Rightarrow> ('f, 'k) runtime \<Rightarrow> ('f, 'k) runtime" where
  "wake_by_value w rt = rt"

definition waker_into_raw :: "empty_waker \<Rightarrow> u64" where
  "waker_into_raw w = 0"

definition waker_from_raw :: "u64 \<Rightarrow> empty_waker" where
  "waker_from_raw ptr = EmptyWaker"

lemma waker_raw: "waker_from_raw (waker_into_raw w) = w"
  by (cases w) (simp add: waker_from_raw_def)

text \<open>The trait \<open>Summary\<close> of a sketch, and the accessors of an entry.\<close>

definition summary_count :: "sketch \<Rightarrow> u64" where
  "summary_count s = sk_count s"

definition summary_quantile :: "bool \<Rightarrow> fpu \<Rightarrow> sketch \<Rightarrow> f64 \<Rightarrow> u64 outcome" where
  "summary_quantile dbg fp s q = sk_quantile dbg fp s q"

definition entry_metric :: "'m metric_entry \<Rightarrow> 'm" where
  "entry_metric e = me_metric e"

definition entry_name :: "'m metric_entry \<Rightarrow> string" where
  "entry_name e = me_name e"

definition entry_deref :: "'m metric_entry \<Rightarrow> 'm" where
  "entry_deref e = entry_metric e"

section \<open>The metrics of the executor\<close>

datatype stat_init = SketchOf f64 | GaugeOf gauge

definition executor_metrics :: "stat_init metric_decl list" where
  "executor_metrics =
     [\<lparr>md_attrs = [NameAttr ''hamerkop.rt.received_cqes''], md_name = ''RECV_CQE_DIST'',
        md_init = SketchOf (Fin (1 / 20))\<rparr>,
      \<lparr>md_attrs = [NameAttr ''hamerkop.rt.polled_futures''], md_name = ''POLL_CNT_DIST'',
        md_init = SketchOf (Fin (1 / 100))\<rparr>,
      \<lparr>md_attrs = [NameAttr ''hamerkop.rt.active_tasks''], md_name = ''ACTIVE_TASKS'',
        md_init = GaugeOf ga_new\<rparr>]"

text \<open>The first use of a lazily initialised sketch makes it; then it takes one sample per value.\<close>

definition record_samples :: "bool \<Rightarrow> fpu \<Rightarrow> stat_init \<Rightarrow> nat list \<Rightarrow> sketch outcome" where
  "record_samples dbg fp init values =
     (case init of
        SketchOf alpha \<Rightarrow> and_then (sk_new dbg fp alpha) (\<lambda>s.
          sk_insert_all dbg fp s (map (\<lambda>n. (of_nat n, 1)) values))
      | GaugeOf g \<Rightarrow> Undef)"

section \<open>Sketches for all of \<open>u64\<close>\<close>

lemma ln_gamma_bounds:
  fixes a g :: real
  assumes a: "1 / 1000 \<le> a" "a < 1 / 3" and g: "g = (1 + a) / (1 - a)"
  shows "1 + 2 * a \<le> g" and "g < 2" and "1 / 1000 \<le> ln g" and "ln g < 1"
proof -
  show g1: "1 + 2 * a \<le> g" and g2: "g < 2"
    using a by (simp_all add: g field_simps)
  have "0 < g" using g1 a by simp
  have "ln (1 / g) \<le> 1 / g - 1" using \<open>0 < g\<close> by (intro ln_le_minus_one) simp
  then have "1 - 1 / g \<le> ln g" using \<open>0 < g\<close> by (simp add: ln_div)
  moreover have "1 / g \<le> 1 / (1 + 2 / 1000)"
    using g1 a by (intro divide_left_mono) simp_all
  ultimately show "1 / 1000 \<le> ln g" by simp
  have "ln g \<le> g - 1" using \<open>0 < g\<close> by (rule ln_le_minus_one)
  with g2 show "ln g < 1" by simp
qed

lemma ln_u64_bounds: "2 \<le> ln (real (2 ^ 64 - 1))" "ln (real (2 ^ 64 - 1)) \<le> 64"
proof -
  have "exp (2 :: real) \<le> 9"
    using mult_mono [OF exp_le exp_le] mult_exp_exp [of 1 "1 :: real"] by simp
  then have "exp (2 :: real) \<le> real (2 ^ 64 - 1)" by simp
  then show "2 \<le> ln (real (2 ^ 64 - 1))" by (subst ln_ge_iff) simp_all
  have "ln (real (2 ^ 64 - 1)) \<le> ln (2 ^ 64 :: real)" by (subst ln_le_cancel_iff) simp_all
  also have "\<dots> = real 64 * ln 2" by (rule ln_realpow)
  also have "\<dots> \<le> real 64 * 1" using ln_2_less_1 by (intro mult_left_mono) simp_all
  finally show "ln (real (2 ^ 64 - 1)) \<le> 64" by simp
qed

text \<open>The sketch of \<open>DDSketch::new\<close> in arithmetic without rounding.\<close>

lemma sk_new_exact:
  assumes a: "1 / 1000 \<le> a" "a < 1 / 3"
  obtains s g where "sk_new dbg fp_exact (Fin a) = Done s" and "sk_gamma s = Fin g" "1 < g" "g \<le> 2"
    and "2 \<le> sk_cutoff s" "sk_cutoff s + 1 < length (sk_buckets s)"
proof -
  define g where "g = (1 + a) / (1 - a)"
  note gb = ln_gamma_bounds [OF a g_def]
  let ?N = "real (2 ^ 64 - 1)" and ?l = "ln g"
  define L where "L = ln ?N / ?l"
  define M where "M = ln (g - 1) / ?l"
  have N: "real (unat (- 1 :: u64)) = ?N" by (simp add: unsigned_minus_1_eq_mask mask_eq_exp_minus_1)
  have l: "0 < ?l" using gb(3) by simp
  have g1: "2 / 1000 \<le> g - 1" "g - 1 < 1" using gb(1,2) a by simp_all
  have M0: "M < 0" using g1 l by (simp add: M_def divide_less_0_iff)
  have L2: "2 < L" using ln_u64_bounds(1) gb(4) l unfolding L_def by (simp add: less_divide_eq)
  have "- ln (g - 1) \<le> 499"
  proof -
    have "ln (1 / (g - 1)) \<le> 1 / (g - 1) - 1" using g1 by (intro ln_le_minus_one) simp
    moreover have "1 / (g - 1) \<le> 1 / (2 / 1000)" using g1 by (intro divide_left_mono) simp_all
    ultimately show ?thesis using g1 by (simp add: ln_div)
  qed
  moreover have "499 \<le> 499 * 1000 * ?l" using gb(3) by simp
  ultimately have "- ln (g - 1) \<le> 499 * 1000 * ?l" by (rule order_trans)
  then have M_le: "- M \<le> 499 * 1000" unfolding M_def minus_divide_left using l by (simp only: pos_divide_le_eq)
  have "64 \<le> 64 * 1000 * ?l" using gb(3) by simp
  with ln_u64_bounds(2) have "ln ?N \<le> 64 * 1000 * ?l" by (rule order_trans)
  then have L_le: "L \<le> 64 * 1000" unfolding L_def using l by (simp only: pos_divide_le_eq)
  have "g \<le> ?N * (2 / 1000)" using gb(2) by simp
  also have "\<dots> \<le> ?N * (g - 1)" using g1(1) by (intro mult_left_mono) simp_all
  finally have "?l \<le> ln (?N * (g - 1))" using gb(1) a g1 by (subst ln_le_cancel_iff) simp_all
  also have "\<dots> = ln ?N + ln (g - 1)" using g1 ln_mult [of ?N "g - 1"] by (simp del: right_diff_distrib_numeral)
  finally have "1 \<le> (ln ?N + ln (g - 1)) / ?l" using l by (simp add: le_divide_eq)
  then have LM: "1 \<le> L + M" unfolding L_def M_def by (simp only: add_divide_distrib)
  have ceil: "\<lceil>- M\<rceil> < \<lceil>L\<rceil>" "1 \<le> \<lceil>- M\<rceil>" "3 \<le> \<lceil>L - M\<rceil>" "\<lceil>L - M\<rceil> \<le> 563 * 1000" "\<lceil>- M\<rceil> \<le> 499 * 1000"
    using L2 M0 LM M_le L_le by linarith+
  let ?s = "\<lparr>sk_buckets = replicate (nat \<lceil>- M\<rceil> + nat \<lceil>L - M\<rceil> + 1) 0, sk_gamma = Fin g,
    sk_cutoff = nat \<lceil>- M\<rceil> + 1, sk_count = 0, sk_limit = - 1, sk_min = - 1, sk_max = 0\<rparr>"
  have "sk_with_limit dbg fp_exact (- 1) (Fin a) = Done ?s"
  proof -
    have u: "0 < unat (- 1 :: u64)" by (simp add: unsigned_minus_1_eq_mask mask_eq_exp_minus_1)
    have A: "\<lceil>ln (real (unat (- 1 :: u64))) / ?l\<rceil> = \<lceil>L\<rceil>" and C: "\<lceil>- (ln (g - 1) / ?l)\<rceil> = \<lceil>- M\<rceil>"
      and R: "\<lceil>ln (real (unat (- 1 :: u64))) / ?l - ln (g - 1) / ?l\<rceil> = \<lceil>L - M\<rceil>"
      by (simp_all only: N L_def M_def)
    have "0 < a" "a < 1" "nat \<lceil>- M\<rceil> + nat \<lceil>L - M\<rceil> < 2 ^ 50" using a ceil(4,5) by simp_all linarith
    with sk_with_limit_exact [OF _ _ g_def u A C R ceil(1), of dbg] show ?thesis by (simp only: if_True refl)
  qed
  then have "sk_new dbg fp_exact (Fin a) = Done ?s" by (simp only: sk_new_def)
  moreover have "1 < g" "g \<le> 2" using g1 gb(2) by simp_all
  moreover have "2 \<le> sk_cutoff ?s" "sk_cutoff ?s + 1 < length (sk_buckets ?s)"
    using ceil(2,3) by (simp_all del: replicate_Suc) linarith+
  ultimately show thesis using that [of ?s g] by (simp del: replicate_Suc)
qed

lemma samples_total_ones: "samples_total (map (\<lambda>n. (f n, 1)) xs) = length xs"
  by (simp add: samples_total_def comp_def sum_list_triv)

lemma record_samples_counts:
  assumes "1 / 1000 \<le> a" and "a < 1 / 3"
  shows "\<exists>s. record_samples dbg fp_exact (SketchOf (Fin a)) xs = Done s \<and>
    unat (sk_count s) = min (2 ^ 64 - 1) (length xs)"
proof -
  obtain s g where s: "sk_new dbg fp_exact (Fin a) = Done s"
    and g: "sk_gamma s = Fin g" "1 < g" "g \<le> 2" "2 \<le> sk_cutoff s" "sk_cutoff s + 1 < length (sk_buckets s)"
    using sk_new_exact [OF assms, of dbg] by blast
  then have w: "sk_with_limit dbg fp_exact (- 1) (Fin a) = Done s" by (simp add: sk_new_def)
  from sk_with_limit_covers [OF fp_exact_laws w g] sk_with_limit_fresh [OF w]
  have "\<exists>s'. sk_insert_all dbg fp_exact s (map (\<lambda>n. (of_nat n, 1)) xs) = Done s' \<and>
      unat (sk_count s') = min (2 ^ 64 - 1) (length xs)"
    using sk_insert_all_counts [of dbg fp_exact s "map (\<lambda>n. (of_nat n, 1)) xs"]
    by (auto simp: sk_fresh_def samples_total_ones)
  then show ?thesis by (simp add: record_samples_def s)
qed

section \<open>Properties\<close>

theorem executor_statistics_counted:
  "map entry_name (snd (metric_macro module_path executor_metrics)) =
      [''hamerkop.rt.received_cqes'', ''hamerkop.rt.polled_futures'', ''hamerkop.rt.active_tasks''] \<and>
    (\<exists>s. record_samples dbg fp_exact (entry_metric (snd (metric_macro module_path executor_metrics) ! 0))
        (io_recv_dist (rt_ctx rt)) = Done s \<and>
      unat (summary_count s) = min (2 ^ 64 - 1) (length (io_recv_dist (rt_ctx rt)))) \<and>
    (\<exists>s. record_samples dbg fp_exact (entry_metric (snd (metric_macro module_path executor_metrics) ! 1))
        (rt_polled_dist rt) = Done s \<and>
      unat (summary_count s) = min (2 ^ 64 - 1) (length (rt_polled_dist rt)))"
  using record_samples_counts [of "1 / 20" dbg "io_recv_dist (rt_ctx rt)"]
    record_samples_counts [of "1 / 100" dbg "rt_polled_dist rt"]
  by (simp add: executor_metrics_def metric_macro_def metric_register_def first_name_def entry_name_def
      entry_metric_def summary_count_def)

end
