(* ===== verification/Request.thy ===== *)
theory Request
  imports Runtime
begin

text \<open>
  One request among others: the life of a read from the buffer pool
  (\<open>IOHandle::read\<close>, \<open>CompletionFuture::poll\<close>, \<open>IOContext::process_cqes\<close> and
  \<open>CompletionFuture::drop\<close> of \<open>hamerkop/src/executor\<close>) while the rest of the program keeps
  using the same context.  \<open>meanwhile i\<close> is what may happen to the context without the holder
  of the identifier \<open>i\<close>: other futures are created, polled and dropped, entries are queued, the
  kernel posts completions and the event loop processes them.  It is labelled with the
  completions processed and the tasks woken.
\<close>

section \<open>What may happen meanwhile\<close>

inductive meanwhile ::
  "nat \<Rightarrow> ('f, 'k) ioctx \<Rightarrow> cqe list \<Rightarrow> nat list \<Rightarrow> ('f, 'k) ioctx \<Rightarrow> bool"
  for i and ctx where
  mw_start: "meanwhile i ctx [] [] ctx"
| mw_rest: "meanwhile i ctx cs ws ctx1 \<Longrightarrow> io_completions ctx2 = io_completions ctx1 \<Longrightarrow> io_inv ctx2 \<Longrightarrow>
    meanwhile i ctx cs ws ctx2"
| mw_insert: "meanwhile i ctx cs ws ctx1 \<Longrightarrow> sm_len (io_completions ctx1) < sm_cap \<Longrightarrow>
    sm_insert (io_completions ctx1) e = Done (j, comps) \<Longrightarrow>
    meanwhile i ctx cs ws (ctx1\<lparr>io_completions := comps\<rparr>)"
| mw_set: "meanwhile i ctx cs ws ctx1 \<Longrightarrow> j \<noteq> i \<Longrightarrow>
    meanwhile i ctx cs ws (ctx1\<lparr>io_completions := sm_set (io_completions ctx1) j e\<rparr>)"
| mw_remove: "meanwhile i ctx cs ws ctx1 \<Longrightarrow> j \<noteq> i \<Longrightarrow>
    meanwhile i ctx cs ws (ctx1\<lparr>io_completions := snd (sm_remove (io_completions ctx1) j)\<rparr>)"
| mw_process: "meanwhile i ctx cs ws ctx1 \<Longrightarrow> process_cqes False wake_now q ctx1 = Done (q @ w, ctx2) \<Longrightarrow>
    meanwhile i ctx (cs @ cq_window (io_cq ctx1)) (ws @ w) ctx2"
| mw_retry: "meanwhile i ctx cs ws ctx1 \<Longrightarrow> process_cqes False wake_later () ctx1 = Done ((), ctx2) \<Longrightarrow>
    io_woken ctx2 = io_woken ctx1 @ w \<Longrightarrow>
    meanwhile i ctx (cs @ cq_window (io_cq ctx1)) (ws @ w) ctx2"

text \<open>Some course of events.\<close>

definition elsewhere :: "nat \<Rightarrow> ('f, 'k) ioctx \<Rightarrow> ('f, 'k) ioctx \<Rightarrow> bool" where
  "elsewhere i ctx ctx' \<longleftrightarrow> (\<exists>cs ws. meanwhile i ctx cs ws ctx')"

lemma elsewhereI: "meanwhile i ctx cs ws ctx' \<Longrightarrow> elsewhere i ctx ctx'"
  by (auto simp: elsewhere_def)

lemma meanwhile_trans:
  assumes "meanwhile i ctx cs ws ctx1" and "meanwhile i ctx1 ds vs ctx2"
  shows "meanwhile i ctx (cs @ ds) (ws @ vs) ctx2"
  using assms(2)
proof induction
  case mw_start
  with assms(1) show ?case by simp
next
  case (mw_process ds vs ctx1 q w ctx2)
  with meanwhile.mw_process [OF mw_process.IH mw_process.hyps(2)] show ?case by simp
next
  case (mw_retry ds vs ctx1 ctx2 w)
  with meanwhile.mw_retry [OF mw_retry.IH mw_retry.hyps(2,3)] show ?case by simp
qed (auto intro: meanwhile.intros)

lemma elsewhere_trans: "elsewhere i a b \<Longrightarrow> elsewhere i b c \<Longrightarrow> elsewhere i a c"
  unfolding elsewhere_def by (blast intro: meanwhile_trans)

lemma elsewhere_refl: "elsewhere i ctx ctx"
  by (rule elsewhereI [OF mw_start])

lemma meanwhile_inv:
  assumes "meanwhile i ctx cs ws ctx'" and "io_inv ctx"
  shows "io_inv ctx'"
  using assms
proof induction
  case (mw_insert cs ws ctx1 e j comps)
  then have "sm_inv (io_completions ctx1)" by (simp add: io_inv_def)
  from sm.ins_result(1) [OF this mw_insert.hyps(2,3)] mw_insert show ?case by (simp add: io_inv_def)
next
  case (mw_process cs ws ctx1 q w ctx2)
  with process_cqes_spec [of ctx1 wake_now q] show ?case by auto
next
  case (mw_retry cs ws ctx1 ctx2 w)
  with process_cqes_spec [of ctx1 wake_later "()"] show ?case by auto
qed (simp_all add: io_inv_def sm.put_inv sm.del_inv)

lemma elsewhere_inv: "elsewhere i ctx ctx' \<Longrightarrow> io_inv ctx \<Longrightarrow> io_inv ctx'"
  by (auto simp: elsewhere_def dest: meanwhile_inv)

lemma obind_DoneD: "obind x f = Some (Done y) \<Longrightarrow> \<exists>a. x = Some (Done a) \<and> f a = Some (Done y)"
  by (auto simp: obind_def split: Option.bind_splits outcome.splits)

section \<open>The operations of the executor are such events\<close>

lemma elsewhere_rest:
  "io_completions ctx' = io_completions ctx \<Longrightarrow> io_inv ctx' \<Longrightarrow> elsewhere i ctx ctx'"
  by (rule elsewhereI [OF mw_rest [OF mw_start]])

lemma elsewhere_set: "j \<noteq> i \<Longrightarrow> elsewhere i ctx (ctx\<lparr>io_completions := sm_set (io_completions ctx) j e\<rparr>)"
  by (rule elsewhereI [OF mw_set [OF mw_start]])

lemma elsewhere_new:
  assumes "cf_from_ctx ctx = Done (r, ctx')" and "sm_len (io_completions ctx) < sm_cap"
  shows "elsewhere i ctx ctx'"
  using assms
  by (auto simp: cf_from_ctx_def and_then_Done_iff intro: elsewhereI [OF mw_insert [OF mw_start]])

lemma elsewhere_poll:
  assumes "cf_poll current fut ctx = Done (p, ctx')" and "cf_cqid fut \<noteq> i"
  shows "elsewhere i ctx ctx'"
  using assms by (auto simp: cf_poll_def intro: elsewhere_set split: option.splits)

text \<open>Both closures of \<open>process_cqes\<close> wake the same tasks.\<close>

lemma fold_wake_later:
  "fold (spec_cqe wake_later) cs (C, B, w, ()) = (C', B', w', ()) \<Longrightarrow> w' = w @ wake_list C cs"
proof (induction cs arbitrary: C B w)
  case Nil
  then show ?case by (simp add: wake_list_def)
next
  case (Cons c cs)
  obtain C1 B1 w1 where 1: "spec_cqe wake_later c (C, B, w, ()) = (C1, B1, w1, ())"
    by (metis prod_cases3 old.unit.exhaust)
  have "w1 = w @ wake_list C [c]"
    using 1 by (auto simp: spec_cqe_def wake_list_def wake_later_def live_task_def Let_def
        split: option.splits if_splits)
  moreover have "wake_list C1 cs = wake_list C cs"
    using wake_list_cong [OF spec_cqe_waiters [OF 1]] by simp
  ultimately show ?case using Cons.IH [of C1 B1 w1] Cons.prems 1 by (simp add: wake_list_def)
qed

lemma elsewhere_retry:
  assumes inv: "io_inv ctx" and p: "process_cqes False wake_later () ctx = Done ((), ctx')"
  shows "elsewhere i ctx ctx'"
proof -
  obtain ctx1 where "process_cqes False wake_later () ctx = Done ((), ctx1)"
    "io_tables () ctx1 = fold (spec_cqe wake_later) (cq_window (io_cq ctx)) (io_tables () ctx)"
    using process_cqes_spec [OF inv, of wake_later "()"] by auto
  with p have "fold (spec_cqe wake_later) (cq_window (io_cq ctx))
      (sm_get (io_completions ctx), sm_get (io_buffers ctx), io_woken ctx, ())
      = (sm_get (io_completions ctx'), sm_get (io_buffers ctx'), io_woken ctx', ())"
    by (simp add: io_tables_def)
  from mw_retry [OF mw_start p fold_wake_later [OF this]] show ?thesis by (rule elsewhereI)
qed

lemma process_now:
  assumes inv: "io_inv ctx"
  shows "\<exists>ctx'. process_cqes False wake_now q ctx =
      Done (q @ wake_list (sm_get (io_completions ctx)) (cq_window (io_cq ctx)), ctx') \<and> io_inv ctx'"
proof -
  obtain q' ctx' where 1: "process_cqes False wake_now q ctx = Done (q', ctx')" "io_inv ctx'"
    "io_tables q' ctx' = fold (spec_cqe wake_now) (cq_window (io_cq ctx)) (io_tables q ctx)"
    using process_cqes_spec [OF inv, of wake_now q] by auto
  from 1(3) have "q' = q @ wake_list (sm_get (io_completions ctx)) (cq_window (io_cq ctx))"
    using fold_wake_now by (metis io_tables_def)
  with 1(1,2) show ?thesis by simp
qed

lemma elsewhere_process:
  assumes inv: "io_inv ctx" and p: "process_cqes False wake_now q ctx = Done (q', ctx')"
  shows "elsewhere i ctx ctx'"
  using process_now [OF inv, of q] p mw_process [OF mw_start, of q ctx] by (auto intro: elsewhereI)

lemma elsewhere_submit:
  assumes "io_submit False enter w ctx = Some (Done (x, ctx'))" and "kernel_keeps_cq enter" and "io_inv ctx"
  shows "elsewhere i ctx ctx'"
proof -
  have "\<not> dbg \<longrightarrow> kernel_keeps_cq enter \<longrightarrow> io_inv ctx \<longrightarrow> (\<forall>x ctx'. y = Done (x, ctx') \<longrightarrow> elsewhere i ctx ctx')"
    if "io_submit dbg enter w ctx = Some y"
    for dbg enter w and ctx :: "('f, 'k) ioctx" and y
  proof (induction rule: io_submit.raw_induct [OF _ that])
    case (1 f dbg enter w ctx y)
    show ?case
    proof (intro impI)
      assume dbg: "\<not> dbg" and k: "kernel_keeps_cq enter" and inv: "io_inv ctx"
      obtain r u where s: "sq_submit_and_wait False enter w (io_ring ctx) = Done (r, u)" "cq_inv (u_cq u)"
        using submit_keeps_cq [OF k, of "io_ring ctx" w] inv by (auto simp: io_inv_def)
      then have inv1: "io_inv (ctx\<lparr>io_ring := u\<rparr>)" using inv by (simp add: io_inv_def)
      then have e1: "elsewhere i ctx (ctx\<lparr>io_ring := u\<rparr>)" by (intro elsewhere_rest) simp_all
      show "\<forall>x ctx'. y = Done (x, ctx') \<longrightarrow> elsewhere i ctx ctx'"
      proof (cases "must_retry r")
        case False
        with 1(2) dbg s e1 show ?thesis by auto
      next
        case True
        obtain ctx1 where p: "process_cqes False wake_later () (ctx\<lparr>io_ring := u\<rparr>) = Done ((), ctx1)" "io_inv ctx1"
          using process_cqes_spec [OF inv1, of wake_later "()"] by auto
        have "f False enter w ctx1 = Some y" using 1(2) dbg s(1) True p(1) by simp
        from 1(1) [OF this] k p elsewhere_trans [OF e1 elsewhere_retry [OF inv1 p(1)]]
        show ?thesis by (blast intro: elsewhere_trans)
      qed
    qed
  qed
  from this [OF assms(1)] assms(2,3) show ?thesis by simp
qed

text \<open>Writing an entry, waiting for a free slot with submissions in between.\<close>

lemma elsewhere_ring:
  assumes "io_inv ctx" and "u_cq u = io_cq ctx"
  shows "elsewhere i ctx (ctx\<lparr>io_ring := u\<rparr>)"
  using assms by (intro elsewhere_rest) (simp_all add: io_inv_def)

lemma elsewhere_cancel:
  assumes "cancel_loop False enter j ctx = Some (Done ctx')" and "kernel_keeps_cq enter" and "io_inv ctx"
  shows "elsewhere i ctx ctx'"
proof -
  have "\<not> dbg \<longrightarrow> kernel_keeps_cq enter \<longrightarrow> io_inv ctx \<longrightarrow> (\<forall>ctx'. y = Done ctx' \<longrightarrow> elsewhere i ctx ctx')"
    if "cancel_loop dbg enter j ctx = Some y" for dbg enter j and ctx :: "('f, 'k) ioctx" and y
  proof (induction rule: cancel_loop.raw_induct [OF _ that])
    case (1 f dbg enter j ctx y)
    show ?case
    proof (intro impI allI)
      fix ctx'
      assume dbg: "\<not> dbg" and k: "kernel_keeps_cq enter" and inv: "io_inv ctx" and y: "y = Done ctx'"
      obtain r where m: "sq_modify False 0 (cancel_entry j) (io_sq ctx) = Done r"
        using 1(2) dbg y by (cases "sq_modify False 0 (cancel_entry j) (io_sq ctx)") auto
      show "elsewhere i ctx ctx'"
      proof (cases r)
        case (Some sq)
        with 1(2) dbg m y inv show ?thesis by (auto intro: elsewhere_ring)
      next
        case None
        with 1(2) dbg m y obtain x ctx1 where s: "io_submit False enter 0 ctx = Some (Done (x, ctx1))"
          "f False enter j ctx1 = Some y"
          by (auto simp: obind_def split: Option.bind_splits outcome.splits)
        note e1 = elsewhere_submit [OF s(1) k inv, of i]
        from 1(1) [OF s(2)] k y elsewhere_inv [OF e1 inv] e1 show ?thesis by (blast intro: elsewhere_trans)
      qed
    qed
  qed
  from this [OF assms(1)] assms(2,3) show ?thesis by simp
qed

lemma elsewhere_wait:
  assumes "drop_loop False enter j ctx = Some (Done ctx')" and "kernel_keeps_cq enter" and "io_inv ctx"
  shows "elsewhere i ctx ctx'"
proof -
  have "\<not> dbg \<longrightarrow> kernel_keeps_cq enter \<longrightarrow> io_inv ctx \<longrightarrow> (\<forall>ctx'. y = Done ctx' \<longrightarrow> elsewhere i ctx ctx')"
    if "drop_loop dbg enter j ctx = Some y" for dbg enter j and ctx :: "('f, 'k) ioctx" and y
  proof (induction rule: drop_loop.raw_induct [OF _ that])
    case (1 f dbg enter j ctx y)
    show ?case
    proof (intro impI allI)
      fix ctx'
      assume dbg: "\<not> dbg" and k: "kernel_keeps_cq enter" and inv: "io_inv ctx" and y: "y = Done ctx'"
      obtain x ctx1 ce where s: "io_submit False enter 1 ctx = Some (Done (x, ctx1))"
        "ctx' = ctx1 \<or> f False enter j ctx1 = Some y"
        using 1(2) dbg y by (auto simp: obind_def split: Option.bind_splits outcome.splits option.splits if_splits)
      note e1 = elsewhere_submit [OF s(1) k inv, of i]
      from s(2) 1(1) [of False enter j ctx1] k y elsewhere_inv [OF e1 inv] e1 show "elsewhere i ctx ctx'"
        by (blast intro: elsewhere_trans)
    qed
  qed
  from this [OF assms(1)] assms(2,3) show ?thesis by simp
qed

lemma elsewhere_drop:
  assumes "cf_drop False enter fut ctx = Some (Done ctx')" and "cf_cqid fut \<noteq> i"
    and k: "kernel_keeps_cq enter" and inv: "io_inv ctx"
  shows "elsewhere i ctx ctx'"
proof -
  obtain ce where e: "sm_get (io_completions ctx) (cf_cqid fut) = Some ce"
    using assms(1) by (auto simp: cf_drop_def split: option.splits)
  let ?C = "io_completions ctx"
  consider (ready) "ctx' = ctx\<lparr>io_completions := snd (sm_remove ?C (cf_cqid fut))\<rparr>"
    | (dead) t where "ctx' = ctx\<lparr>io_completions := sm_set ?C (cf_cqid fut) (ce\<lparr>cev_task := t\<rparr>)\<rparr>"
    | (waits) ctx1 where "cancel_loop False enter (cf_cqid fut)
          (ctx\<lparr>io_completions := sm_set ?C (cf_cqid fut) (ce\<lparr>cev_task := NO_TASK_SENTINEL\<rparr>)\<rparr>) = Some (Done ctx1)"
        "drop_loop False enter (cf_cqid fut) ctx1 = Some (Done ctx')"
    using assms(1) e
    by (auto simp: cf_drop_def obind_def split: if_splits Option.bind_splits outcome.splits)
  then show ?thesis
  proof cases
    case ready
    with assms(2) show ?thesis by (auto intro: elsewhereI [OF mw_remove [OF mw_start]])
  next
    case (dead t)
    with assms(2) show ?thesis by (auto intro: elsewhere_set)
  next
    case (waits ctx1)
    note e1 = elsewhere_set [OF assms(2), of ctx "ce\<lparr>cev_task := NO_TASK_SENTINEL\<rparr>"]
    note e2 = elsewhere_cancel [OF waits(1) k elsewhere_inv [OF e1 inv], of i]
    note e3 = elsewhere_trans [OF e1 e2]
    from elsewhere_trans [OF e3 elsewhere_wait [OF waits(2) k elsewhere_inv [OF e3 inv]]] show ?thesis .
  qed
qed

lemma elsewhere_slot:
  assumes "slot_loop False enter n g ctx = Some (Done (x, ctx'))" and "kernel_keeps_cq enter" and "io_inv ctx"
  shows "elsewhere i ctx ctx'"
proof -
  have "\<not> dbg \<longrightarrow> kernel_keeps_cq enter \<longrightarrow> io_inv ctx \<longrightarrow> (\<forall>x ctx'. y = Done (x, ctx') \<longrightarrow> elsewhere i ctx ctx')"
    if "slot_loop dbg enter n g ctx = Some y" for dbg enter n g and ctx :: "('f, 'k) ioctx" and y
  proof (induction rule: slot_loop.raw_induct [OF _ that])
    case (1 f dbg enter n g ctx y)
    show ?case
    proof (intro impI allI)
      fix x ctx'
      assume dbg: "\<not> dbg" and k: "kernel_keeps_cq enter" and inv: "io_inv ctx" and y: "y = Done (x, ctx')"
      obtain r where m: "sq_modify False n g (io_sq ctx) = Done r"
        using 1(2) dbg y by (cases "sq_modify False n g (io_sq ctx)") auto
      show "elsewhere i ctx ctx'"
      proof (cases r)
        case (Some sq)
        with 1(2) dbg m y inv show ?thesis by (auto intro: elsewhere_ring)
      next
        case None
        with 1(2) dbg m y obtain x1 ctx1 where s: "io_submit False enter 0 ctx = Some (Done (x1, ctx1))"
          "ctx' = ctx1 \<or> f False enter n g ctx1 = Some y"
          by (auto simp: obind_def split: Option.bind_splits outcome.splits sum.splits)
        note e1 = elsewhere_submit [OF s(1) k inv, of i]
        from s(2) 1(1) [of False enter n g ctx1] k y elsewhere_inv [OF e1 inv] e1 show ?thesis
          by (blast intro: elsewhere_trans)
      qed
    qed
  qed
  from this [OF assms(1)] assms(2,3) show ?thesis by simp
qed

text \<open>A whole operation of another task: its entry, its future and its submission.\<close>

lemma elsewhere_entry:
  assumes "ls_submit_sqe False enter g cnt ctx = Some (Done (r, cnt', ctx'))"
    and "kernel_keeps_cq enter" and "io_inv ctx" and "sm_len (io_completions ctx) < sm_cap"
  shows "elsewhere i ctx ctx'"
proof -
  obtain fut j x ctx1 where 1: "cf_from_ctx ctx = Done ((fut, j), ctx1)"
    "slot_loop False enter cnt (link_entry j g) ctx1 = Some (Done (x, ctx'))"
    using assms(1) by (cases "cf_from_ctx ctx")
      (auto simp: ls_submit_sqe_def obind_def split: Option.bind_splits outcome.splits if_splits sum.splits)
  note e1 = elsewhere_new [OF 1(1) assms(4), of i]
  from elsewhere_trans [OF e1 elsewhere_slot [OF 1(2) assms(2) elsewhere_inv [OF e1 assms(3)]]] show ?thesis .
qed

lemma elsewhere_publish:
  assumes "ls_submit False cnt ctx = Done ctx'" and "io_inv ctx"
  shows "elsewhere i ctx ctx'"
  using assms
  by (intro elsewhere_rest)
    (auto simp: ls_submit_def and_then_Done_iff io_inv_def split: if_splits option.splits)

text \<open>The event loop between two polls.\<close>

lemma elsewhere_gather:
  assumes "rt_gather rt = Done rt'" and "rt_inv rt"
  shows "elsewhere i (rt_ctx rt) (rt_ctx rt')"
proof -
  have "rt_ctx rt' = rt_ctx rt" if "rt_setup fs rt = Done rt'" for fs and rt rt' :: "('a, 'b) runtime"
    using that by (induction fs arbitrary: rt) (auto simp: and_then_Done_iff)
  with assms have "rt_ctx rt' = (rt_ctx rt)\<lparr>io_created := [], io_woken := []\<rparr>"
    by (auto simp: rt_gather_def and_then_Done_iff)
  with assms(2) show ?thesis by (intro elsewhere_rest) (simp_all add: rt_inv_def io_inv_def)
qed

lemma elsewhere_idle:
  assumes "rt_wait False enter rt = Some (Done (r, rt'))" and k: "kernel_keeps_cq enter" and "rt_inv rt"
  shows "elsewhere i (rt_ctx rt) (rt_ctx rt')"
proof -
  have inv: "io_inv (rt_ctx rt)" using assms(3) by (simp add: rt_inv_def)
  have z: "elsewhere i ctx (ctx\<lparr>io_queued := 0\<rparr>)" if "io_inv ctx" for ctx :: "('a, 'b) ioctx"
    using that by (intro elsewhere_rest) (simp_all add: io_inv_def)
  consider "rt_ctx rt' = (rt_ctx rt)\<lparr>io_queued := 0\<rparr>"
    | w x ctx1 where "io_submit False enter w (rt_ctx rt) = Some (Done (x, ctx1))"
        "rt_ctx rt' = ctx1 \<or> rt_ctx rt' = ctx1\<lparr>io_queued := 0\<rparr>"
    using assms(1)
    by (auto simp: rt_wait_def Let_def obind_def split: if_splits Option.bind_splits outcome.splits sum.splits)
  then show ?thesis
  proof cases
    case 1
    with z [OF inv] show ?thesis by simp
  next
    case (2 w x ctx1)
    note e1 = elsewhere_submit [OF 2(1) k inv, of i]
    from 2(2) e1 elsewhere_trans [OF e1 z [OF elsewhere_inv [OF e1 inv]]] show ?thesis by auto
  qed
qed

text \<open>So a whole turn is one, when the polls of the tasks in it are.\<close>

definition polls_elsewhere :: "nat \<Rightarrow> ('f, 'k) task_poll \<Rightarrow> bool" where
  "polls_elsewhere i poll \<longleftrightarrow>
     (\<forall>tid f ctx r f' ctx'. io_inv ctx \<longrightarrow> poll tid f ctx = Some (r, f', ctx') \<longrightarrow> elsewhere i ctx ctx')"

lemma elsewhere_tasks:
  assumes "polls_elsewhere i poll" and "run_tasks poll ids rt = Some (res, rt')" and "io_inv (rt_ctx rt)"
  shows "elsewhere i (rt_ctx rt) (rt_ctx rt')"
  using assms(2,3)
proof (induction ids arbitrary: rt)
  case Nil
  then show ?case by (simp add: elsewhere_refl)
next
  case (Cons tid ids)
  show ?case
  proof (cases "sm_get (rt_futures rt) tid")
    case None
    with Cons show ?thesis by simp
  next
    case (Some f)
    obtain r f' ctx where p: "poll tid f (rt_ctx rt) = Some (r, f', ctx)"
      using Cons.prems(1) Some by (auto split: option.splits)
    have e: "elsewhere i (rt_ctx rt) ctx"
      using assms(1) Cons.prems(2) p unfolding polls_elsewhere_def by blast
    note io = elsewhere_inv [OF e Cons.prems(2)]
    have rest: "elsewhere i (rt_ctx rt) (rt_ctx rt')"
      if "run_tasks poll ids rt1 = Some (res, rt')" "rt_ctx rt1 = ctx" for rt1
      using Cons.IH [OF that(1)] that(2) io elsewhere_trans [OF e] by simp
    show ?thesis
    proof (cases r)
      case PPanic
      with Cons.prems(1) Some p e show ?thesis by (auto simp: Let_def)
    qed (use Cons.prems(1) Some p in \<open>auto simp: Let_def elim!: rest\<close>)
  qed
qed

lemma elsewhere_turn:
  assumes p: "polls_elsewhere i poll" and k: "kernel_keeps_cq enter" and inv: "rt_inv rt"
    and room: "sm_len (rt_futures rt) + length (io_created (rt_ctx rt)) \<le> sm_cap"
    and t: "rt_turn False enter h poll rt = Some (Done (res, rt'))"
  shows "elsewhere i (rt_ctx rt) (rt_ctx rt')"
proof -
  obtain rt0 where 0: "rt_gather rt = Done rt0" "rt_inv rt0" using rt_gather_spec [OF inv room] by blast
  note e0 = elsewhere_gather [OF 0(1) inv, of i]
  obtain r1 rt1 where 1: "rt_wait False enter rt0 = Some (Done (r1, rt1))"
    using obind_DoneD [OF t [unfolded rt_turn_def 0(1) obind_simps]] by auto
  note e1 = elsewhere_trans [OF e0 elsewhere_idle [OF 1 k 0(2)]]
  have io1: "io_inv (rt_ctx rt1)" using elsewhere_inv [OF e1] inv by (simp add: rt_inv_def)
  show ?thesis
  proof (cases r1)
    case TOk
    obtain q ctx2 where 2: "process_cqes False wake_now (rt_runqueue rt1) (rt_ctx rt1) = Done (q, ctx2)" "io_inv ctx2"
      using process_now [OF io1] by blast
    note e2 = elsewhere_trans [OF e1 elsewhere_process [OF io1 2(1)]]
    obtain queue where 3: "dedup_partial h q = Done queue" using dedup_queue [of h q] by auto
    have "run_tasks poll queue (rt1\<lparr>rt_ctx := ctx2, rt_runqueue := [],
        rt_polled_dist := rt_polled_dist rt1 @ [length queue]\<rparr>) = Some (res, rt')"
      using t 0(1) 1 TOk 2(1) 3 by (simp add: rt_turn_def rt_process_cqes_def)
    from elsewhere_tasks [OF p this] e2 2(2) show ?thesis by (auto intro: elsewhere_trans)
  qed (use t 0(1) 1 e1 in \<open>auto simp: rt_turn_def\<close>)
qed

section \<open>A waiting request is neither lost nor stolen\<close>

lemma replies_append: "replies i (cs @ ds) = replies i cs @ replies i ds"
  by (simp add: replies_def)

lemma wake_list_wakes:
  assumes "C i = Some e" and "live_task (cev_task e)" and "replies i cs \<noteq> []"
  shows "cev_task e \<in> set (wake_list C cs)"
proof -
  obtain c where "c \<in> set cs" "unat (ce_user_data c) = i"
    using assms(3) by (auto simp: replies_def filter_empty_conv)
  with assms(1,2) show ?thesis by (force simp: wake_list_def)
qed

text \<open>The event of the request after the completions \<open>cs\<close>.\<close>

definition answered :: "nat \<Rightarrow> cqe list \<Rightarrow> completion_event \<Rightarrow> completion_event" where
  "answered i cs e = (if replies i cs = [] then e else e\<lparr>cev_cqe := Some (last (replies i cs))\<rparr>)"

lemma answered_append: "answered i ds (answered i cs e) = answered i (cs @ ds) e"
  by (simp add: answered_def replies_append)

lemma answered_task [simp]: "cev_task (answered i cs e) = cev_task e"
  by (simp add: answered_def)

lemma process_answers:
  assumes inv: "io_inv ctx" and e: "sm_get (io_completions ctx) i = Some e" and t: "live_task (cev_task e)"
    and p: "process_cqes False qf q ctx = Done (q', ctx')"
  shows "sm_get (io_completions ctx') i = Some (answered i (cq_window (io_cq ctx)) e)"
proof -
  obtain ctx1 where "process_cqes False qf q ctx = Done (q', ctx1)"
    "io_tables q' ctx1 = fold (spec_cqe qf) (cq_window (io_cq ctx)) (io_tables q ctx)"
    using process_cqes_spec [OF inv, of qf q] p by auto
  with p have "fold (spec_cqe qf) (cq_window (io_cq ctx))
      (sm_get (io_completions ctx), sm_get (io_buffers ctx), io_woken ctx, q)
      = (sm_get (io_completions ctx'), sm_get (io_buffers ctx'), io_woken ctx', q')"
    by (simp add: io_tables_def)
  from fold_delivers [OF e _ this] t show ?thesis by (simp add: answered_def live_task_def)
qed

text \<open>Whichever closure runs, the tasks it wakes are the ones of \<open>wake_list\<close>.\<close>

lemma process_wakes:
  assumes inv: "io_inv ctx"
  shows "process_cqes False wake_now q ctx = Done (q @ w, ctx') \<Longrightarrow>
      w = wake_list (sm_get (io_completions ctx)) (cq_window (io_cq ctx))"
    and "process_cqes False wake_later () ctx = Done ((), ctx') \<Longrightarrow> io_woken ctx' = io_woken ctx @ w \<Longrightarrow>
      w = wake_list (sm_get (io_completions ctx)) (cq_window (io_cq ctx))"
proof -
  assume "process_cqes False wake_now q ctx = Done (q @ w, ctx')"
  with process_now [OF inv, of q] show "w = wake_list (sm_get (io_completions ctx)) (cq_window (io_cq ctx))"
    by auto
next
  assume p: "process_cqes False wake_later () ctx = Done ((), ctx')" and w: "io_woken ctx' = io_woken ctx @ w"
  with process_cqes_spec [OF inv, of wake_later "()"]
  have "fold (spec_cqe wake_later) (cq_window (io_cq ctx))
      (sm_get (io_completions ctx), sm_get (io_buffers ctx), io_woken ctx, ())
      = (sm_get (io_completions ctx'), sm_get (io_buffers ctx'), io_woken ctx', ())"
    by (auto simp: io_tables_def)
  from fold_wake_later [OF this] w show "w = wake_list (sm_get (io_completions ctx)) (cq_window (io_cq ctx))"
    by simp
qed

lemma waiting_kept:
  assumes "meanwhile i ctx cs ws ctx'" and inv: "io_inv ctx"
    and e: "sm_get (io_completions ctx) i = Some e" and t: "live_task (cev_task e)"
  shows "sm_get (io_completions ctx') i = Some (answered i cs e) \<and>
    (replies i cs \<noteq> [] \<longrightarrow> cev_task e \<in> set ws)"
  using assms(1)
proof induction
  case mw_start
  with e show ?case by (simp add: answered_def replies_def)
next
  case (mw_rest cs ws ctx1 ctx2)
  then show ?case by simp
next
  case (mw_insert cs ws ctx1 x j comps)
  have "sm_inv (io_completions ctx1)" using meanwhile_inv [OF mw_insert.hyps(1) inv] by (simp add: io_inv_def)
  from sm.ins_keeps(2) [OF this mw_insert.hyps(2,3)] mw_insert.IH show ?case by auto
next
  case (mw_set cs ws ctx1 j x)
  have "sm_inv (io_completions ctx1)" using meanwhile_inv [OF mw_set.hyps(1) inv] by (simp add: io_inv_def)
  from sm.put_get [OF this, of j x] mw_set show ?case by auto
next
  case (mw_remove cs ws ctx1 j)
  have "sm_inv (io_completions ctx1)" using meanwhile_inv [OF mw_remove.hyps(1) inv] by (simp add: io_inv_def)
  from sm.del_get [OF this, of j] mw_remove show ?case by auto
next
  case (mw_process cs ws ctx1 q w ctx2)
  note inv1 = meanwhile_inv [OF mw_process.hyps(1) inv]
  let ?ds = "cq_window (io_cq ctx1)"
  have e1: "sm_get (io_completions ctx1) i = Some (answered i cs e)" using mw_process.IH by simp
  from process_answers [OF inv1 e1 _ mw_process.hyps(2)] t
  have "sm_get (io_completions ctx2) i = Some (answered i (cs @ ?ds) e)" by (simp add: answered_append)
  moreover have "replies i ?ds \<noteq> [] \<longrightarrow> cev_task e \<in> set w"
    using wake_list_wakes [of "sm_get (io_completions ctx1)", OF e1] process_wakes(1) [OF inv1 mw_process.hyps(2)] t by simp
  ultimately show ?case using mw_process.IH by (auto simp: replies_append)
next
  case (mw_retry cs ws ctx1 ctx2 w)
  note inv1 = meanwhile_inv [OF mw_retry.hyps(1) inv]
  let ?ds = "cq_window (io_cq ctx1)"
  have e1: "sm_get (io_completions ctx1) i = Some (answered i cs e)" using mw_retry.IH by simp
  from process_answers [OF inv1 e1 _ mw_retry.hyps(2)] t
  have "sm_get (io_completions ctx2) i = Some (answered i (cs @ ?ds) e)" by (simp add: answered_append)
  moreover have "replies i ?ds \<noteq> [] \<longrightarrow> cev_task e \<in> set w"
    using wake_list_wakes [of "sm_get (io_completions ctx1)", OF e1] process_wakes(2) [OF inv1 mw_retry.hyps(2,3)] t by simp
  ultimately show ?case using mw_retry.IH by (auto simp: replies_append)
qed

section \<open>A read from the pool\<close>

text \<open>The entry of a read, whatever the slot held before.\<close>

definition pool_read :: "32 word \<Rightarrow> nat \<Rightarrow> nat \<Rightarrow> sqe" where
  "pool_read fd size' cqid = (prep_sqe 0 (new_Read (Fd fd) 0 (of_nat size')) sqe_zeroed)
     \<lparr>sqe_flags := IOSQE_BUFFER_SELECT OR IOSQE_ASYNC, sqe_buf_info := 0, sqe_user_data := of_nat cqid\<rparr>"

lemma unlink_read:
  "unlink_last [link_entry cqid (read_entry fd size') old] = [pool_read fd size' cqid]"
proof -
  have "(((IOSQE_BUFFER_SELECT OR IOSQE_ASYNC) OR IOSQE_IO_LINK) AND NOT IOSQE_IO_LINK :: u8)
      = IOSQE_BUFFER_SELECT OR IOSQE_ASYNC"
    by (simp add: IOSQE_BUFFER_SELECT_def IOSQE_ASYNC_def IOSQE_IO_LINK_def)
  then show ?thesis
    by (simp add: unlink_last_def link_entry_def read_entry_def pool_read_def new_Read_def
        prep_Read_def ev_simps ev_clear_def sqe_zeroed_def Let_def)
qed

lemma h_read_spec:
  assumes inv: "sub_inv ctx" and room: "sm_len (io_completions ctx) < sm_cap"
    and free: "sq_in_flight (io_sq ctx) < sq_size (io_sq ctx)"
  shows "\<exists>fut ctx'. h_read False enter fd size' ctx = Some (Done (ReadPool (Inr fut), ctx')) \<and> sub_inv ctx' \<and>
    sm_get (io_completions ctx) (cf_cqid fut) = None \<and>
    sm_get (io_completions ctx') = (sm_get (io_completions ctx))(cf_cqid fut \<mapsto> completion_event_new NO_TASK_SENTINEL) \<and>
    sq_window (io_sq ctx') = sq_window (io_sq ctx) @ [pool_read fd size' (cf_cqid fut)] \<and>
    io_buffers ctx' = io_buffers ctx \<and> io_queued ctx' = io_queued ctx + 1"
proof -
  let ?f = "read_entry fd size'"
  obtain fut ctx1 where 1: "ls_submit_sqe False enter ?f 0 ctx = Some (Done (Inr fut, 1, ctx1))"
    "sub_inv ctx1" "sq_settled (io_sq ctx) (io_sq ctx1)"
    "sm_get (io_completions ctx) (cf_cqid fut) = None" "io_buffers ctx1 = io_buffers ctx"
    "sm_get (io_completions ctx1) =
      (sm_get (io_completions ctx))(cf_cqid fut \<mapsto> completion_event_new NO_TASK_SENTINEL)"
    "io_queued ctx1 = io_queued ctx"
    "\<forall>c. 0 < c \<and> c \<le> sq_size (io_sq ctx) \<longrightarrow> sq_prepared (io_sq ctx1) c =
       (sq_prepared (io_sq ctx) c)[0 := link_entry (cf_cqid fut) ?f (sq_prepared (io_sq ctx) c ! 0)]"
    using ls_submit_sqe_spec [OF inv room, of 0 False enter ?f] free by auto
  have "length (sq_prepared (io_sq ctx) 1) = 1" by (simp add: sq_prepared_def ring_free_def)
  then have "sq_prepared (io_sq ctx1) 1 = [link_entry (cf_cqid fut) ?f (sq_prepared (io_sq ctx) 1 ! 0)]"
    using 1(8) free by (cases "sq_prepared (io_sq ctx) 1") auto
  then have last: "unlink_last (sq_prepared (io_sq ctx1) 1) = [pool_read fd size' (cf_cqid fut)]"
    by (simp add: unlink_read)
  obtain ctx' where 2: "ls_submit False 1 ctx1 = Done ctx'" "sub_inv ctx'" "io_queued ctx' = io_queued ctx + 1"
    "sq_window (io_sq ctx') = sq_window (io_sq ctx) @ [pool_read fd size' (cf_cqid fut)]"
    "io_completions ctx' = io_completions ctx1" "io_buffers ctx' = io_buffers ctx"
    using ls_submit_spec [OF 1(2), of 1] 1(3,5,7) free last by (auto simp: sq_settled_def)
  have "h_read False enter fd size' ctx = Some (Done (ReadPool (Inr fut), ctx'))"
    using 1(1) 2(1) by (simp add: h_read_def h_single_def ls_read_def)
  with 1 2 show ?thesis by auto
qed

text \<open>A poll of the future of a read.\<close>

lemma poll_waits:
  assumes inv: "io_inv ctx" and e: "sm_get (io_completions ctx) (cf_cqid fut) = Some e" and c: "cev_cqe e = None"
  shows "\<exists>ctx'. io_poll dbg enter (Some t) (ReadPool (Inr fut)) ctx = Some (Done (Pending, ctx')) \<and> io_inv ctx' \<and>
    sm_get (io_completions ctx') = (sm_get (io_completions ctx))(cf_cqid fut \<mapsto> e\<lparr>cev_task := t\<rparr>) \<and>
    ctx' = ctx\<lparr>io_completions := io_completions ctx'\<rparr>"
  using cf_poll_spec [OF inv e, of t] c by (auto simp: await_cf_def)

lemma poll_fails:
  assumes inv: "io_inv ctx" and e: "sm_get (io_completions ctx) (cf_cqid fut) = Some ce"
    and c: "cev_cqe ce = Some c" and err: "ce_result c = Inl er"
  shows "\<exists>ctx'. io_poll dbg enter (Some t) (ReadPool (Inr fut)) ctx = Some (Done (Ready (ReadDone (Inl er)), ctx')) \<and>
    sm_get (io_completions ctx') = (sm_get (io_completions ctx))(cf_cqid fut := None) \<and>
    io_buffers ctx' = io_buffers ctx"
  using await_cf_ready [OF inv e c, of dbg enter t] err by (auto simp: read_finish_def)

text \<open>What a poll of the read must answer after the completions \<open>cs\<close>.\<close>

definition read_answers :: "cqe list \<Rightarrow> ('f, 'k) ioctx \<Rightarrow> nat \<Rightarrow> (io_result poll \<times> ('f, 'k) ioctx) outcome option \<Rightarrow> bool" where
  "read_answers cs ctx i r \<longleftrightarrow>
     (if replies i cs = [] then (\<exists>ctx'. r = Some (Done (Pending, ctx')))
      else let c = last (replies i cs) in
        (case ce_result c of
           Inl e \<Rightarrow> \<exists>ctx'. r = Some (Done (Ready (ReadDone (Inl e)), ctx')) \<and>
             sm_get (io_completions ctx') i = None \<and> io_buffers ctx' = io_buffers ctx
         | Inr n \<Rightarrow> \<forall>b buf. ce_buf_id c = Some b \<longrightarrow> sm_get (io_buffers ctx) (unat b) = Some buf \<longrightarrow>
             (\<exists>ctx'. r = Some (Done (Ready (ReadDone (Inr (fv_set_len buf n))), ctx')) \<and>
               sm_get (io_completions ctx') i = None \<and>
               sm_get (io_buffers ctx') = (sm_get (io_buffers ctx))(unat b := None))))"

lemma poll_answers:
  assumes inv: "io_inv ctx" and e: "sm_get (io_completions ctx) (cf_cqid fut) = Some (answered (cf_cqid fut) cs e)"
    and c: "cev_cqe e = None"
  shows "read_answers cs ctx (cf_cqid fut) (io_poll dbg enter (Some t) (ReadPool (Inr fut)) ctx)"
proof (cases "replies (cf_cqid fut) cs = []")
  case True
  with poll_waits [OF inv e, of dbg enter t] c show ?thesis by (auto simp: read_answers_def answered_def)
next
  case False
  let ?c = "last (replies (cf_cqid fut) cs)"
  have a: "cev_cqe (answered (cf_cqid fut) cs e) = Some ?c" using False by (simp add: answered_def)
  show ?thesis
  proof (cases "ce_result ?c")
    case (Inl er)
    with poll_fails [OF inv e a, of er dbg enter t] False show ?thesis by (auto simp: read_answers_def Let_def)
  next
    case (Inr n)
    have "\<exists>ctx'. io_poll dbg enter (Some t) (ReadPool (Inr fut)) ctx =
          Some (Done (Ready (ReadDone (Inr (fv_set_len buf n))), ctx')) \<and>
        sm_get (io_completions ctx') (cf_cqid fut) = None \<and>
        sm_get (io_buffers ctx') = (sm_get (io_buffers ctx))(unat b := None)"
      if "ce_buf_id ?c = Some b" "sm_get (io_buffers ctx) (unat b) = Some buf" for b buf
      using read_takes_buffer [OF inv e a Inr that, of dbg enter t] by auto
    with False Inr show ?thesis unfolding read_answers_def Let_def by (simp only: if_False sum.case) blast
  qed
qed

section \<open>Property\<close>

text \<open>C3: The life of a read from the buffer pool: it queues one entry that names its future and
  is pending; whatever other tasks, the kernel and the event loop do to the context meanwhile,
  it stays pending until a completion of its identifier is processed, which wakes its task,
  and then answers with the error or the selected buffer, at the length the kernel reports and
  taken out of the pool, and gives its identifier back.\<close>

theorem read_request_served:
  assumes inv: "sub_inv ctx" and room: "sm_len (io_completions ctx) < sm_cap"
    and free: "sq_in_flight (io_sq ctx) < sq_size (io_sq ctx)" and t: "live_task t"
  shows "\<exists>fut ctx1 ctx2. h_read False enter fd size' ctx = Some (Done (ReadPool (Inr fut), ctx1)) \<and>
    sq_window (io_sq ctx1) = sq_window (io_sq ctx) @ [pool_read fd size' (cf_cqid fut)] \<and>
    io_poll False enter (Some t) (ReadPool (Inr fut)) ctx1 = Some (Done (Pending, ctx2)) \<and> io_inv ctx2 \<and>
    (\<forall>cs ws ctx3. meanwhile (cf_cqid fut) ctx2 cs ws ctx3 \<longrightarrow>
      (replies (cf_cqid fut) cs \<noteq> [] \<longrightarrow> t \<in> set ws) \<and>
      read_answers cs ctx3 (cf_cqid fut) (io_poll False enter (Some t) (ReadPool (Inr fut)) ctx3))"
proof -
  obtain fut ctx1 where 1: "h_read False enter fd size' ctx = Some (Done (ReadPool (Inr fut), ctx1))" "sub_inv ctx1"
    "sm_get (io_completions ctx1) (cf_cqid fut) = Some (completion_event_new NO_TASK_SENTINEL)"
    "sq_window (io_sq ctx1) = sq_window (io_sq ctx) @ [pool_read fd size' (cf_cqid fut)]"
    using h_read_spec [OF inv room free, of enter fd size'] by auto
  let ?i = "cf_cqid fut" and ?e = "(completion_event_new NO_TASK_SENTINEL)\<lparr>cev_task := t\<rparr>"
  have io1: "io_inv ctx1" using 1(2) by (simp add: sub_inv_def)
  have new: "cev_cqe (completion_event_new NO_TASK_SENTINEL) = None" by (simp add: completion_event_new_def)
  obtain ctx2 where 2: "io_poll False enter (Some t) (ReadPool (Inr fut)) ctx1 = Some (Done (Pending, ctx2))"
    "io_inv ctx2" "sm_get (io_completions ctx2) ?i = Some ?e"
    using poll_waits [OF io1 1(3) new, of False enter t] by auto
  have "(replies ?i cs \<noteq> [] \<longrightarrow> t \<in> set ws) \<and>
      read_answers cs ctx3 ?i (io_poll False enter (Some t) (ReadPool (Inr fut)) ctx3)"
    if m: "meanwhile ?i ctx2 cs ws ctx3" for cs ws ctx3
    using waiting_kept [OF m 2(2,3)] t poll_answers [OF meanwhile_inv [OF m 2(2)], of fut cs ?e] new by simp
  with 1(1,4) 2(1,2) show ?thesis by blast
qed

lemma h_read_id:
  assumes "h_read dbg enter fd size' ctx = Some (Done (ReadPool (Inr fut), ctx'))"
  shows "\<exists>comps. sm_insert (io_completions ctx) (completion_event_new NO_TASK_SENTINEL) = Done (cf_cqid fut, comps)"
  using assms
  by (cases "sm_insert (io_completions ctx) (completion_event_new NO_TASK_SENTINEL)")
    (auto simp: h_read_def h_single_def ls_read_def ls_submit_sqe_def cf_from_ctx_def obind_def
      split: Option.bind_splits outcome.splits if_splits sum.splits)

lemma fresh_index_small:
  assumes "sm_insert sm_new v = Done (i, s)"
  shows "i < 1024"
proof -
  have "sm_room (sm_new :: 'a slotmap)" by (rule sm_room_size [OF sm_inv_new]) (simp add: sm_new_def sm_cap_def SENTINEL_def SLABSIZE_def USIZE_MAX_def)
  from sm_insert_slabs [OF sm_inv_new this assms] show ?thesis by (simp add: sm_new_def SLABSIZE_def)
qed

lemma pool_demo:
  fixes buf :: "u8 fixedvec"
  shows "\<exists>(b :: u16) bufs. sm_inv bufs \<and> sm_get bufs (unat b) = Some buf"
proof -
  have "sm_len (sm_new :: u8 fixedvec slotmap) < sm_cap"
    by (simp add: sm_len_def sm_new_def sm_cap_def SENTINEL_def SLABSIZE_def USIZE_MAX_def)
  then obtain k bufs where 1: "sm_insert sm_new buf = Done (k, bufs)" "sm_inv bufs" "sm_get bufs = (sm_get sm_new)(k \<mapsto> buf)"
    using sm.ins_law [OF sm_inv_new, of buf] by auto
  have "unat (of_nat k :: u16) = k" using fresh_index_small [OF 1(1)] by (simp add: unat_of_nat)
  with 1(2,3) show ?thesis by (intro exI [of _ "of_nat k"] exI [of _ bufs]) simp
qed

theorem read_request_served_witness:
  "\<exists>fut ctx1 ctx2 c ws ctx3 ctx4. h_read False eager_kernel 3 4 ctx_demo = Some (Done (ReadPool (Inr fut), ctx1)) \<and>
    io_poll False eager_kernel (Some 7) (ReadPool (Inr fut)) ctx1 = Some (Done (Pending, ctx2)) \<and>
    meanwhile (cf_cqid fut) ctx2 [c] ws ctx3 \<and> 7 \<in> set ws \<and>
    io_poll False eager_kernel (Some 7) (ReadPool (Inr fut)) ctx3 =
      Some (Done (Ready (ReadDone (Inr (fv_set_len (fv_with_capacity 4) 3))), ctx4))"
proof -
  have pre: "sm_len (io_completions ctx_demo) < sm_cap" "sq_in_flight (io_sq ctx_demo) < sq_size (io_sq ctx_demo)"
    "live_task 7"
    using ctx_demo_sub by (simp_all add: live_task_def NO_TASK_SENTINEL_def DEAD_TASK_SENTINEL_def USIZE_MAX_def)
  obtain fut ctx1 ctx2 where 1: "h_read False eager_kernel 3 4 ctx_demo = Some (Done (ReadPool (Inr fut), ctx1))"
    "io_poll False eager_kernel (Some 7) (ReadPool (Inr fut)) ctx1 = Some (Done (Pending, ctx2))" "io_inv ctx2"
    and m: "\<And>cs ws ctx3. meanwhile (cf_cqid fut) ctx2 cs ws ctx3 \<Longrightarrow>
      (replies (cf_cqid fut) cs \<noteq> [] \<longrightarrow> 7 \<in> set ws) \<and>
      read_answers cs ctx3 (cf_cqid fut) (io_poll False eager_kernel (Some 7) (ReadPool (Inr fut)) ctx3)"
    using read_request_served [OF ctx_demo_sub(1) pre, of eager_kernel 3 4] by blast
  obtain b :: u16 and bufs where b: "sm_inv bufs" "sm_get bufs (unat b) = Some (fv_with_capacity 4 :: u8 fixedvec)"
    using pool_demo [of "fv_with_capacity 4"] by blast
  let ?i = "cf_cqid fut"
  let ?c = "cqe_demo (of_nat ?i) 3 (push_bit 16 (ucast b) OR Completion_BUFFER)"
  let ?u = "(io_ring ctx2)\<lparr>u_cq := cq_kernel_post ?c cq_demo\<rparr>"
  let ?ctx = "ctx2\<lparr>io_ring := ?u\<rparr>" and ?w = "wake_list (sm_get (io_completions ctx2)) [?c]"
  have cq: "cq_inv (cq_kernel_post ?c cq_demo)" "cq_window (cq_kernel_post ?c cq_demo) = [?c]"
    using cq_post_window [OF cq_demo_inv(1), of ?c] cq_demo_inv
    by (auto simp: length_0_conv [symmetric] simp del: length_0_conv)
  have "?i < 1024" using h_read_id [OF 1(1)] fresh_index_small by (auto simp: ctx_demo_def)
  then have "unat (of_nat ?i :: u64) = ?i" by (simp add: unat_of_nat)
  then have r: "replies ?i [?c] = [?c]" by (simp add: replies_def cqe_demo_def ce_user_data_def)
  have inv: "io_inv ?ctx" using 1(3) cq(1) by (simp add: io_inv_def)
  have start: "meanwhile ?i ctx2 [] [] ?ctx" using mw_rest [OF mw_start _ inv] by simp
  obtain ctx3 where 3: "process_cqes False wake_now [] ?ctx = Done ([] @ ?w, ctx3)" "io_inv ctx3"
    using process_now [OF inv, of "[]"] cq(2) by auto
  have "meanwhile ?i ctx2 [?c] ?w ctx3" using mw_process [OF start 3(1)] cq(2) by simp
  then have s: "meanwhile ?i ctx2 [?c] ?w (ctx3\<lparr>io_buffers := bufs\<rparr>)"
    using 3(2) b(1) by (elim mw_rest) (simp_all add: io_inv_def)
  have "ce_result ?c = Inr 3" "ce_buf_id ?c = Some b"
    by (simp_all add: ce_result_def ce_buf_id_def cqe_demo_def resultify_def buf_id_encode)
  then obtain ctx4 where "io_poll False eager_kernel (Some 7) (ReadPool (Inr fut)) (ctx3\<lparr>io_buffers := bufs\<rparr>) =
      Some (Done (Ready (ReadDone (Inr (fv_set_len (fv_with_capacity 4) 3))), ctx4))"
    using m [OF s] r b(2) by (auto simp: read_answers_def)
  moreover have "7 \<in> set ?w" using m [OF s] r by simp
  ultimately show ?thesis using 1(1,2) s by meson
qed

end
