(* ===== verification/Borrow.thy ===== *)
theory Borrow
  imports Request Runtime_Run
begin

text \<open>
  The \<open>Rc<RefCell<IOContext>>\<close> that the runtime, its handles, the linked submitters and the
  completion futures share (\<open>hamerkop/src/executor/handle.rs\<close>, \<open>future.rs\<close>, \<open>runtime.rs\<close>).  A
  cell is borrowed while a \<open>RefMut\<close> of it is alive, and borrowing it again panics.  The operations
  of the other theories work on the context itself; here each takes and releases the borrows of
  the code, and is compared with them.  The shared borrows of the code end in the expression that
  makes them.
\<close>

section \<open>Cells\<close>

record 'a refcell =
  rc_value :: 'a
  rc_borrowed :: bool

definition rc_new :: "'a \<Rightarrow> 'a refcell" where
  "rc_new v = \<lparr>rc_value = v, rc_borrowed = False\<rparr>"

definition rc_borrow_mut :: "'a refcell \<Rightarrow> 'a refcell outcome" where
  "rc_borrow_mut c = (if rc_borrowed c then Panic else Done (c\<lparr>rc_borrowed := True\<rparr>))"

definition rc_release :: "'a refcell \<Rightarrow> 'a refcell" where
  "rc_release c = c\<lparr>rc_borrowed := False\<rparr>"

definition rc_borrow :: "'a refcell \<Rightarrow> 'a outcome" where
  "rc_borrow c = (if rc_borrowed c then Panic else Done (rc_value c))"

text \<open>A computation on the value through a borrow that is held already.\<close>

definition in_cell :: "('a \<Rightarrow> ('b \<times> 'a) outcome option) \<Rightarrow> 'a refcell \<Rightarrow> ('b \<times> 'a refcell) outcome option" where
  "in_cell f c = obind (f (rc_value c)) (\<lambda>(x, v). Some (Done (x, c\<lparr>rc_value := v\<rparr>)))"

text \<open>A borrow for the time of one computation.\<close>

definition rc_within :: "('a \<Rightarrow> ('b \<times> 'a) outcome option) \<Rightarrow> 'a refcell \<Rightarrow> ('b \<times> 'a refcell) outcome option" where
  "rc_within f c =
     obind (Some (rc_borrow_mut c)) (\<lambda>c. obind (in_cell f c) (\<lambda>(x, c). Some (Done (x, rc_release c))))"

type_synonym ('f, 'k) ctx_cell = "('f, 'k) ioctx refcell"

section \<open>Completion futures\<close>

definition bf_new :: "('f, 'k) ctx_cell \<Rightarrow> ((cfut \<times> nat) \<times> ('f, 'k) ctx_cell) outcome option" where
  "bf_new = rc_within (\<lambda>ctx. Some (cf_from_ctx ctx))"

definition bf_poll :: "nat option \<Rightarrow> cfut \<Rightarrow> ('f, 'k) ctx_cell \<Rightarrow> (cqe poll \<times> ('f, 'k) ctx_cell) outcome option" where
  "bf_poll current fut = rc_within (\<lambda>ctx. Some (cf_poll current fut ctx))"

definition bf_drop :: "bool \<Rightarrow> 'k enter \<Rightarrow> cfut \<Rightarrow> ('f, 'k) ctx_cell \<Rightarrow> (unit \<times> ('f, 'k) ctx_cell) outcome option" where
  "bf_drop dbg enter fut =
     rc_within (\<lambda>ctx. obind (cf_drop dbg enter fut ctx) (\<lambda>ctx. Some (Done ((), ctx))))"

section \<open>Linked submitters\<close>

text \<open>A submitter holds the borrow from \<open>new\<close> to \<open>submit\<close> or to its end.\<close>

definition bl_new :: "('f, 'k) ctx_cell \<Rightarrow> (nat \<times> ('f, 'k) ctx_cell) outcome" where
  "bl_new c = and_then (rc_borrow_mut c) (\<lambda>c. Done (0, c))"

text \<open>The early return on an error of \<open>submit\<close> drops the future.\<close>

definition bl_submit_sqe ::
  "bool \<Rightarrow> 'k enter \<Rightarrow> (sqe \<Rightarrow> sqe) \<Rightarrow> nat \<Rightarrow> ('f, 'k) ctx_cell \<Rightarrow>
    ((io_error + cfut) \<times> nat \<times> ('f, 'k) ctx_cell) outcome option" where
  "bl_submit_sqe dbg enter func cnt c =
     obind (in_cell (\<lambda>ctx. Some (cf_from_ctx ctx)) c) (\<lambda>((fut, cqid), c).
       if cnt = sq_queue_size (io_sq (rc_value c)) then Some Panic
       else obind (in_cell (slot_loop dbg enter cnt (link_entry cqid func)) c) (\<lambda>(res, c).
              case res of
                Inl e \<Rightarrow> obind (bf_drop dbg enter fut c) (\<lambda>(_, c). Some (Done (Inl e, cnt, c)))
              | Inr _ \<Rightarrow> Some (Done (Inr fut, cnt + 1, c))))"

definition bl_read ::
  "bool \<Rightarrow> 'k enter \<Rightarrow> 32 word \<Rightarrow> nat \<Rightarrow> nat \<Rightarrow> ('f, 'k) ctx_cell \<Rightarrow>
    (io_future \<times> nat \<times> ('f, 'k) ctx_cell) outcome option" where
  "bl_read dbg enter fd size' cnt c =
     obind (bl_submit_sqe dbg enter (read_entry fd size') cnt c) (\<lambda>(cqe, cnt, c). Some (Done (ReadPool cqe, cnt, c)))"

definition bl_read_buf ::
  "bool \<Rightarrow> 'k enter \<Rightarrow> 32 word \<Rightarrow> u64 \<Rightarrow> nat \<Rightarrow> nat \<Rightarrow> ('f, 'k) ctx_cell \<Rightarrow>
    (io_future \<times> nat \<times> ('f, 'k) ctx_cell) outcome option" where
  "bl_read_buf dbg enter fd ptr len cnt c =
     (if len \<le> 2 ^ 32 - 1
      then obind (bl_submit_sqe dbg enter (prep_sqe 0 (new_Read (Fd fd) ptr (of_nat len))) cnt c) (\<lambda>(cqe, cnt, c).
             Some (Done (Transfer (map_sum id (cf_set_must_wait True) cqe), cnt, c)))
      else Some Panic)"

definition bl_write_buf ::
  "bool \<Rightarrow> 'k enter \<Rightarrow> 32 word \<Rightarrow> u64 \<Rightarrow> nat \<Rightarrow> nat \<Rightarrow> ('f, 'k) ctx_cell \<Rightarrow>
    (io_future \<times> nat \<times> ('f, 'k) ctx_cell) outcome option" where
  "bl_write_buf dbg enter fd ptr len cnt c =
     (if len \<le> 2 ^ 32 - 1
      then obind (bl_submit_sqe dbg enter (prep_sqe 0 (new_Write (Fd fd) ptr (of_nat len))) cnt c) (\<lambda>(cqe, cnt, c).
             Some (Done (Transfer (map_sum id (cf_set_must_wait True) cqe), cnt, c)))
      else Some Panic)"

definition bl_provide_buffer ::
  "bool \<Rightarrow> 'k enter \<Rightarrow> u64 \<Rightarrow> u8 fixedvec \<Rightarrow> nat \<Rightarrow> ('f, 'k) ctx_cell \<Rightarrow>
    (io_future \<times> nat \<times> ('f, 'k) ctx_cell) outcome option" where
  "bl_provide_buffer dbg enter ptr buffer cnt c =
     (if io_bufsize (rc_value c) \<noteq> fv_capacity buffer then Some Panic
      else let len = fv_len buffer
      in if sm_len (io_buffers (rc_value c)) \<ge> 2 ^ 16 - 1
         then Some (Done (Provide len (Inl (pe_new (Custom Other ''No more room for buffers'') buffer)), cnt, c))
         else obind (Some (fv_clear False buffer)) (\<lambda>(_, buffer).
           let buflen = fv_capacity buffer
           in obind (Some (sm_insert (io_buffers (rc_value c)) buffer)) (\<lambda>(bufid, bufs).
              obind (bl_submit_sqe dbg enter (provide_entry ptr buflen bufid) cnt
                  (c\<lparr>rc_value := (rc_value c)\<lparr>io_buffers := bufs\<rparr>\<rparr>)) (\<lambda>(res, cnt, c).
                let ctx = rc_value c in
                case res of
                  Inr fut \<Rightarrow>
                    obind (Some (sm_index (io_completions ctx) (cf_cqid fut))) (\<lambda>ce.
                      Some (Done (Provide len (Inr (fut, bufid)), cnt, c\<lparr>rc_value := ctx\<lparr>io_completions :=
                        sm_set (io_completions ctx) (cf_cqid fut) (ce\<lparr>cev_action := DeleteBufferOnError bufid\<rparr>)\<rparr>\<rparr>)))
                | Inl e \<Rightarrow>
                    (case sm_remove (io_buffers ctx) bufid of
                       (None, _) \<Rightarrow> Some Panic
                     | (Some buffer, bufs) \<Rightarrow>
                         Some (Done (Provide len (Inl (pe_new e buffer)), cnt,
                           c\<lparr>rc_value := ctx\<lparr>io_buffers := bufs\<rparr>\<rparr>)))))))"

definition bl_submit :: "bool \<Rightarrow> nat \<Rightarrow> ('f, 'k) ctx_cell \<Rightarrow> ('f, 'k) ctx_cell outcome" where
  "bl_submit dbg cnt c =
     and_then (ls_submit dbg cnt (rc_value c)) (\<lambda>ctx. Done (rc_release (c\<lparr>rc_value := ctx\<rparr>)))"

section \<open>Handles\<close>

definition bh_single ::
  "bool \<Rightarrow> (nat \<Rightarrow> ('f, 'k) ctx_cell \<Rightarrow> ('a \<times> nat \<times> ('f, 'k) ctx_cell) outcome option) \<Rightarrow> ('f, 'k) ctx_cell \<Rightarrow>
    ('a \<times> ('f, 'k) ctx_cell) outcome option" where
  "bh_single dbg op c =
     obind (Some (bl_new c)) (\<lambda>(cnt, c). obind (op cnt c) (\<lambda>(fut, cnt, c).
       obind (Some (bl_submit dbg cnt c)) (\<lambda>c. Some (Done (fut, c)))))"

definition bh_submit_sqe ::
  "bool \<Rightarrow> 'k enter \<Rightarrow> (sqe \<Rightarrow> sqe) \<Rightarrow> ('f, 'k) ctx_cell \<Rightarrow> (io_future \<times> ('f, 'k) ctx_cell) outcome option" where
  "bh_submit_sqe dbg enter func c =
     obind (bh_single dbg (bl_submit_sqe dbg enter func) c) (\<lambda>(fut, c). Some (Done (Raw fut, c)))"

definition bh_provide_buffer ::
  "bool \<Rightarrow> 'k enter \<Rightarrow> u64 \<Rightarrow> u8 fixedvec \<Rightarrow> ('f, 'k) ctx_cell \<Rightarrow> (io_future \<times> ('f, 'k) ctx_cell) outcome option" where
  "bh_provide_buffer dbg enter ptr buffer c =
     obind (Some (rc_borrow c)) (\<lambda>ctx.
       if io_bufsize ctx \<noteq> fv_capacity buffer then Some Panic
       else bh_single dbg (bl_provide_buffer dbg enter ptr buffer) c)"

definition bh_spawn_dyn :: "'f \<Rightarrow> ('f, 'k) ctx_cell \<Rightarrow> (unit \<times> ('f, 'k) ctx_cell) outcome option" where
  "bh_spawn_dyn future = rc_within (\<lambda>ctx. Some (Done ((), h_spawn_dyn future ctx)))"

definition bh_buffer_count :: "('f, 'k) ctx_cell \<Rightarrow> nat outcome" where
  "bh_buffer_count c = and_then (rc_borrow c) (\<lambda>ctx. Done (h_buffer_count ctx))"

section \<open>Futures of operations\<close>

definition bawait ::
  "bool \<Rightarrow> 'k enter \<Rightarrow> nat option \<Rightarrow> cfut \<Rightarrow> ('f, 'k) ctx_cell \<Rightarrow> (cqe poll \<times> ('f, 'k) ctx_cell) outcome option" where
  "bawait dbg enter current fut c =
     obind (bf_poll current fut c) (\<lambda>(p, c).
       case p of
         Pending \<Rightarrow> Some (Done (Pending, c))
       | Ready e \<Rightarrow> obind (bf_drop dbg enter fut c) (\<lambda>(_, c). Some (Done (Ready e, c))))"

text \<open>\<open>handle.ctx.borrow_mut()\<close> is evaluated only on the path that takes a buffer.\<close>

definition bread_finish :: "cqe \<Rightarrow> ('f, 'k) ctx_cell \<Rightarrow> ((io_error + u8 fixedvec) \<times> ('f, 'k) ctx_cell) outcome option" where
  "bread_finish e c =
     (case ce_result e of
        Inl er \<Rightarrow> Some (Done (Inl er, c))
      | Inr n \<Rightarrow>
          (case ce_buf_id e of
             None \<Rightarrow> Some Panic
           | Some bufid \<Rightarrow> rc_within (\<lambda>ctx.
               case sm_remove (io_buffers ctx) (unat bufid) of
                 (None, _) \<Rightarrow> Some Panic
               | (Some buf, bufs) \<Rightarrow> Some (Done (Inr (fv_set_len buf n), ctx\<lparr>io_buffers := bufs\<rparr>))) c))"

definition bprovide_finish ::
  "nat \<Rightarrow> nat \<Rightarrow> cqe \<Rightarrow> ('f, 'k) ctx_cell \<Rightarrow> ((provide_error + unit) \<times> ('f, 'k) ctx_cell) outcome option" where
  "bprovide_finish len bufid e c =
     (case ce_result e of
        Inr _ \<Rightarrow> Some (Done (Inr (), c))
      | Inl er \<Rightarrow> rc_within (\<lambda>ctx.
          case sm_remove (io_buffers ctx) bufid of
            (None, _) \<Rightarrow> Some Panic
          | (Some buffer, bufs) \<Rightarrow>
              Some (Done (Inl (pe_new er (fv_set_len buffer len)), ctx\<lparr>io_buffers := bufs\<rparr>))) c)"

fun bio_poll ::
  "bool \<Rightarrow> 'k enter \<Rightarrow> nat option \<Rightarrow> io_future \<Rightarrow> ('f, 'k) ctx_cell \<Rightarrow> (io_result poll \<times> ('f, 'k) ctx_cell) outcome option" where
  "bio_poll dbg enter current (Raw (Inl e)) c = Some (Done (Ready (RawDone (Inl e)), c))"
| "bio_poll dbg enter current (Raw (Inr fut)) c =
     obind (bawait dbg enter current fut c) (\<lambda>(p, c). case p of
         Pending \<Rightarrow> Some (Done (Pending, c))
       | Ready e \<Rightarrow> Some (Done (Ready (RawDone (Inr e)), c)))"
| "bio_poll dbg enter current (ReadPool (Inl e)) c = Some (Done (Ready (ReadDone (Inl e)), c))"
| "bio_poll dbg enter current (ReadPool (Inr fut)) c =
     obind (bawait dbg enter current fut c) (\<lambda>(p, c). case p of
         Pending \<Rightarrow> Some (Done (Pending, c))
       | Ready e \<Rightarrow> obind (bread_finish e c) (\<lambda>(r, c). Some (Done (Ready (ReadDone r), c))))"
| "bio_poll dbg enter current (Transfer (Inl e)) c = Some (Done (Ready (TransferDone (Inl e)), c))"
| "bio_poll dbg enter current (Transfer (Inr fut)) c =
     obind (bawait dbg enter current fut c) (\<lambda>(p, c). case p of
         Pending \<Rightarrow> Some (Done (Pending, c))
       | Ready e \<Rightarrow> Some (Done (Ready (TransferDone (ce_result e)), c)))"
| "bio_poll dbg enter current (Provide len (Inl e)) c = Some (Done (Ready (ProvideDone (Inl e)), c))"
| "bio_poll dbg enter current (Provide len (Inr (fut, bufid))) c =
     obind (bawait dbg enter current fut c) (\<lambda>(p, c). case p of
         Pending \<Rightarrow> Some (Done (Pending, c))
       | Ready e \<Rightarrow> obind (bprovide_finish len bufid e c) (\<lambda>(r, c). Some (Done (Ready (ProvideDone r), c))))"

section \<open>Borrows that do not overlap\<close>

lemma obind_assoc: "obind (obind x f) g = obind x (\<lambda>a. obind (f a) g)"
  by (auto simp: obind_def split: Option.bind_splits outcome.splits)

lemma obind_cong: "x = y \<Longrightarrow> (\<And>a. y = Some (Done a) \<Longrightarrow> f a = g a) \<Longrightarrow> obind x f = obind y g"
  by (auto simp: obind_def split: Option.bind_splits outcome.splits)

lemma obind_case_prod: "obind (case p of (a, b) \<Rightarrow> f a b) g = (case p of (a, b) \<Rightarrow> obind (f a b) g)"
  by (simp split: prod.split)

lemma rc_ext: "rc_borrowed c = b \<Longrightarrow> c\<lparr>rc_borrowed := b\<rparr> = c"
  by (cases c) simp

text \<open>A borrow for one computation changes nothing when the cell is free, and panics otherwise.\<close>

lemma within_free: "\<not> rc_borrowed c \<Longrightarrow> rc_within f c = in_cell f c"
  by (cases c) (auto simp: rc_within_def in_cell_def rc_borrow_mut_def rc_release_def obind_assoc intro!: obind_cong)

lemma within_held: "rc_borrowed c \<Longrightarrow> rc_within f c = Some Panic"
  by (simp add: rc_within_def rc_borrow_mut_def)

lemma in_cell_flag: "in_cell f c = Some (Done (x, c')) \<Longrightarrow> rc_borrowed c' = rc_borrowed c"
  by (auto simp: in_cell_def obind_def split: Option.bind_splits outcome.splits)

text \<open>Three components: a submitter carries its count.\<close>

definition at_cell :: "'a refcell \<Rightarrow> ('b \<times> nat \<times> 'a) outcome option \<Rightarrow> ('b \<times> nat \<times> 'a refcell) outcome option" where
  "at_cell c r = obind r (\<lambda>(x, n, v). Some (Done (x, n, c\<lparr>rc_value := v\<rparr>)))"

lemma bl_submit_sqe_held:
  assumes "rc_borrowed c"
  shows "bl_submit_sqe dbg enter func cnt c = at_cell c (ls_submit_sqe dbg enter func cnt (rc_value c))"
  using assms
  by (auto simp: bl_submit_sqe_def ls_submit_sqe_def at_cell_def in_cell_def bf_drop_def within_held obind_assoc
      intro!: obind_cong split: sum.splits)

lemma bl_read_held:
  "rc_borrowed c \<Longrightarrow> bl_read dbg enter fd size' cnt c = at_cell c (ls_read dbg enter fd size' cnt (rc_value c))"
  by (auto simp: bl_read_def ls_read_def bl_submit_sqe_held at_cell_def obind_assoc intro!: obind_cong)

lemma bl_read_buf_held:
  "rc_borrowed c \<Longrightarrow> bl_read_buf dbg enter fd ptr len cnt c = at_cell c (ls_read_buf dbg enter fd ptr len cnt (rc_value c))"
  by (auto simp: bl_read_buf_def ls_read_buf_def bl_submit_sqe_held at_cell_def obind_assoc intro!: obind_cong)

lemma bl_write_buf_held:
  "rc_borrowed c \<Longrightarrow> bl_write_buf dbg enter fd ptr len cnt c = at_cell c (ls_write_buf dbg enter fd ptr len cnt (rc_value c))"
  by (auto simp: bl_write_buf_def ls_write_buf_def bl_submit_sqe_held at_cell_def obind_assoc intro!: obind_cong)

lemma bl_provide_buffer_held:
  assumes "rc_borrowed c"
  shows "bl_provide_buffer dbg enter ptr buffer cnt c = at_cell c (ls_provide_buffer dbg enter ptr buffer cnt (rc_value c))"
  using assms
  by (auto simp: bl_provide_buffer_def ls_provide_buffer_def bl_submit_sqe_held at_cell_def obind_assoc Let_def
      intro!: obind_cong split: sum.splits prod.splits option.splits)

lemma bh_single_free:
  assumes c: "\<not> rc_borrowed c" and op: "\<And>cnt c. rc_borrowed c \<Longrightarrow> bop cnt c = at_cell c (op cnt (rc_value c))"
  shows "bh_single dbg bop c = in_cell (h_single dbg op) c"
proof -
  have "rc_release (c\<lparr>rc_borrowed := True, rc_value := v\<rparr>) = c\<lparr>rc_value := v\<rparr>" for v
    using c by (cases c) (simp add: rc_release_def)
  then show ?thesis using c
    by (auto simp: bh_single_def h_single_def in_cell_def bl_new_def rc_borrow_mut_def op at_cell_def bl_submit_def
        obind_assoc obind_def split: Option.bind_splits outcome.splits)
qed

lemma bh_single_held: "rc_borrowed c \<Longrightarrow> bh_single dbg bop c = Some Panic"
  by (simp add: bh_single_def bl_new_def rc_borrow_mut_def)

lemma bawait_free:
  assumes "\<not> rc_borrowed c"
  shows "bawait dbg enter current fut c = in_cell (await_cf dbg enter current fut) c"
  using assms
  by (auto simp: bawait_def await_cf_def bf_poll_def bf_drop_def within_free in_cell_def obind_assoc
      intro!: obind_cong split: poll.splits)

lemma bread_finish_free:
  assumes "\<not> rc_borrowed c"
  shows "bread_finish e c = in_cell (\<lambda>ctx. Some (read_finish e ctx)) c"
  using assms
  by (auto simp: bread_finish_def read_finish_def within_free in_cell_def split: sum.splits option.splits prod.splits)

lemma bprovide_finish_free:
  assumes "\<not> rc_borrowed c"
  shows "bprovide_finish len bufid e c = in_cell (\<lambda>ctx. Some (provide_finish len bufid e ctx)) c"
  using assms
  by (auto simp: bprovide_finish_def provide_finish_def within_free in_cell_def split: sum.splits option.splits prod.splits)

lemma bio_poll_free:
  assumes "\<not> rc_borrowed c"
  shows "bio_poll dbg enter current fut c = in_cell (io_poll dbg enter current fut) c"
proof -
  have free: "\<not> rc_borrowed (c\<lparr>rc_value := v\<rparr>)" for v using assms by simp
  show ?thesis
    using assms free
    by (cases "(dbg, enter, current, fut, rc_value c)" rule: io_poll.cases)
      (auto simp: bawait_free in_cell_def obind_assoc bread_finish_free [OF free] bprovide_finish_free [OF free]
        intro!: obind_cong split: poll.splits)
qed

section \<open>Programs over a handle\<close>

text \<open>What a task can call: operations of a linked submitter, each alone or in a chain, a custom
  entry, spawning, and polling and dropping what these returned.\<close>

datatype linked_op =
  LinkRead "32 word" nat
| LinkReadBuf "32 word" u64 nat
| LinkWriteBuf "32 word" u64 nat
| LinkProvide u64 "u8 fixedvec"

datatype 'f request =
  ReqSpawn 'f
| ReqSqe "sqe \<Rightarrow> sqe"
| ReqSingle linked_op
| ReqChain "linked_op list"
| ReqPoll "nat option" io_future
| ReqNew
| ReqDrop cfut

datatype answer = AnsUnit | AnsFuture io_future | AnsFutures "io_future list" | AnsPoll "io_result poll" | AnsNew cfut

fun link_op ::
  "bool \<Rightarrow> 'k enter \<Rightarrow> linked_op \<Rightarrow> nat \<Rightarrow> ('f, 'k) ioctx \<Rightarrow> (io_future \<times> nat \<times> ('f, 'k) ioctx) outcome option" where
  "link_op dbg enter (LinkRead fd n) = ls_read dbg enter fd n"
| "link_op dbg enter (LinkReadBuf fd ptr len) = ls_read_buf dbg enter fd ptr len"
| "link_op dbg enter (LinkWriteBuf fd ptr len) = ls_write_buf dbg enter fd ptr len"
| "link_op dbg enter (LinkProvide ptr buf) = ls_provide_buffer dbg enter ptr buf"

fun blink_op ::
  "bool \<Rightarrow> 'k enter \<Rightarrow> linked_op \<Rightarrow> nat \<Rightarrow> ('f, 'k) ctx_cell \<Rightarrow> (io_future \<times> nat \<times> ('f, 'k) ctx_cell) outcome option" where
  "blink_op dbg enter (LinkRead fd n) = bl_read dbg enter fd n"
| "blink_op dbg enter (LinkReadBuf fd ptr len) = bl_read_buf dbg enter fd ptr len"
| "blink_op dbg enter (LinkWriteBuf fd ptr len) = bl_write_buf dbg enter fd ptr len"
| "blink_op dbg enter (LinkProvide ptr buf) = bl_provide_buffer dbg enter ptr buf"

fun each_op :: "('o \<Rightarrow> nat \<Rightarrow> 's \<Rightarrow> ('r \<times> nat \<times> 's) outcome option) \<Rightarrow> 'o list \<Rightarrow> nat \<Rightarrow> 's \<Rightarrow>
    ('r list \<times> nat \<times> 's) outcome option" where
  "each_op op [] cnt s = Some (Done ([], cnt, s))"
| "each_op op (x # xs) cnt s =
     obind (op x cnt s) (\<lambda>(r, cnt, s). obind (each_op op xs cnt s) (\<lambda>(rs, cnt, s). Some (Done (r # rs, cnt, s))))"

text \<open>On the context, by the models of the other theories.\<close>

fun on_context :: "bool \<Rightarrow> 'k enter \<Rightarrow> 'f request \<Rightarrow> ('f, 'k) ioctx \<Rightarrow> (answer \<times> ('f, 'k) ioctx) outcome option" where
  "on_context dbg enter (ReqSpawn f) ctx = Some (Done (AnsUnit, h_spawn_dyn f ctx))"
| "on_context dbg enter (ReqSqe func) ctx =
     obind (h_submit_sqe dbg enter func ctx) (\<lambda>(fut, ctx). Some (Done (AnsFuture fut, ctx)))"
| "on_context dbg enter (ReqSingle (LinkProvide ptr buf)) ctx =
     obind (h_provide_buffer dbg enter ptr buf ctx) (\<lambda>(fut, ctx). Some (Done (AnsFuture fut, ctx)))"
| "on_context dbg enter (ReqSingle op) ctx =
     obind (h_single dbg (link_op dbg enter op) ctx) (\<lambda>(fut, ctx). Some (Done (AnsFuture fut, ctx)))"
| "on_context dbg enter (ReqChain ops) ctx =
     obind (h_single dbg (each_op (link_op dbg enter) ops) ctx) (\<lambda>(futs, ctx). Some (Done (AnsFutures futs, ctx)))"
| "on_context dbg enter (ReqPoll current fut) ctx =
     obind (io_poll dbg enter current fut ctx) (\<lambda>(p, ctx). Some (Done (AnsPoll p, ctx)))"
| "on_context dbg enter ReqNew ctx =
     obind (Some (cf_from_ctx ctx)) (\<lambda>((fut, _), ctx). Some (Done (AnsNew fut, ctx)))"
| "on_context dbg enter (ReqDrop fut) ctx =
     obind (cf_drop dbg enter fut ctx) (\<lambda>ctx. Some (Done (AnsUnit, ctx)))"

text \<open>Through the cell, with its borrows.\<close>

fun through_cell :: "bool \<Rightarrow> 'k enter \<Rightarrow> 'f request \<Rightarrow> ('f, 'k) ctx_cell \<Rightarrow> (answer \<times> ('f, 'k) ctx_cell) outcome option" where
  "through_cell dbg enter (ReqSpawn f) c = obind (bh_spawn_dyn f c) (\<lambda>(_, c). Some (Done (AnsUnit, c)))"
| "through_cell dbg enter (ReqSqe func) c =
     obind (bh_submit_sqe dbg enter func c) (\<lambda>(fut, c). Some (Done (AnsFuture fut, c)))"
| "through_cell dbg enter (ReqSingle (LinkProvide ptr buf)) c =
     obind (bh_provide_buffer dbg enter ptr buf c) (\<lambda>(fut, c). Some (Done (AnsFuture fut, c)))"
| "through_cell dbg enter (ReqSingle op) c =
     obind (bh_single dbg (blink_op dbg enter op) c) (\<lambda>(fut, c). Some (Done (AnsFuture fut, c)))"
| "through_cell dbg enter (ReqChain ops) c =
     obind (bh_single dbg (each_op (blink_op dbg enter) ops) c) (\<lambda>(futs, c). Some (Done (AnsFutures futs, c)))"
| "through_cell dbg enter (ReqPoll current fut) c =
     obind (bio_poll dbg enter current fut c) (\<lambda>(p, c). Some (Done (AnsPoll p, c)))"
| "through_cell dbg enter ReqNew c = obind (bf_new c) (\<lambda>((fut, _), c). Some (Done (AnsNew fut, c)))"
| "through_cell dbg enter (ReqDrop fut) c = obind (bf_drop dbg enter fut c) (\<lambda>(_, c). Some (Done (AnsUnit, c)))"

fun all_requests :: "('r \<Rightarrow> 's \<Rightarrow> ('a \<times> 's) outcome option) \<Rightarrow> 'r list \<Rightarrow> 's \<Rightarrow> ('a list \<times> 's) outcome option" where
  "all_requests run [] s = Some (Done ([], s))"
| "all_requests run (r # rs) s =
     obind (run r s) (\<lambda>(a, s). obind (all_requests run rs s) (\<lambda>(as, s). Some (Done (a # as, s))))"

lemma blink_op_held:
  "rc_borrowed c \<Longrightarrow> blink_op dbg enter op cnt c = at_cell c (link_op dbg enter op cnt (rc_value c))"
  by (cases op) (simp_all add: bl_read_held bl_read_buf_held bl_write_buf_held bl_provide_buffer_held)

lemma each_op_held:
  "rc_borrowed c \<Longrightarrow> each_op (blink_op dbg enter) ops cnt c = at_cell c (each_op (link_op dbg enter) ops cnt (rc_value c))"
proof (induction ops arbitrary: cnt c)
  case Nil
  then show ?case by (cases c) (simp add: at_cell_def)
next
  case (Cons op ops)
  have "each_op (blink_op dbg enter) ops n (c\<lparr>rc_value := v\<rparr>) =
      at_cell (c\<lparr>rc_value := v\<rparr>) (each_op (link_op dbg enter) ops n v)" for n v
    using Cons.IH [of "c\<lparr>rc_value := v\<rparr>" n] Cons.prems by simp
  with Cons.prems show ?case by (auto simp: blink_op_held at_cell_def obind_assoc intro!: obind_cong)
qed

lemma bh_submit_sqe_free:
  "\<not> rc_borrowed c \<Longrightarrow> bh_submit_sqe dbg enter func c = in_cell (h_submit_sqe dbg enter func) c"
  using bh_single_free [of c "bl_submit_sqe dbg enter func" "ls_submit_sqe dbg enter func" dbg, OF _ bl_submit_sqe_held]
  by (auto simp: bh_submit_sqe_def h_submit_sqe_def in_cell_def obind_assoc intro!: obind_cong)

lemma bh_provide_buffer_free:
  "\<not> rc_borrowed c \<Longrightarrow> bh_provide_buffer dbg enter ptr buffer c = in_cell (h_provide_buffer dbg enter ptr buffer) c"
  using bh_single_free [of c "bl_provide_buffer dbg enter ptr buffer" "ls_provide_buffer dbg enter ptr buffer" dbg,
    OF _ bl_provide_buffer_held]
  by (auto simp: bh_provide_buffer_def h_provide_buffer_def rc_borrow_def in_cell_def)

text \<open>One request on a free cell leaves it free; on a borrowed one it panics.\<close>

lemma through_cell_free:
  assumes "\<not> rc_borrowed c"
  shows "through_cell dbg enter r c = in_cell (on_context dbg enter r) c"
proof (cases r)
  case (ReqSingle op)
  have "through_cell dbg enter (ReqSingle op) c = in_cell (on_context dbg enter (ReqSingle op)) c"
    using assms bh_single_free [of c "blink_op dbg enter op" "link_op dbg enter op" dbg, OF assms blink_op_held]
    by (cases op) (auto simp: in_cell_def bh_provide_buffer_free obind_assoc intro!: obind_cong)
  with ReqSingle show ?thesis by simp
next
  case (ReqChain ops)
  with assms bh_single_free [of c "each_op (blink_op dbg enter) ops" "each_op (link_op dbg enter) ops" dbg,
    OF assms each_op_held] show ?thesis by (auto simp: in_cell_def obind_assoc intro!: obind_cong)
next
  case (ReqSqe func)
  with assms show ?thesis by (auto simp: in_cell_def bh_submit_sqe_free obind_assoc intro!: obind_cong)
next
  case (ReqPoll current fut)
  with assms show ?thesis by (auto simp: in_cell_def bio_poll_free obind_assoc intro!: obind_cong)
qed (use assms in \<open>auto simp: bh_spawn_dyn_def bf_new_def bf_drop_def within_free in_cell_def obind_assoc
    intro!: obind_cong\<close>)

lemma all_requests_free:
  "\<not> rc_borrowed c \<Longrightarrow> all_requests (through_cell dbg enter) rs c = in_cell (all_requests (on_context dbg enter) rs) c"
proof (induction rs arbitrary: c)
  case Nil
  then show ?case by (cases c) (simp add: in_cell_def)
next
  case (Cons r rs)
  have "all_requests (through_cell dbg enter) rs (c\<lparr>rc_value := v\<rparr>) =
      in_cell (all_requests (on_context dbg enter) rs) (c\<lparr>rc_value := v\<rparr>)" for v
    using Cons.IH [of "c\<lparr>rc_value := v\<rparr>"] Cons.prems by simp
  with Cons.prems show ?case
    by (auto simp: through_cell_free in_cell_def obind_assoc intro!: obind_cong)
qed

text \<open>On a borrowed cell every request panics, except a poll that finds an error made before.\<close>

lemma bio_poll_held:
  assumes "rc_borrowed c"
  shows "bio_poll dbg enter current fut c = Some Panic \<or>
    (\<exists>p. bio_poll dbg enter current fut c = Some (Done (Ready p, c)))"
  using assms
  by (cases "(dbg, enter, current, fut, c)" rule: bio_poll.cases) (simp_all add: bawait_def bf_poll_def within_held)

lemma through_cell_held:
  assumes "rc_borrowed c"
  shows "through_cell dbg enter r c = Some Panic \<or> (\<exists>p. through_cell dbg enter r c = Some (Done (AnsPoll (Ready p), c)))"
proof (cases r)
  case (ReqSingle op)
  with assms show ?thesis by (cases op) (simp_all add: bh_single_held bh_provide_buffer_def rc_borrow_def)
next
  case (ReqPoll current fut)
  from bio_poll_held [OF assms, of dbg enter current fut] show ?thesis unfolding ReqPoll by auto
qed (use assms in \<open>simp_all add: bh_single_held bh_submit_sqe_def bh_spawn_dyn_def bf_new_def bf_drop_def within_held\<close>)

section \<open>The turn of the runtime\<close>

type_synonym ('f, 'k) cell_poll =
  "nat \<Rightarrow> 'f \<Rightarrow> ('f, 'k) ctx_cell \<Rightarrow> (poll_result \<times> 'f \<times> ('f, 'k) ctx_cell) option"

definition rt_cell :: "('f, 'k) runtime \<Rightarrow> bool \<Rightarrow> ('f, 'k) ctx_cell" where
  "rt_cell rt held = \<lparr>rc_value = rt_ctx rt, rc_borrowed = held\<rparr>"

fun brun_tasks ::
  "('f, 'k) cell_poll \<Rightarrow> nat list \<Rightarrow> ('f, 'k) runtime \<Rightarrow> bool \<Rightarrow> (turn_out \<times> ('f, 'k) runtime \<times> bool) option" where
  "brun_tasks poll [] rt held = Some (TOk, rt, held)"
| "brun_tasks poll (tid # ids) rt held =
     (case sm_get (rt_futures rt) tid of
        None \<Rightarrow> brun_tasks poll ids rt held
      | Some future \<Rightarrow>
          (case poll tid future (rt_cell rt held) of
             None \<Rightarrow> None
           | Some (result, future', c) \<Rightarrow>
               (let rt = rt\<lparr>rt_futures := sm_set (rt_futures rt) tid future', rt_ctx := rc_value c\<rparr>;
                    gone = rt\<lparr>rt_futures := snd (sm_remove (rt_futures rt) tid), rt_active := rt_active rt - 1\<rparr>
                in case result of
                     PReady \<Rightarrow> brun_tasks poll ids gone (rc_borrowed c)
                   | PPending \<Rightarrow> brun_tasks poll ids rt (rc_borrowed c)
                   | PPanic \<Rightarrow> Some (TUnwind, gone, rc_borrowed c))))"

text \<open>The first borrow ends at \<open>drop(ctx)\<close> or at the early return, the second with
  \<open>Runtime::process_cqes\<close>.\<close>

definition bturn ::
  "bool \<Rightarrow> 'k enter \<Rightarrow> (u64 \<Rightarrow> nat \<Rightarrow> nat) \<Rightarrow> ('f, 'k) cell_poll \<Rightarrow> ('f, 'k) runtime \<Rightarrow> bool \<Rightarrow>
    (turn_out \<times> ('f, 'k) runtime \<times> bool) outcome option" where
  "bturn dbg enter h poll rt held =
     obind (Some (rc_borrow_mut (rt_cell rt held))) (\<lambda>_.
     obind (Some (rt_gather rt)) (\<lambda>rt.
     obind (rt_wait dbg enter rt) (\<lambda>(res, rt).
       case res of
         TOk \<Rightarrow>
           obind (Some (rc_borrow_mut (rt_cell rt False))) (\<lambda>_.
           obind (Some (rt_process_cqes dbg rt)) (\<lambda>rt.
           obind (Some (dedup_partial h (rt_runqueue rt))) (\<lambda>queue.
             map_option Done (brun_tasks poll queue
               (rt\<lparr>rt_runqueue := [], rt_polled_dist := rt_polled_dist rt @ [length queue]\<rparr>) False))))
       | r \<Rightarrow> Some (Done (r, rt, False)))))"

text \<open>A task that ends its linked submitters before it returns to the runtime.\<close>

definition polls_release :: "('f, 'k) cell_poll \<Rightarrow> bool" where
  "polls_release poll \<longleftrightarrow>
     (\<forall>tid f c r f' c'. \<not> rc_borrowed c \<longrightarrow> poll tid f c = Some (r, f', c') \<longrightarrow> \<not> rc_borrowed c')"

definition on_ctx :: "('f, 'k) cell_poll \<Rightarrow> ('f, 'k) task_poll" where
  "on_ctx poll tid f ctx = map_option (\<lambda>(r, f', c). (r, f', rc_value c)) (poll tid f (rc_new ctx))"

lemma brun_tasks_free:
  assumes "polls_release poll"
  shows "brun_tasks poll ids rt False = map_option (\<lambda>(res, rt). (res, rt, False)) (run_tasks (on_ctx poll) ids rt)"
proof (induction ids arbitrary: rt)
  case Nil
  then show ?case by simp
next
  case (Cons tid ids)
  show ?case
  proof (cases "sm_get (rt_futures rt) tid")
    case None
    with Cons show ?thesis by simp
  next
    case (Some f)
    show ?thesis
    proof (cases "poll tid f (rc_new (rt_ctx rt))")
      case None
      with Some show ?thesis by (simp add: on_ctx_def rt_cell_def rc_new_def)
    next
      case p: (Some x)
      obtain r f' c where x: "x = (r, f', c)" by (cases x)
      have "\<not> rc_borrowed c"
        using assms p unfolding x polls_release_def by (metis rc_new_def refcell.select_convs(2))
      with Some p x Cons.IH show ?thesis
        by (cases r) (simp_all add: on_ctx_def rt_cell_def rc_new_def Let_def)
    qed
  qed
qed

lemma bturn_free:
  assumes "polls_release poll"
  shows "bturn dbg enter h poll rt False =
    obind (rt_turn dbg enter h (on_ctx poll) rt) (\<lambda>(res, rt). Some (Done (res, rt, False)))"
proof -
  have m: "obind (map_option Done y) (\<lambda>(res, rt). Some (Done (res, rt, False))) =
      map_option Done (map_option (\<lambda>(res, rt). (res, rt, False)) y)" for y :: "(turn_out \<times> ('a, 'b) runtime) option"
    by (cases y) (auto simp: obind_def)
  show ?thesis
    unfolding bturn_def rt_turn_def brun_tasks_free [OF assms] rc_borrow_mut_def rt_cell_def
    by (auto simp: obind_assoc m intro!: obind_cong split: turn_out.splits)
qed

lemma bturn_held: "bturn dbg enter h poll rt True = Some Panic"
  by (simp add: bturn_def rc_borrow_mut_def rt_cell_def)

section \<open>The early return of \<open>submit_sqe\<close>\<close>

lemma refused_slot:
  assumes sq: "sq_inv (io_sq ctx)" and full: "sq_free (io_sq ctx) \<le> cnt"
    and call: "sq_call_flags (io_ring ctx) 0 = Some fl"
    and e: "enter (u_fd (io_ring ctx)) (sq_ktail (io_sq ctx) - sq_sqe_tail (io_sq ctx)) 0 fl (io_ring ctx) = (ret, errno, u)"
    and err: "ret < 0" "errno \<noteq> EBUSY" "errno \<noteq> EAGAIN"
  shows "slot_loop False enter cnt g ctx = Some (Done (Inl (OsError errno), ctx\<lparr>io_ring := u\<rparr>))"
proof -
  have "sq_modify False cnt g (io_sq ctx) = Done None" using full by (simp add: sq_modify_eq [OF sq])
  moreover have "io_submit False enter 0 ctx = Some (Done (Inl (OsError errno), ctx\<lparr>io_ring := u\<rparr>))"
    using call e err
    by (subst io_submit.simps) (simp add: sq_submit_and_wait_eq Let_def must_retry_def raw_os_error_def)
  ultimately show ?thesis by (subst slot_loop.simps) simp
qed

section \<open>Properties\<close>


text \<open>C21: When a chain has used up the free entries and the kernel refuses the submission that
  would make room, submit\_sqe does not return the error: its early return drops the new
  future, whose destructor borrows the context that the submitter holds, and panics.\<close>

theorem refused_submission_panics:
  assumes held: "rc_borrowed c" and inv: "sub_inv (rc_value c)"
    and room: "sm_len (io_completions (rc_value c)) < sm_cap"
    and full: "sq_free (io_sq (rc_value c)) \<le> cnt" and cnt: "cnt < sq_size (io_sq (rc_value c))"
    and call: "sq_call_flags (io_ring (rc_value c)) 0 = Some fl"
    and e: "enter (u_fd (io_ring (rc_value c))) (sq_ktail (io_sq (rc_value c)) - sq_sqe_tail (io_sq (rc_value c))) 0 fl
        (io_ring (rc_value c)) = (ret, errno, u)"
    and err: "ret < 0" "errno \<noteq> EBUSY" "errno \<noteq> EAGAIN"
  shows "bl_submit_sqe False enter func cnt c = Some Panic"
proof -
  have io: "io_inv (rc_value c)" and sq: "sq_inv (io_sq (rc_value c))"
    and qs: "sq_queue_size (io_sq (rc_value c)) = sq_size (io_sq (rc_value c))"
    using inv by (simp_all add: sub_inv_def)
  obtain fut ctx1 where 1: "cf_from_ctx (rc_value c) = Done ((fut, cf_cqid fut), ctx1)"
    "ctx1 = (rc_value c)\<lparr>io_completions := io_completions ctx1\<rparr>"
    using cf_from_ctx_spec [OF io room] by blast
  have ring: "io_ring ctx1 = io_ring (rc_value c)" by (subst 1(2)) simp
  have "slot_loop False enter cnt g ctx1 = Some (Done (Inl (OsError errno), ctx1\<lparr>io_ring := u\<rparr>))" for g
    using refused_slot [of ctx1 cnt fl enter ret errno u g] sq full call e err by (simp add: ring)
  then show ?thesis
    using held cnt by (simp add: bl_submit_sqe_def in_cell_def 1(1) ring qs bf_drop_def within_held)
qed

section \<open>Witnesses\<close>


definition held_demo :: "(unit, unit) ctx_cell" where
  "held_demo = \<lparr>rc_value = rt_ctx fail_demo, rc_borrowed = True\<rparr>"

theorem refused_submission_panics_witness:
  "rc_borrowed held_demo \<and> bl_submit_sqe False bad_kernel (read_entry 3 4) 1 held_demo = Some Panic"
proof -
  note defs = held_demo_def fail_demo_def ctx_demo_def ring_of_def sq_demo_def
  have sq: "sq_inv (sq_demo\<lparr>sq_ktail := 1\<rparr>)"
    by (simp add: sq_inv_def sq_defs sq_demo_def ring_mask_ok_def upt_rec)
  have inv: "sub_inv (rc_value held_demo)"
    using sq by (simp add: held_demo_def fail_demo_def sub_inv_def io_inv_def ctx_demo_def ring_of_def cq_demo_inv
        sm_inv_new sq_queue_size_def sq_size_def) (simp add: sq_demo_def)
  have room: "sm_len (io_completions (rc_value held_demo)) < sm_cap"
    by (simp add: held_demo_def fail_demo_def ctx_demo_def sm_len_def sm_new_def sm_cap_def SENTINEL_def
        SLABSIZE_def USIZE_MAX_def)
  have full: "sq_free (io_sq (rc_value held_demo)) \<le> 1" "1 < sq_size (io_sq (rc_value held_demo))"
    by (simp_all add: defs sq_free_def sq_defs)
  have call: "sq_call_flags (io_ring (rc_value held_demo)) 0 = Some 0"
    by (simp add: defs sq_call_flags_def sq_enter_flags_def sq_unreported_def contains_def Setup_SQPOLL_def
        IORING_SETUP_SQPOLL_def)
  have held: "rc_borrowed held_demo" by (simp add: held_demo_def)
  from refused_submission_panics [OF held inv room full call, of bad_kernel "- 1" 9 "io_ring (rc_value held_demo)"
      "read_entry 3 4"] held show ?thesis by (simp add: bad_kernel_def EBUSY_def EAGAIN_def)
qed

end
