(* ===== verification/Spec2Isabelle.thy ===== *)
theory Spec2Isabelle
  imports Runtime Fixed_Vec Dedup Chunks Join Sqe_Types Registrar Uring_Setup Token_Replace Metric_Registry
    Echo_Server Ping_Server Acceptor Runtime_Run Fixed_Vec_Traits Server_Main
    Ring_Handles Slotmap_Mut Raw_Layout Executor_Stats Request Borrow
begin

text \<open>
  Hamerkop is an asynchronous executor for Linux (crate \<open>hamerkop\<close>) on a binding to the interface
  io\_uring (crate \<open>uring\<close>), with two small libraries beside it: \<open>metrics\<close>, for counters, gauges
  and histograms, and \<open>tokenreplace\<close>, an attribute macro that \<open>metrics\<close> uses.

  \<^bold>\<open>How the parts interact.\<close>  A ring is made by \<open>IoUring::with_params\<close>: the kernel maps a submission
  and a completion queue into the memory of the program.  The program writes entries at the tail
  of the submission queue and \<open>io_uring_enter\<close> lets the kernel take them; the kernel writes
  completions at the tail of the completion queue and the program advances its head.  The executor
  keeps three slot maps, of futures, of completion events and of buffers.  Submitting an operation
  allocates a completion event, whose index travels through the kernel as the user data of the
  entry; a completion of this index is stored in the event and wakes the task that waits for it.
  One turn of \<open>Runtime\<close> polls the woken tasks, stores the futures these have spawned, submits what
  they have queued, and processes the completions, which gives the run queue of the next turn.

  \<^bold>\<open>Theories.\<close>
  \<^item> \<open>Prelude\<close>: machine integers as words, \<open>outcome\<close> (a value, a panic, or undefined behaviour),
    blocks of possibly uninitialised cells, lemmas on lists.  \<open>None\<close> of an \<open>option\<close> around an
    \<open>outcome\<close> is a computation that does not return.
  \<^item> \<open>Ring_View\<close>, \<open>Slot_Store\<close>, \<open>Channel\<close>: the interfaces between components, as locales.  \<open>Ring_Buf\<close>
    and \<open>Ring_Buf_Mut\<close> (\<open>ringbuf.rs\<close>) provide the first, \<open>Slotmap\<close> (\<open>stable_slotmap.rs\<close>) the second,
    \<open>Sub_Queue\<close> and \<open>Comp_Queue\<close> both provide the third; the order of slices in
    \<open>Fixed_Vec_Traits\<close> is a fourth.
  \<^item> \<open>Uring_Raw\<close>, \<open>Uring_State\<close> (\<open>raw.rs\<close>, \<open>flags.rs\<close>, \<open>detail.rs\<close>): entries, operation codes, flags,
    and the shared state of the two queues.  \<open>Raw_Layout\<close>: sizes, alignments and offsets of the
    structures, and the entries as bytes of the mapped memory.
  \<^item> \<open>Sub_Queue\<close> (\<open>sqe.rs\<close>), \<open>Comp_Queue\<close> (\<open>cqe.rs\<close>): the queues.  \<open>sq_window\<close> and \<open>cq_window\<close> are
    the lists of queued entries they represent across the wrap-around of their 32-bit counters.
  \<^item> \<open>Sat_Cast\<close> (\<open>detail.rs\<close>), \<open>Sqe_Types\<close> (\<open>sqe_types.rs\<close>): the 33 operations and how each is
    written into an entry.
  \<^item> \<open>Uring_Setup\<close> (\<open>lib.rs\<close>, \<open>detail.rs\<close>), \<open>Registrar\<close> (\<open>registrar.rs\<close>): making and dropping a ring,
    the registration calls, the names of the operations.  \<open>Ring_Handles\<close>: the handles \<open>split\<close>
    makes, and a batch of operations from a new ring to the kernel.
  \<^item> \<open>Io_Context\<close>, \<open>Completion\<close>, \<open>Io_Handle\<close>, \<open>Runtime\<close>
    (\<open>executor/*.rs\<close>, \<open>error.rs\<close>): the executor.  \<open>Runtime_Run\<close>: runs to completion and failing
    \<open>block_on\<close>.  \<open>Request\<close>: one pooled read while all other operations of the executor go on in
    between.  \<open>Borrow\<close>: the \<open>RefCell\<close> around the context, the borrows the operations take, and
    that they are those of the other theories as long as no submitter is kept.  \<open>Executor_Stats\<close>: its metrics, its waker and small accessors.
  \<^item> \<open>Fixed_Vec\<close>, \<open>Fixed_Vec_Traits\<close>, \<open>Slotmap\<close>, \<open>Slotmap_Mut\<close>, \<open>Dedup\<close>, \<open>Chunks\<close>, \<open>Join\<close>: the
    containers and utilities of \<open>hamerkop\<close>; \<open>_Traits\<close> and \<open>_Mut\<close> hold comparison and mutable access.
  \<^item> \<open>Lazy_Cell\<close>, \<open>Float64\<close>, \<open>Sketch\<close>, \<open>Metric_Registry\<close> (crate \<open>metrics\<close>), \<open>Token_Replace\<close>
    (\<open>tokenreplace/src/lib.rs\<close>).
  \<^item> \<open>Connection\<close>, \<open>Echo_Server\<close>, \<open>Ping_Server\<close>, \<open>Acceptor\<close>, \<open>Buffer_Setup\<close>, \<open>Server_Main\<close>
    (\<open>hamerkop/examples\<close>): the two example servers, which put the executor, the fixed vectors and
    the chunk iterator together: the connection tasks, the acceptor thread with the main task, the
    buffers the main task offers first, and the start and the end of \<open>main\<close>.

  \<^bold>\<open>What is shown.\<close>  The queues are bounded first-in first-out channels, and what goes wrong when the
  submission queue is full; on a new ring the kernel reads exactly the operations the program
  prepared, and the entries in the mapped bytes are the entries of the model.  Mutable iteration over
  a ring view hands out disjoint slots.  The slot map never panics and its indices are stable.  Processing
  completions is a fold of an abstract step over the completion queue; a completion reaches its
  future, and a dropped future is reclaimed when its completion arrives; one turn of the runtime
  loses no wake-up, and nothing the rest of the program does steals or loses the completion of a waiting read; a runtime whose tasks finish runs to completion, and a failing \<open>block_on\<close> leaves
  its future behind.  Linked submissions, pooled reads and provided buffers do what their
  documentation says, on the error paths as well, and the borrows of the shared context never overlap
  between them, except where an early return makes a refused submission panic.  Fixed vectors refine bounded lists, and comparing them
  compares their contents.  A freshly
  made ring satisfies the invariant the queues rely on; a failed set-up and a dropped ring are
  compared with the state before.  A lazily initialised cell runs its closure at most once in any
  interleaving of threads, and every thread gets its value under a fair schedule.  Sketches merge
  like their samples and their quantiles stay in range; those of the executor have a bucket for every
  value.  The token macro is a substitution on
  lexical tokens.  The connection tasks of the two servers terminate, never panic, and answer what the
  peer sends; their main task offers its buffers and waits until the kernel has all of them; a server
  whose executor has stopped ends with the next client.  Several properties state what the code does where that is not what it means
  to do.

  \<^bold>\<open>Parameters.\<close>  The kernel is a function from the state of the ring to its next state
  (\<open>kernel_keeps_sq\<close>, \<open>kernel_keeps_cq\<close>: it consumes a prefix of what is queued, appends completions
  while there is room, and touches nothing else), and for set-up a record of system calls with
  \<open>os_laws\<close>.  Also parameters are: the awaited operations of a
  connection (\<open>net_laws\<close>), the poll functions of futures, hash functions, the closures
  passed to containers, the parser library \<open>syn\<close>, rounding and logarithm of floating point numbers
  (\<open>fp_laws\<close>), and the schedule of threads.  Every property that assumes such laws has a witness
  with concrete functions that satisfy them.

  \<^bold>\<open>Bounds.\<close>  \<open>usize\<close> counters of containers are \<open>nat\<close>, as memory bounds them; positions of the rings,
  flags, user data and the counters of metrics are words and wrap or saturate as in the code.  No
  definition uses fuel: loops are structural or have a measure, and the loops that may run for ever
  (retrying a submission, waiting in a destructor, \<open>run\<close> and \<open>block_on\<close>) are partial functions whose
  value \<open>None\<close> is divergence, with theorems on when they return.

  \<^bold>\<open>Not modelled.\<close>  The trait implementations that only delegate (\<open>AsRef\<close>, \<open>Borrow\<close>, \<open>Debug\<close>,
  \<open>as_any\<close>), formatting, logging, memory orderings (atomic actions are taken as sequentially
  consistent), the collection of metrics by the linker, the C wrappers of the system calls, the environment
  variables and logger of the example programs, and tests.
\<close>

end
